(* ===== verification/Prelude.thy ===== *)
theory Prelude
  imports Main "HOL-Library.Word"
begin

unbundle bit_operations_syntax

text \<open>
  The vocabulary every component of the development shares: Go's fixed-width integers as
  words, the error values of the packages, run-time panics as a result type with its
  \<open>obind\<close>, and the two list operations that stand for Go's slice expressions and for the
  built-in \<open>copy\<close>, with the lemmas the component proofs run on.
\<close>

section \<open>Types\<close>

text \<open>
  A \<open>byte\<close>, \<open>int16\<close>, \<open>int32\<close>, \<open>int64\<close> or \<open>uint64\<close> of the source is a word of its width;
  \<open>sint\<close> reads a signed value. Go's \<open>int\<close> is 64 bits wide; where it counts bytes of a buffer
  or elements of a slice it is a \<open>nat\<close>, where the code tests its sign it is an \<open>int\<close>.
\<close>

type_synonym byte = "8 word"
type_synonym int16 = "16 word"
type_synonym int32 = "32 word"
type_synonym int64 = "64 word"
type_synonym uint64 = "64 word"

text \<open>A pointer to a heap object is an address; \<open>None\<close> is \<open>nil\<close>.\<close>

type_synonym addr = nat
type_synonym ptr = "addr option"

text \<open>The error variables of the packages, and those of \<open>io\<close> that the code compares with.\<close>

datatype io_error = EOF | ErrNoProgress | ErrShortWrite

datatype bufio_error =
    ErrInvalidUnreadByte | ErrInvalidUnreadRune | ErrBufferFull | ErrNegativeCount

datatype protocol_error = ErrProtoPackLen | ErrProtoHeaderLen

datatype websocket_error = ErrMessageClose | ErrMessageMaxRead

datatype upgrade_error =
    ErrBadRequestMethod | ErrNotWebSocket | ErrBadWebSocketVersion | ErrChallengeResponse

datatype comet_error =
    ErrHandshake | ErrOperation
  | ErrRingEmpty | ErrRingFull
  | ErrTimerFull | ErrTimerEmpty | ErrTimerNoItem
  | ErrPushMsgArg | ErrPushMsgsArg | ErrMPushMsgArg | ErrMPushMsgsArg | ErrSignalFullMsgDropped
  | ErrBroadCastArg | ErrBroadCastRoomArg
  | ErrRoomDroped
  | ErrLogic

datatype strconv_error = ErrSyntax | ErrRange

datatype job_error = ErrComet | ErrCometFull | ErrRoomFull

text \<open>
  A value of Go's \<open>error\<close> interface. \<open>Errorf\<close> is an error the code builds with
  \<open>fmt.Errorf\<close> (its format string), \<open>External\<close> one that a dependency returned.
\<close>

datatype error =
    IO io_error | Bufio bufio_error | Protocol protocol_error | Websocket websocket_error
  | Upgrading upgrade_error | Comet comet_error | Job job_error | Strconv strconv_error
  | ErrNil | Errorf string | External nat

section \<open>Panics\<close>

datatype panic =
    IndexOutOfRange | SliceBounds | DivideByZero | NilDereference
  | FillFullBuffer | NegativeRead | RewindPastStart

text \<open>A call either returns or panics.\<close>

datatype 'a outcome = Ret 'a | Panic panic

fun obind :: "'a outcome \<Rightarrow> ('a \<Rightarrow> 'b outcome) \<Rightarrow> 'b outcome" where
  "obind (Ret x) f = f x"
| "obind (Panic p) f = Panic p"

named_theorems outcome_simps \<open>equations that take a sequence of calls apart\<close>
named_theorems slice_simps \<open>slices and copies of byte lists\<close>

lemma obind_eq_Ret [outcome_simps]: "obind m f = Ret y \<longleftrightarrow> (\<exists>x. m = Ret x \<and> f x = Ret y)"
  by (cases m) auto

lemma obind_eq_Panic [outcome_simps]:
  "obind m f = Panic p \<longleftrightarrow> m = Panic p \<or> (\<exists>x. m = Ret x \<and> f x = Panic p)"
  by (cases m) auto

lemma obind_assoc: "obind (obind m f) g = obind m (\<lambda>x. obind (f x) g)"
  by (cases m) auto

lemma obind_cong [fundef_cong]:
  assumes "m = m'" and "\<And>x. m' = Ret x \<Longrightarrow> f x = g x"
  shows "obind m f = obind m' g"
  using assms by (cases m') auto

text \<open>
  A call that may also never return (a loop of the source with no bound, an operation that blocks
  for ever): \<open>None\<close>.
\<close>

type_synonym 'a run = "'a outcome option"

fun rbind :: "'a run \<Rightarrow> ('a \<Rightarrow> 'b run) \<Rightarrow> 'b run" where
  "rbind None f = None"
| "rbind (Some (Ret x)) f = f x"
| "rbind (Some (Panic p)) f = Some (Panic p)"

lemma rbind_eq_Ret [outcome_simps]:
  "rbind m f = Some (Ret y) \<longleftrightarrow> (\<exists>x. m = Some (Ret x) \<and> f x = Some (Ret y))"
  by (cases "(m, f)" rule: rbind.cases) auto

lemma rbind_cong [fundef_cong]:
  assumes "m = m'" and "\<And>x. m' = Some (Ret x) \<Longrightarrow> f x = g x"
  shows "rbind m f = rbind m' g"
  using assms by (cases "(m', g)" rule: rbind.cases) auto

section \<open>Slices and copies\<close>

text \<open>\<open>seg xs i j\<close> is the contents of Go's \<open>xs[i:j]\<close> for \<open>i \<le> j \<le> len(xs)\<close>.\<close>

definition seg :: "'a list \<Rightarrow> nat \<Rightarrow> nat \<Rightarrow> 'a list" where
  "seg xs i j = take (j - i) (drop i xs)"

text \<open>
  The slice expression itself: the bounds are checked against the capacity, so it may reach
  the elements \<open>spare\<close> of the backing array that lie past \<open>len(xs)\<close>.
\<close>

definition go_slice :: "'a list \<Rightarrow> 'a list \<Rightarrow> nat \<Rightarrow> nat \<Rightarrow> 'a list outcome" where
  "go_slice xs spare i j =
     (if i \<le> j \<and> j \<le> length xs + length spare then Ret (seg (xs @ spare) i j)
      else Panic SliceBounds)"

text \<open>\<open>copy_at dst off src\<close> is \<open>dst\<close> after \<open>copy(dst[off:], src)\<close>.\<close>

definition copy_at :: "'a list \<Rightarrow> nat \<Rightarrow> 'a list \<Rightarrow> 'a list" where
  "copy_at dst off src =
     take off dst @ take (length dst - off) src @ drop (off + length src) dst"

text \<open>
  \<open>append(xs, ys...)\<close> on a slice with its spare capacity: in place when \<open>ys\<close> fits, else in a new
  array of the capacity \<open>newcap old needed\<close> that the run time chooses (the rest of it is zero).
\<close>

definition go_append :: "(nat \<Rightarrow> nat \<Rightarrow> nat) \<Rightarrow> byte list \<times> byte list \<Rightarrow> byte list \<Rightarrow> byte list \<times> byte list" where
  "go_append newcap xs ys =
     (let n = length (fst xs) + length ys in
      (fst xs @ ys,
       if length ys \<le> length (snd xs) then drop (length ys) (snd xs)
       else replicate (newcap (length (fst xs) + length (snd xs)) n - n) 0))"

text \<open>\<open>bytes.IndexByte\<close>: the index of the first occurrence, \<open>None\<close> where Go returns -1.\<close>

fun IndexByte :: "'a list \<Rightarrow> 'a \<Rightarrow> nat option" where
  "IndexByte [] c = None"
| "IndexByte (x # xs) c = (if x = c then Some 0 else map_option Suc (IndexByte xs c))"

lemma IndexByte_None: "IndexByte xs c = None \<longleftrightarrow> c \<notin> set xs"
  by (induction xs) auto

lemma IndexByte_Some:
  "IndexByte xs c = Some i \<Longrightarrow> i < length xs \<and> xs ! i = c \<and> c \<notin> set (take i xs)"
  by (induction xs arbitrary: i) (auto split: if_splits)

lemma fst_go_append [simp]: "fst (go_append newcap xs ys) = fst xs @ ys"
  by (simp add: go_append_def Let_def)

lemma length_seg [simp, slice_simps]: "length (seg xs i j) = min (j - i) (length xs - i)"
  by (simp add: seg_def)

lemma seg_empty [simp]: "seg xs i i = []"
  by (simp add: seg_def)

lemma seg_0 [simp]: "seg xs 0 j = take j xs"
  by (simp add: seg_def)

lemma seg_append_seg:
  "i \<le> j \<Longrightarrow> j \<le> k \<Longrightarrow> seg xs i j @ seg xs j k = seg xs i k"
proof -
  assume ij: "i \<le> j" and jk: "j \<le> k"
  have "seg xs i k = take ((j - i) + (k - j)) (drop i xs)"
    using ij jk by (simp add: seg_def)
  also have "\<dots> = take (j - i) (drop i xs) @ take (k - j) (drop (j - i) (drop i xs))"
    by (simp only: take_add)
  also have "drop (j - i) (drop i xs) = drop j xs"
    using ij by (simp add: drop_drop)
  finally show ?thesis by (simp add: seg_def)
qed

lemma take_seg: "take n (seg xs i j) = seg xs i (min j (i + n))"
proof -
  have "min j (i + n) - i = min n (j - i)" by arith
  then show ?thesis by (simp add: seg_def)
qed

lemma drop_seg: "drop n (seg xs i j) = seg xs (i + n) j"
  by (simp add: seg_def drop_take add.commute)

lemma seg_append_left [simp]: "j \<le> length xs \<Longrightarrow> seg (xs @ ys) i j = seg xs i j"
  by (auto simp: seg_def)

lemma seg_nth: "i < j \<Longrightarrow> j \<le> length xs \<Longrightarrow> seg xs i j = xs ! i # seg xs (Suc i) j"
  by (simp add: seg_def Cons_nth_drop_Suc [symmetric] take_Cons' Suc_diff_Suc)

lemma go_slice_within [simp]:
  "i \<le> j \<Longrightarrow> j \<le> length xs \<Longrightarrow> go_slice xs sp i j = Ret (seg xs i j)"
  by (simp add: go_slice_def)

lemma length_copy_at [simp, slice_simps]: "off \<le> length dst \<Longrightarrow> length (copy_at dst off src) = length dst"
  by (simp add: copy_at_def)

lemma take_copy_at: "k \<le> off \<Longrightarrow> off \<le> length dst \<Longrightarrow> take k (copy_at dst off src) = take k dst"
  by (simp add: copy_at_def min_def)

lemma copy_at_fits:
  "off + length src \<le> length dst \<Longrightarrow>
   copy_at dst off src = take off dst @ src @ drop (off + length src) dst"
  by (simp add: copy_at_def)

lemma copy_at_nil [simp]: "copy_at dst off [] = dst"
  by (simp add: copy_at_def)

lemma take_copy_at_end:
  assumes "off \<le> length dst" and "k \<le> length src" and "off + k \<le> length dst"
  shows "take (off + k) (copy_at dst off src) = take off dst @ take k src"
proof -
  have "k \<le> length dst - off" using assms by arith
  then show ?thesis using assms
    by (simp add: copy_at_def min_def take_all)
qed

lemma seg_copy_at:
  assumes "i \<le> off" and "off \<le> length dst" and "k \<le> length src" and "off + k \<le> length dst"
  shows "seg (copy_at dst off src) i (off + k) = seg dst i off @ take k src"
proof -
  have "seg (copy_at dst off src) i (off + k) = drop i (take (off + k) (copy_at dst off src))"
    using assms by (simp add: seg_def drop_take)
  also have "\<dots> = drop i (take off dst @ take k src)"
    using assms by (simp add: take_copy_at_end)
  also have "\<dots> = seg dst i off @ take k src"
    using assms by (simp add: seg_def drop_take)
  finally show ?thesis .
qed

end
