(* ===== verification/Bytes_Writer.thy ===== *)
theory Bytes_Writer
  imports Prelude
begin

text \<open>
  \<open>pkg/bytes/writer.go\<close>: the growing byte buffer into which the job process merges frames.
  \<open>Peek\<close> hands out a window of the buffer that the caller then fills in place, so it returns
  the window's offset, and \<open>bw_poke\<close> is a caller's write through that window.
\<close>

section \<open>The writer\<close>

record BytesWriter =
  bw_n :: nat
  bw_buf :: "byte list"

definition NewWriterSize :: "nat \<Rightarrow> BytesWriter" where
  "NewWriterSize n = \<lparr>bw_n = 0, bw_buf = replicate n 0\<rparr>"

definition BytesWriter_Len :: "BytesWriter \<Rightarrow> nat" where
  "BytesWriter_Len w = bw_n w"

definition BytesWriter_Size :: "BytesWriter \<Rightarrow> nat" where
  "BytesWriter_Size w = length (bw_buf w)"

definition BytesWriter_Reset :: "BytesWriter \<Rightarrow> BytesWriter" where
  "BytesWriter_Reset w = w\<lparr>bw_n := 0\<rparr>"

definition BytesWriter_Buffer :: "BytesWriter \<Rightarrow> byte list" where
  "BytesWriter_Buffer w = take (bw_n w) (bw_buf w)"

definition BytesWriter_grow :: "nat \<Rightarrow> BytesWriter \<Rightarrow> BytesWriter" where
  "BytesWriter_grow n w =
     (if bw_n w + n < length (bw_buf w) then w
      else w\<lparr>bw_buf := copy_at (replicate (2 * length (bw_buf w) + n) 0) 0 (take (bw_n w) (bw_buf w))\<rparr>)"

text \<open>\<open>Peek\<close>: the offset of the window \<open>w.buf[w.n : w.n+n]\<close> and the advanced writer.\<close>

definition BytesWriter_Peek :: "nat \<Rightarrow> BytesWriter \<Rightarrow> nat \<times> BytesWriter" where
  "BytesWriter_Peek n w =
     (let w' = BytesWriter_grow n w in (bw_n w', w'\<lparr>bw_n := bw_n w' + n\<rparr>))"

definition BytesWriter_Write :: "byte list \<Rightarrow> BytesWriter \<Rightarrow> BytesWriter" where
  "BytesWriter_Write p w =
     (let w' = BytesWriter_grow (length p) w
      in w'\<lparr>bw_buf := copy_at (bw_buf w') (bw_n w') p,
            bw_n := bw_n w' + min (length (bw_buf w') - bw_n w') (length p)\<rparr>)"

definition bw_poke :: "nat \<Rightarrow> byte list \<Rightarrow> BytesWriter \<Rightarrow> BytesWriter" where
  "bw_poke off bs w = w\<lparr>bw_buf := copy_at (bw_buf w) off bs\<rparr>"

section \<open>Invariant and behaviour\<close>

definition BytesWriter_ok :: "BytesWriter \<Rightarrow> bool" where
  "BytesWriter_ok w \<longleftrightarrow> bw_n w \<le> length (bw_buf w)"

lemma NewWriterSize_ok [simp]: "BytesWriter_ok (NewWriterSize n)"
  by (simp add: BytesWriter_ok_def NewWriterSize_def)

lemma Buffer_NewWriterSize [simp]: "BytesWriter_Buffer (NewWriterSize n) = []"
  by (simp add: BytesWriter_Buffer_def NewWriterSize_def)

lemma Reset_ok [simp]: "BytesWriter_ok (BytesWriter_Reset w)"
  by (simp add: BytesWriter_ok_def BytesWriter_Reset_def)

lemma Buffer_Reset [simp]: "BytesWriter_Buffer (BytesWriter_Reset w) = []"
  by (simp add: BytesWriter_Buffer_def BytesWriter_Reset_def)

text \<open>Growing keeps the written bytes and leaves room for \<open>n\<close> more.\<close>

lemma grow_room:
  assumes "BytesWriter_ok w"
  shows "bw_n (BytesWriter_grow n w) = bw_n w"
    and "bw_n w + n \<le> length (bw_buf (BytesWriter_grow n w))"
    and "take (bw_n w) (bw_buf (BytesWriter_grow n w)) = take (bw_n w) (bw_buf w)"
  using assms by (auto simp: BytesWriter_grow_def BytesWriter_ok_def copy_at_def)

lemma Buffer_length: "BytesWriter_ok w \<Longrightarrow> length (BytesWriter_Buffer w) = BytesWriter_Len w"
  by (simp add: BytesWriter_ok_def BytesWriter_Buffer_def BytesWriter_Len_def)

lemma Write_ok: "BytesWriter_ok w \<Longrightarrow> BytesWriter_ok (BytesWriter_Write p w)"
  using grow_room [of w "length p"]
  by (simp add: BytesWriter_Write_def BytesWriter_ok_def Let_def)

lemma Buffer_Write:
  assumes "BytesWriter_ok w"
  shows "BytesWriter_Buffer (BytesWriter_Write p w) = BytesWriter_Buffer w @ p"
  using grow_room [OF assms, of "length p"] assms
  by (auto simp: BytesWriter_Write_def BytesWriter_Buffer_def Let_def BytesWriter_ok_def
      take_copy_at_end min_def)

lemma Peek_ok: "BytesWriter_ok w \<Longrightarrow> BytesWriter_Peek n w = (off, w') \<Longrightarrow> BytesWriter_ok w'"
  using grow_room [of w n] by (auto simp: BytesWriter_Peek_def BytesWriter_ok_def Let_def)

lemma poke_ok [simp]: "off \<le> length (bw_buf w) \<Longrightarrow> BytesWriter_ok (bw_poke off bs w) = BytesWriter_ok w"
  by (simp add: bw_poke_def BytesWriter_ok_def)

text \<open>A window that is handed out and then filled appends exactly what was put in it.\<close>

lemma Buffer_Peek_poke:
  assumes ok: "BytesWriter_ok w" and pk: "BytesWriter_Peek (length bs) w = (off, w')"
  shows "BytesWriter_Buffer (bw_poke off bs w') = BytesWriter_Buffer w @ bs"
    and "BytesWriter_ok (bw_poke off bs w')"
  using grow_room [OF ok, of "length bs"] ok pk
  by (auto simp: BytesWriter_Peek_def BytesWriter_Buffer_def bw_poke_def Let_def
      BytesWriter_ok_def take_copy_at_end)

end
