(* ===== verification/Bufio_Reader.thy ===== *)
theory Bufio_Reader
  imports Prelude
begin

text \<open>
  \<open>pkg/bufio/bufio.go\<close>, the \<open>Reader\<close> half. The underlying \<open>io.Reader\<close> is not part of the
  repository: it is a parameter \<open>read\<close> of every operation that can reach it. \<open>read s p\<close> is the
  call \<open>rd.Read(p)\<close> in the state \<open>s\<close> of the underlying reader, on a slice with contents \<open>p\<close>; it
  gives the new state, the contents of \<open>p\<close> afterwards, the count and the error. A read only
  ever changes the elements of the slice it was given, which \<open>copy_at\<close> enforces.
\<close>

type_synonym 's io_read = "'s \<Rightarrow> byte list \<Rightarrow> 's \<times> byte list \<times> int \<times> error option"

section \<open>State\<close>

text \<open>
  \<open>rd_spare\<close> is the rest of the array behind \<open>buf\<close>: the bytes between \<open>len(buf)\<close> and
  \<open>cap(buf)\<close>. No operation of the reader writes there, but a slice it returns can be
  re-sliced into them.
\<close>

record 's Reader =
  rd_buf :: "byte list"
  rd_spare :: "byte list"
  rd_rd :: 's
  rd_r :: nat
  rd_w :: nat
  rd_err :: "error option"

definition minReadBufferSize :: nat where "minReadBufferSize = 16"
definition maxConsecutiveEmptyReads :: nat where "maxConsecutiveEmptyReads = 100"
definition defaultBufSize :: nat where "defaultBufSize = 4096"

definition Reader_reset :: "byte list \<Rightarrow> byte list \<Rightarrow> 's \<Rightarrow> 's Reader" where
  "Reader_reset buf spare r =
     \<lparr>rd_buf = buf, rd_spare = spare, rd_rd = r, rd_r = 0, rd_w = 0, rd_err = None\<rparr>"

text \<open>
  \<open>NewReaderSize\<close>: the type switch on the argument is the sum: \<open>Inl\<close> a \<open>*Reader\<close>, which is
  returned as it is when its buffer is large enough, \<open>Inr\<close> any other reader. The result is the
  same reader or a new one over the argument.
\<close>

definition NewReaderSize ::
    "'s Reader + 's \<Rightarrow> int \<Rightarrow> 's Reader + ('s Reader + 's) Reader" where
  "NewReaderSize rd sz =
     (case rd of
        Inl b \<Rightarrow> if int (length (rd_buf b)) \<ge> sz then Inl b
                 else Inr (Reader_reset (replicate (nat (max sz (int minReadBufferSize))) 0) [] rd)
      | Inr s \<Rightarrow> Inr (Reader_reset (replicate (nat (max sz (int minReadBufferSize))) 0) [] rd))"

definition NewReader :: "'s Reader + 's \<Rightarrow> 's Reader + ('s Reader + 's) Reader" where
  "NewReader rd = NewReaderSize rd (int defaultBufSize)"

definition Reader_Reset :: "'s \<Rightarrow> 's Reader \<Rightarrow> 's Reader" where
  "Reader_Reset r b = Reader_reset (rd_buf b) (rd_spare b) r"

definition Reader_ResetBuffer :: "'s \<Rightarrow> byte list \<Rightarrow> byte list \<Rightarrow> 's Reader \<Rightarrow> 's Reader" where
  "Reader_ResetBuffer r buf spare b = Reader_reset buf spare r"

definition Reader_Buffered :: "'s Reader \<Rightarrow> nat" where
  "Reader_Buffered b = rd_w b - rd_r b"

section \<open>Operations\<close>

text \<open>The bounded retry loop of \<open>fill\<close>, \<open>i\<close> counting down.\<close>

primrec fill_loop :: "'s io_read \<Rightarrow> nat \<Rightarrow> 's Reader \<Rightarrow> 's Reader outcome" where
  "fill_loop read 0 b = Ret (b\<lparr>rd_err := Some (IO ErrNoProgress)\<rparr>)"
| "fill_loop read (Suc i) b =
     (case read (rd_rd b) (drop (rd_w b) (rd_buf b)) of
        (s, p, n, err) \<Rightarrow>
          if n < 0 then Panic NegativeRead
          else
            let b' = b\<lparr>rd_rd := s, rd_buf := copy_at (rd_buf b) (rd_w b) p,
                       rd_w := rd_w b + nat n\<rparr>
            in if err \<noteq> None then Ret (b'\<lparr>rd_err := err\<rparr>)
               else if n > 0 then Ret b'
               else fill_loop read i b')"

definition Reader_slide :: "'s Reader \<Rightarrow> 's Reader outcome" where
  "Reader_slide b =
     (if rd_r b > 0
      then obind (go_slice (rd_buf b) (rd_spare b) (rd_r b) (rd_w b))
             (\<lambda>d. Ret (b\<lparr>rd_buf := copy_at (rd_buf b) 0 d, rd_w := rd_w b - rd_r b, rd_r := 0\<rparr>))
      else Ret b)"

definition Reader_fill :: "'s io_read \<Rightarrow> 's Reader \<Rightarrow> 's Reader outcome" where
  "Reader_fill read b =
     obind (Reader_slide b)
       (\<lambda>b'. if rd_w b' \<ge> length (rd_buf b') then Panic FillFullBuffer
             else fill_loop read maxConsecutiveEmptyReads b')"

definition Reader_readErr :: "'s Reader \<Rightarrow> error option \<times> 's Reader" where
  "Reader_readErr b = (rd_err b, b\<lparr>rd_err := None\<rparr>)"

text \<open>What \<open>fill\<close> promises whatever the underlying reader does: it ends with an error or with more bytes.\<close>

lemma fill_loop_progress:
  "fill_loop read i b = Ret b' \<Longrightarrow>
   (rd_err b' \<noteq> None \<or> rd_w b < rd_w b') \<and> rd_r b' = rd_r b \<and>
   (rd_w b \<le> length (rd_buf b) \<longrightarrow> length (rd_buf b') = length (rd_buf b)) \<and> rd_spare b' = rd_spare b"
proof (induction i arbitrary: b)
  case (Suc i)
  obtain s p n err where rd: "read (rd_rd b) (drop (rd_w b) (rd_buf b)) = (s, p, n, err)"
    by (cases "read (rd_rd b) (drop (rd_w b) (rd_buf b))") auto
  show ?case
    using Suc.prems Suc.IH [of "b\<lparr>rd_rd := s, rd_buf := copy_at (rd_buf b) (rd_w b) p,
                       rd_w := rd_w b + nat n\<rparr>"]
    by (cases "n = 0") (auto simp: rd Let_def split: if_splits)
qed auto

lemma Reader_slide_Ret:
  assumes "Reader_slide b = Ret b'"
  shows "rd_r b' = 0" and "rd_w b' = rd_w b - rd_r b" and "length (rd_buf b') = length (rd_buf b)"
    and "rd_err b' = rd_err b" and "rd_spare b' = rd_spare b" and "rd_rd b' = rd_rd b"
  using assms by (auto simp: Reader_slide_def outcome_simps split: if_splits)

lemma Reader_fill_progress:
  assumes "Reader_fill read b = Ret b'"
  shows "rd_err b' \<noteq> None \<or> Reader_Buffered b < Reader_Buffered b'"
    and "length (rd_buf b') = length (rd_buf b)"
proof -
  obtain b1 where sl: "Reader_slide b = Ret b1" and room: "rd_w b1 < length (rd_buf b1)"
    and lp: "fill_loop read maxConsecutiveEmptyReads b1 = Ret b'"
    using assms by (auto simp: Reader_fill_def outcome_simps not_le split: if_splits)
  note st = Reader_slide_Ret [OF sl]
  from fill_loop_progress [OF lp] st room
  show "rd_err b' \<noteq> None \<or> Reader_Buffered b < Reader_Buffered b'"
    and "length (rd_buf b') = length (rd_buf b)"
    by (auto simp: Reader_Buffered_def)
qed

text \<open>The loop of \<open>Peek\<close>: fill until \<open>n\<close> bytes are buffered or an error is pending.\<close>

function Peek_loop :: "'s io_read \<Rightarrow> nat \<Rightarrow> 's Reader \<Rightarrow> 's Reader outcome" where
  "Peek_loop read n b =
     (if Reader_Buffered b < n \<and> rd_err b = None
      then obind (Reader_fill read b) (\<lambda>b'. Peek_loop read n b')
      else Ret b)"
  by pat_completeness auto
termination
proof (relation "measure (\<lambda>(read, n, b). if rd_err b = None then Suc (n - Reader_Buffered b) else 0)")
  fix read :: "'s io_read" and n b b'
  assume "Reader_Buffered b < n \<and> rd_err b = None" and "Reader_fill read b = Ret b'"
  then show "((read, n, b'), (read, n, b))
      \<in> measure (\<lambda>(read, n, b). if rd_err b = None then Suc (n - Reader_Buffered b) else 0)"
    using Reader_fill_progress(1) [of read b b'] by auto
qed auto

declare Peek_loop.simps [simp del]

text \<open>What every round of filling keeps, the whole loop keeps.\<close>

lemma Peek_loop_invariant:
  assumes "\<And>b b'. P b \<Longrightarrow> Reader_Buffered b < n \<Longrightarrow> rd_err b = None \<Longrightarrow> Reader_fill read b = Ret b' \<Longrightarrow> P b'"
    and "P b" and "Peek_loop read n b = Ret b'"
  shows "P b'"
  using assms
proof (induction read n b rule: Peek_loop.induct)
  case (1 read n b)
  show ?case
  proof (cases "Reader_Buffered b < n \<and> rd_err b = None")
    case True
    then obtain b1 where "Reader_fill read b = Ret b1" "Peek_loop read n b1 = Ret b'"
      using "1.prems"(3) by (auto simp: Peek_loop.simps [of read n b] outcome_simps)
    then show ?thesis
      using "1.IH" [OF True] "1.prems"(1,2) True by blast
  next
    case False
    then show ?thesis
      using "1.prems"(2,3) by (auto simp: Peek_loop.simps [of read n b])
  qed
qed

definition Reader_Peek ::
    "'s io_read \<Rightarrow> int \<Rightarrow> 's Reader \<Rightarrow> (byte list \<times> error option \<times> 's Reader) outcome" where
  "Reader_Peek read n b =
     (if n < 0 then Ret ([], Some (Bufio ErrNegativeCount), b)
      else if n > int (length (rd_buf b)) then Ret ([], Some (Bufio ErrBufferFull), b)
      else obind (Peek_loop read (nat n) b) (\<lambda>b1.
        let avail = Reader_Buffered b1;
            (m, err, b2) =
              (if avail < nat n
               then (let (e, b') = Reader_readErr b1
                     in (avail, if e = None then Some (Bufio ErrBufferFull) else e, b'))
               else (nat n, None, b1))
        in obind (go_slice (rd_buf b2) (rd_spare b2) (rd_r b2) (rd_r b2 + m))
             (\<lambda>d. Ret (d, err, b2))))"

definition Reader_Pop ::
    "'s io_read \<Rightarrow> int \<Rightarrow> 's Reader \<Rightarrow> (byte list \<times> error option \<times> 's Reader) outcome" where
  "Reader_Pop read n b =
     obind (Reader_Peek read n b) (\<lambda>(d, err, b1).
       if err = None then Ret (d, err, b1\<lparr>rd_r := rd_r b1 + nat n\<rparr>)
       else Ret ([], err, b1))"

text \<open>The loop of \<open>Discard\<close>: \<open>remain\<close> bytes are still to be skipped.\<close>

function Discard_loop ::
    "'s io_read \<Rightarrow> nat \<Rightarrow> nat \<Rightarrow> 's Reader \<Rightarrow> (nat \<times> error option \<times> 's Reader) outcome" where
  "Discard_loop read n remain b =
     obind (if Reader_Buffered b = 0 then Reader_fill read b else Ret b) (\<lambda>b1.
       let skip = min (Reader_Buffered b1) remain;
           b2 = b1\<lparr>rd_r := rd_r b1 + skip\<rparr>;
           remain' = remain - skip
       in if remain' = 0 then Ret (n, None, b2)
          else if rd_err b2 \<noteq> None
               then (let (e, b3) = Reader_readErr b2 in Ret (n - remain', e, b3))
          else Discard_loop read n remain' b2)"
  by pat_completeness auto
termination
proof (relation "measure (\<lambda>(read, n, remain, b). remain)")
  fix read :: "'s io_read" and n remain b b1 skip b2 remain'
  assume fl: "(if Reader_Buffered b = 0 then Reader_fill read b else Ret b) = Ret b1"
    and sk: "skip = min (Reader_Buffered b1) remain" and b2: "b2 = b1\<lparr>rd_r := rd_r b1 + skip\<rparr>"
    and rm: "remain' = remain - skip" and more: "remain' \<noteq> 0" and ne: "\<not> rd_err b2 \<noteq> None"
  have "rd_err b1 = None" using ne b2 by simp
  then have "0 < Reader_Buffered b1"
    using fl Reader_fill_progress(1) [of read b b1] by (auto split: if_splits)
  then show "((read, n, remain', b2), (read, n, remain, b)) \<in> measure (\<lambda>(read, n, remain, b). remain)"
    using sk rm more by auto
qed auto

declare Discard_loop.simps [simp del]

definition Reader_Discard ::
    "'s io_read \<Rightarrow> int \<Rightarrow> 's Reader \<Rightarrow> (nat \<times> error option \<times> 's Reader) outcome" where
  "Reader_Discard read n b =
     (if n < 0 then Ret (0, Some (Bufio ErrNegativeCount), b)
      else if n = 0 then Ret (0, None, b)
      else Discard_loop read (nat n) (nat n) b)"

text \<open>The tail of \<open>Read\<close>: copy as much as we can.\<close>

definition Read_copy ::
    "byte list \<Rightarrow> 's Reader \<Rightarrow> (int \<times> error option \<times> byte list \<times> 's Reader) outcome" where
  "Read_copy p b =
     obind (go_slice (rd_buf b) (rd_spare b) (rd_r b) (rd_w b)) (\<lambda>d.
       let n = min (length p) (length d)
       in Ret (int n, None, copy_at p 0 d, b\<lparr>rd_r := rd_r b + n\<rparr>))"

text \<open>\<open>Read\<close>: the count, the error, the contents of \<open>p\<close> afterwards and the reader.\<close>

definition Reader_Read ::
    "'s io_read \<Rightarrow> byte list \<Rightarrow> 's Reader \<Rightarrow> (int \<times> error option \<times> byte list \<times> 's Reader) outcome" where
  "Reader_Read read p b =
     (if length p = 0 then (let (e, b') = Reader_readErr b in Ret (0, e, p, b'))
      else if rd_r b = rd_w b then
        if rd_err b \<noteq> None then (let (e, b') = Reader_readErr b in Ret (0, e, p, b'))
        else if length p \<ge> length (rd_buf b) then
          (case read (rd_rd b) p of (s, p', n, err) \<Rightarrow>
             if n < 0 then Panic NegativeRead
             else (let (e, b') = Reader_readErr (b\<lparr>rd_rd := s, rd_err := err\<rparr>)
                   in Ret (n, e, copy_at p 0 p', b')))
        else obind (Reader_fill read b) (\<lambda>b1.
               if rd_r b1 = rd_w b1
               then (let (e, b') = Reader_readErr b1 in Ret (0, e, p, b'))
               else Read_copy p b1)
      else Read_copy p b)"

function Reader_ReadByte :: "'s io_read \<Rightarrow> 's Reader \<Rightarrow> (byte \<times> error option \<times> 's Reader) outcome" where
  "Reader_ReadByte read b =
     (if rd_r b = rd_w b then
        if rd_err b \<noteq> None then (let (e, b') = Reader_readErr b in Ret (0, e, b'))
        else obind (Reader_fill read b) (\<lambda>b1. Reader_ReadByte read b1)
      else if rd_r b < length (rd_buf b)
           then Ret (rd_buf b ! rd_r b, None, b\<lparr>rd_r := rd_r b + 1\<rparr>)
           else Panic IndexOutOfRange)"
  by pat_completeness auto
termination
proof (relation "measure (\<lambda>(read, b). if rd_r b = rd_w b \<and> rd_err b = None then 1 else 0)")
  fix read :: "'s io_read" and b b1
  assume "rd_r b = rd_w b" and "\<not> rd_err b \<noteq> None" and "Reader_fill read b = Ret b1"
  then show "((read, b1), (read, b))
      \<in> measure (\<lambda>(read, b). if rd_r b = rd_w b \<and> rd_err b = None then 1 else 0)"
    using Reader_fill_progress(1) [of read b b1] by (auto simp: Reader_Buffered_def)
qed auto

declare Reader_ReadByte.simps [simp del]

function Reader_ReadSlice ::
    "'s io_read \<Rightarrow> byte \<Rightarrow> 's Reader \<Rightarrow> (byte list \<times> error option \<times> 's Reader) outcome" where
  "Reader_ReadSlice read delim b =
     obind (go_slice (rd_buf b) (rd_spare b) (rd_r b) (rd_w b)) (\<lambda>d.
       case IndexByte d delim of
         Some i \<Rightarrow>
           obind (go_slice (rd_buf b) (rd_spare b) (rd_r b) (rd_r b + i + 1)) (\<lambda>line.
             Ret (line, None, b\<lparr>rd_r := rd_r b + (i + 1)\<rparr>))
       | None \<Rightarrow>
           if rd_err b \<noteq> None
           then (let (e, b') = Reader_readErr (b\<lparr>rd_r := rd_w b\<rparr>) in Ret (d, e, b'))
           else if Reader_Buffered b \<ge> length (rd_buf b)
                then Ret (rd_buf b, Some (Bufio ErrBufferFull), b\<lparr>rd_r := rd_w b\<rparr>)
           else obind (Reader_fill read b) (\<lambda>b1. Reader_ReadSlice read delim b1))"
  by pat_completeness auto
termination
proof (relation "measure (\<lambda>(read, delim, b).
    if rd_err b = None then Suc (length (rd_buf b) - Reader_Buffered b) else 0)")
  fix read :: "'s io_read" and delim b b1 and d :: "byte list"
  assume "\<not> rd_err b \<noteq> None" and "\<not> length (rd_buf b) \<le> Reader_Buffered b"
    and "Reader_fill read b = Ret b1"
  then show "((read, delim, b1), (read, delim, b)) \<in> measure (\<lambda>(read, delim, b).
    if rd_err b = None then Suc (length (rd_buf b) - Reader_Buffered b) else 0)"
    using Reader_fill_progress [of read b b1] by auto
qed auto

declare Reader_ReadSlice.simps [simp del]

text \<open>\<open>ReadLine\<close>: the line, \<open>isPrefix\<close>, the error. The carriage return is 13, the newline 10.\<close>

definition Reader_ReadLine ::
    "'s io_read \<Rightarrow> 's Reader \<Rightarrow> (byte list \<times> bool \<times> error option \<times> 's Reader) outcome" where
  "Reader_ReadLine read b =
     obind (Reader_ReadSlice read 10 b) (\<lambda>(line, err, b1).
       if err = Some (Bufio ErrBufferFull) then
         if length line > 0 \<and> line ! (length line - 1) = 13 then
           if rd_r b1 = 0 then Panic RewindPastStart
           else Ret (take (length line - 1) line, True, None, b1\<lparr>rd_r := rd_r b1 - 1\<rparr>)
         else Ret (line, True, None, b1)
       else if length line = 0 then Ret ([], False, err, b1)
       else if line ! (length line - 1) = 10 then
         let dr = (if length line > 1 \<and> line ! (length line - 2) = 13 then 2 else 1)
         in Ret (take (length line - dr) line, False, None, b1)
       else Ret (line, False, None, b1))"

section \<open>The contract of the underlying reader\<close>

text \<open>
  \<open>io.Reader\<close>'s documentation as a locale: the count lies between 0 and the length of the slice,
  and the bytes delivered are the next bytes of the stream, \<open>future s\<close> being those still to come
  in state \<open>s\<close>. \<open>sok\<close> is the underlying reader's own invariant.
\<close>

locale io_reader =
  fixes read :: "'s io_read" and future :: "'s \<Rightarrow> byte list" and sok :: "'s \<Rightarrow> bool"
  assumes read_ok: "\<lbrakk>sok s; read s p = (s', p', n, e)\<rbrakk> \<Longrightarrow> sok s'"
    and read_length: "\<lbrakk>sok s; read s p = (s', p', n, e)\<rbrakk> \<Longrightarrow> length p' = length p"
    and read_count: "\<lbrakk>sok s; read s p = (s', p', n, e)\<rbrakk> \<Longrightarrow> 0 \<le> n \<and> n \<le> int (length p)"
    and read_stream: "\<lbrakk>sok s; read s p = (s', p', n, e)\<rbrakk> \<Longrightarrow> future s = take (nat n) p' @ future s'"

text \<open>
  A live reader delivers at least one byte as long as the stream has one, and reports an error
  only at its end: a blocking connection.
\<close>

locale live_reader = io_reader +
  assumes read_live: "\<lbrakk>sok s; read s p = (s', p', n, e); p \<noteq> []; future s \<noteq> []\<rbrakk> \<Longrightarrow> 0 < n"
    and read_error: "\<lbrakk>sok s; read s p = (s', p', n, Some err)\<rbrakk> \<Longrightarrow> future s' = []"

definition Reader_ok :: "('s \<Rightarrow> bool) \<Rightarrow> 's Reader \<Rightarrow> bool" where
  "Reader_ok sok b \<longleftrightarrow> rd_r b \<le> rd_w b \<and> rd_w b \<le> length (rd_buf b) \<and> sok (rd_rd b)"

text \<open>What the client has not read yet: the buffered bytes, then the rest of the stream.\<close>

definition Reader_unread :: "('s \<Rightarrow> byte list) \<Rightarrow> 's Reader \<Rightarrow> byte list" where
  "Reader_unread future b = seg (rd_buf b) (rd_r b) (rd_w b) @ future (rd_rd b)"

text \<open>A pending error means the stream has ended.\<close>

definition Reader_drained :: "('s \<Rightarrow> byte list) \<Rightarrow> 's Reader \<Rightarrow> bool" where
  "Reader_drained future b \<longleftrightarrow> (rd_err b \<noteq> None \<longrightarrow> future (rd_rd b) = [])"

text \<open>
  The reader seen by a client that knows the stream: a buffer of \<open>N\<close> bytes, in front of the byte
  sequence \<open>str\<close>.
\<close>

definition Reader_at :: "('s \<Rightarrow> byte list) \<Rightarrow> ('s \<Rightarrow> bool) \<Rightarrow> nat \<Rightarrow> byte list \<Rightarrow> 's Reader \<Rightarrow> bool" where
  "Reader_at future sok N str b \<longleftrightarrow> Reader_ok sok b \<and> Reader_drained future b \<and>
     length (rd_buf b) = N \<and> Reader_unread future b = str"

text \<open>What reading more into the buffer may change, seen by the client: nothing but the amount buffered.\<close>

definition Reader_same :: "('s \<Rightarrow> byte list) \<Rightarrow> ('s \<Rightarrow> bool) \<Rightarrow> 's Reader \<Rightarrow> 's Reader \<Rightarrow> bool" where
  "Reader_same future sok b b' \<longleftrightarrow> Reader_ok sok b' \<and>
     Reader_unread future b' = Reader_unread future b \<and>
     length (rd_buf b') = length (rd_buf b) \<and> rd_spare b' = rd_spare b"

lemma Reader_same_refl: "Reader_ok sok b \<Longrightarrow> Reader_same future sok b b"
  by (simp add: Reader_same_def)

lemma Reader_same_trans:
  "Reader_same future sok b b1 \<Longrightarrow> Reader_same future sok b1 b2 \<Longrightarrow> Reader_same future sok b b2"
  by (simp add: Reader_same_def)

lemma Reader_same_err [simp]:
  "Reader_same future sok b (b'\<lparr>rd_err := e\<rparr>) = Reader_same future sok b b'"
  by (simp add: Reader_same_def Reader_ok_def Reader_unread_def)

lemma Reader_same_ok: "Reader_same future sok b b' \<Longrightarrow> Reader_ok sok b'"
  by (simp add: Reader_same_def)

lemma length_buffered:
  "Reader_ok sok b \<Longrightarrow> length (seg (rd_buf b) (rd_r b) (rd_w b)) = Reader_Buffered b"
  by (auto simp: Reader_ok_def Reader_Buffered_def min_def)

lemma Reader_unread_length:
  "Reader_ok sok b \<Longrightarrow> length (Reader_unread future b) = Reader_Buffered b + length (future (rd_rd b))"
  by (simp add: Reader_unread_def length_buffered del: length_seg)

text \<open>\<open>*Reader\<close> as an \<open>io.Reader\<close> value: its \<open>Read\<close> method in the form of the parameter.\<close>

definition Reader_io_read :: "'s io_read \<Rightarrow> 's Reader io_read" where
  "Reader_io_read read b p =
     (case Reader_Read read p b of Ret (n, e, p', b') \<Rightarrow> (b', p', n, e) | Panic _ \<Rightarrow> (b, p, -1, None))"

context io_reader
begin

text \<open>One call of the underlying reader, its result stored in the buffer.\<close>

lemma store_same:
  assumes ok: "Reader_ok sok b"
    and rd: "read (rd_rd b) (drop (rd_w b) (rd_buf b)) = (s, p, n, e)"
  shows "Reader_same future sok b
    (b\<lparr>rd_rd := s, rd_buf := copy_at (rd_buf b) (rd_w b) p, rd_w := rd_w b + nat n\<rparr>)"
proof -
  have sok: "sok (rd_rd b)" and le: "rd_r b \<le> rd_w b" "rd_w b \<le> length (rd_buf b)"
    using ok by (auto simp: Reader_ok_def)
  have ln: "length p = length (rd_buf b) - rd_w b"
    using read_length [OF sok rd] by simp
  have cn: "nat n \<le> length (rd_buf b) - rd_w b"
    using read_count [OF sok rd] by (simp add: nat_le_iff)
  have "seg (copy_at (rd_buf b) (rd_w b) p) (rd_r b) (rd_w b + nat n)
      = seg (rd_buf b) (rd_r b) (rd_w b) @ take (nat n) p"
    using le ln cn by (intro seg_copy_at) auto
  then show ?thesis
    using read_ok [OF sok rd] read_stream [OF sok rd] le cn
    by (simp add: Reader_same_def Reader_ok_def Reader_unread_def)
qed

lemma fill_loop_same:
  assumes "Reader_ok sok b"
  shows "\<exists>b'. fill_loop read i b = Ret b' \<and> Reader_same future sok b b'"
  using assms
proof (induction i arbitrary: b)
  case 0
  then show ?case by (simp add: Reader_same_refl)
next
  case (Suc i)
  obtain s p n e where rd: "read (rd_rd b) (drop (rd_w b) (rd_buf b)) = (s, p, n, e)"
    by (cases "read (rd_rd b) (drop (rd_w b) (rd_buf b))") auto
  let ?b = "b\<lparr>rd_rd := s, rd_buf := copy_at (rd_buf b) (rd_w b) p, rd_w := rd_w b + nat n\<rparr>"
  have st: "Reader_same future sok b ?b" by (rule store_same [OF Suc.prems rd])
  have n0: "\<not> n < 0"
    using Suc.prems read_count [OF _ rd] by (auto simp: Reader_ok_def)
  obtain b' where "fill_loop read i ?b = Ret b'" and "Reader_same future sok ?b b'"
    using Suc.IH [OF Reader_same_ok [OF st]] by blast
  then show ?case
    using st n0 by (auto simp: rd Let_def intro: Reader_same_trans)
qed

lemma slide_same:
  assumes ok: "Reader_ok sok b"
  shows "\<exists>b'. Reader_slide b = Ret b' \<and> Reader_same future sok b b' \<and>
    Reader_Buffered b' = Reader_Buffered b \<and> rd_w b' = Reader_Buffered b \<and> rd_err b' = rd_err b \<and>
    rd_rd b' = rd_rd b"
proof (cases "rd_r b = 0")
  case True
  then show ?thesis
    using ok by (auto simp: Reader_slide_def Reader_same_refl Reader_Buffered_def)
next
  case False
  let ?d = "seg (rd_buf b) (rd_r b) (rd_w b)"
  have "take (rd_w b - rd_r b) (copy_at (rd_buf b) 0 ?d) = ?d"
    using ok take_copy_at_end [of 0 "rd_buf b" "rd_w b - rd_r b" ?d] by (auto simp: Reader_ok_def)
  then show ?thesis
    using False ok
    by (auto simp: Reader_slide_def Reader_same_def Reader_ok_def Reader_unread_def Reader_Buffered_def)
qed

lemma fill_same:
  assumes ok: "Reader_ok sok b" and room: "Reader_Buffered b < length (rd_buf b)"
  shows "\<exists>b'. Reader_fill read b = Ret b' \<and> Reader_same future sok b b'"
proof -
  obtain b1 where b1: "Reader_slide b = Ret b1" "Reader_same future sok b b1" "rd_w b1 = Reader_Buffered b"
    using slide_same [OF ok] by blast
  obtain b2 where "fill_loop read maxConsecutiveEmptyReads b1 = Ret b2" "Reader_same future sok b1 b2"
    using fill_loop_same [OF Reader_same_ok [OF b1(2)]] by blast
  moreover have "rd_w b1 < length (rd_buf b1)"
    using b1 room by (simp add: Reader_same_def)
  ultimately show ?thesis
    using b1 by (auto simp: Reader_fill_def intro: Reader_same_trans)
qed

lemma Peek_loop_same:
  assumes "Reader_ok sok b" and "n \<le> length (rd_buf b)"
  shows "\<exists>b'. Peek_loop read n b = Ret b' \<and> Reader_same future sok b b' \<and>
    (n \<le> Reader_Buffered b' \<or> rd_err b' \<noteq> None)"
  using assms
proof (induction "n - Reader_Buffered b" arbitrary: b rule: less_induct)
  case less
  show ?case
  proof (cases "Reader_Buffered b < n \<and> rd_err b = None")
    case False
    then show ?thesis
      using less.prems by (auto simp: Peek_loop.simps [of read n b] Reader_same_refl)
  next
    case True
    then obtain b1 where fl: "Reader_fill read b = Ret b1" and s1: "Reader_same future sok b b1"
      using fill_same [of b] less.prems by fastforce
    have un: "Peek_loop read n b = Peek_loop read n b1"
      using True fl by (simp add: Peek_loop.simps [of read n b])
    show ?thesis
    proof (cases "rd_err b1 = None")
      case True
      then have "n - Reader_Buffered b1 < n - Reader_Buffered b"
        using Reader_fill_progress(1) [OF fl] \<open>Reader_Buffered b < n \<and> _\<close> by auto
      then show ?thesis
        using less.hyps [of b1] s1 less.prems un
        by (auto simp: Reader_same_def)
    next
      case False
      then have "Peek_loop read n b1 = Ret b1" by (auto simp: Peek_loop.simps [of read n b1])
      then show ?thesis using un s1 False by auto
    qed
  qed
qed

text \<open>
  \<open>Peek\<close> on an admissible count: either the next \<open>n\<close> unread bytes and no error, or what there is
  and an error. The stream is unchanged in both cases.
\<close>

lemma Peek_spec:
  assumes ok: "Reader_ok sok b" and n: "0 \<le> n" "n \<le> int (length (rd_buf b))"
  shows "\<exists>d e b'. Reader_Peek read n b = Ret (d, e, b') \<and> Reader_same future sok b b' \<and>
    (if e = None then nat n \<le> Reader_Buffered b' \<and> d = seg (rd_buf b') (rd_r b') (rd_r b' + nat n)
     else Reader_Buffered b' < nat n \<and> d = seg (rd_buf b') (rd_r b') (rd_w b') \<and> rd_err b' = None)"
proof -
  obtain b1 where lp: "Peek_loop read (nat n) b = Ret b1" and s1: "Reader_same future sok b b1"
    using Peek_loop_same [OF ok, of "nat n"] n by (auto simp: nat_le_iff)
  have ok1: "rd_r b1 \<le> rd_w b1" "rd_w b1 \<le> length (rd_buf b1)"
    using s1 by (auto simp: Reader_same_def Reader_ok_def)
  show ?thesis
  proof (cases "Reader_Buffered b1 < nat n")
    case True
    then show ?thesis
      using lp s1 ok1 n by (auto simp: Reader_Peek_def Reader_readErr_def Reader_Buffered_def)
  next
    case False
    then show ?thesis
      using False lp s1 ok1 n
      by (auto simp: Reader_Peek_def Reader_Buffered_def Reader_same_def)
  qed
qed

text \<open>\<open>Pop\<close> takes exactly the bytes it returns off the stream, and none when it fails.\<close>

lemma Pop_spec:
  assumes ok: "Reader_ok sok b" and n: "0 \<le> n" "n \<le> int (length (rd_buf b))"
  shows "\<exists>d e b'. Reader_Pop read n b = Ret (d, e, b') \<and> Reader_ok sok b' \<and>
    Reader_unread future b = d @ Reader_unread future b' \<and>
    length d = (if e = None then nat n else 0) \<and>
    length (rd_buf b') = length (rd_buf b) \<and> rd_spare b' = rd_spare b \<and>
    (e = None \<longrightarrow> nat n \<le> rd_r b' \<and> seg (rd_buf b') (rd_r b' - nat n) (rd_r b') = d)"
proof -
  obtain d e b1 where pk: "Reader_Peek read n b = Ret (d, e, b1)" and s1: "Reader_same future sok b b1"
    and sp: "if e = None then nat n \<le> Reader_Buffered b1 \<and> d = seg (rd_buf b1) (rd_r b1) (rd_r b1 + nat n)
     else Reader_Buffered b1 < nat n \<and> d = seg (rd_buf b1) (rd_r b1) (rd_w b1) \<and> rd_err b1 = None"
    using Peek_spec [OF assms] by blast
  have ok1: "rd_r b1 \<le> rd_w b1" "rd_w b1 \<le> length (rd_buf b1)" "sok (rd_rd b1)"
    using s1 by (auto simp: Reader_same_def Reader_ok_def)
  show ?thesis
  proof (cases "e = None")
    case True
    let ?b = "b1\<lparr>rd_r := rd_r b1 + nat n\<rparr>"
    have le: "rd_r b1 + nat n \<le> rd_w b1" and d: "d = seg (rd_buf b1) (rd_r b1) (rd_r b1 + nat n)"
      using True sp ok1 by (auto simp: Reader_Buffered_def)
    have "Reader_unread future b1 = d @ Reader_unread future ?b"
      using le by (simp add: d Reader_unread_def seg_append_seg)
    moreover have "Reader_Pop read n b = Ret (d, None, ?b)"
      using True pk by (simp add: Reader_Pop_def)
    moreover have "length d = nat n" and "Reader_ok sok ?b"
      using le ok1 by (auto simp: d Reader_ok_def)
    ultimately show ?thesis
      using s1 d by (intro exI [of _ d] exI [of _ None] exI [of _ ?b]) (simp add: Reader_same_def)
  next
    case False
    then show ?thesis
      using pk s1 by (auto simp: Reader_Pop_def Reader_same_def)
  qed
qed

lemma Pop_bad_count:
  "n < 0 \<Longrightarrow> Reader_Pop read n b = Ret ([], Some (Bufio ErrNegativeCount), b)"
  "int (length (rd_buf b)) < n \<Longrightarrow> Reader_Pop read n b = Ret ([], Some (Bufio ErrBufferFull), b)"
  by (auto simp: Reader_Pop_def Reader_Peek_def)

lemma ReadByte_spec:
  assumes ok: "Reader_ok sok b" and len: "0 < length (rd_buf b)"
  shows "\<exists>c e b'. Reader_ReadByte read b = Ret (c, e, b') \<and> Reader_ok sok b' \<and>
    Reader_unread future b = (if e = None then [c] else []) @ Reader_unread future b' \<and>
    length (rd_buf b') = length (rd_buf b) \<and> rd_spare b' = rd_spare b"
proof -
  have have_byte: "\<exists>c e b'. Reader_ReadByte read b1 = Ret (c, e, b') \<and> Reader_ok sok b' \<and>
      Reader_unread future b1 = (if e = None then [c] else []) @ Reader_unread future b' \<and>
      length (rd_buf b') = length (rd_buf b1) \<and> rd_spare b' = rd_spare b1"
    if ok1: "Reader_ok sok b1" and no_fill: "rd_r b1 \<noteq> rd_w b1 \<or> rd_err b1 \<noteq> None" for b1
    using ok1 no_fill
    by (auto simp: Reader_ReadByte.simps [of read b1] Reader_readErr_def Reader_ok_def
        Reader_unread_def seg_nth)
  show ?thesis
  proof (cases "rd_r b = rd_w b \<and> rd_err b = None")
    case False
    then show ?thesis using have_byte [OF ok] by blast
  next
    case True
    then obtain b1 where fl: "Reader_fill read b = Ret b1" and s1: "Reader_same future sok b b1"
      using fill_same [OF ok] len by (auto simp: Reader_Buffered_def)
    have "rd_r b1 \<noteq> rd_w b1 \<or> rd_err b1 \<noteq> None"
      using Reader_fill_progress(1) [OF fl] by (auto simp: Reader_Buffered_def)
    moreover have "Reader_ReadByte read b = Reader_ReadByte read b1"
      using True fl by (simp add: Reader_ReadByte.simps [of read b])
    ultimately show ?thesis
      using have_byte [OF Reader_same_ok [OF s1]] s1 by (auto simp: Reader_same_def)
  qed
qed

text \<open>Skipping \<open>k\<close> buffered bytes takes \<open>k\<close> bytes off the stream.\<close>

lemma skip_unread:
  assumes "Reader_ok sok b" and "k \<le> Reader_Buffered b"
  shows "Reader_unread future (b\<lparr>rd_r := rd_r b + k\<rparr>) = drop k (Reader_unread future b)"
    and "Reader_ok sok (b\<lparr>rd_r := rd_r b + k\<rparr>)"
  using assms by (auto simp: Reader_unread_def Reader_ok_def Reader_Buffered_def drop_seg min_def)

lemma Read_copy_spec:
  assumes ok: "Reader_ok sok b"
  shows "\<exists>n p' b'. Read_copy p b = Ret (int n, None, p', b') \<and> n = min (length p) (Reader_Buffered b) \<and>
    length p' = length p \<and> Reader_ok sok b' \<and>
    Reader_unread future b = take n p' @ Reader_unread future b'"
proof -
  let ?d = "seg (rd_buf b) (rd_r b) (rd_w b)" and ?n = "min (length p) (Reader_Buffered b)"
  let ?b = "b\<lparr>rd_r := rd_r b + ?n\<rparr>"
  have ld: "length ?d = Reader_Buffered b"
    by (rule length_buffered [OF ok])
  have "Read_copy p b = Ret (int ?n, None, copy_at p 0 ?d, ?b)"
    using ok ld by (simp add: Read_copy_def Reader_ok_def Let_def)
  moreover have "take ?n (copy_at p 0 ?d) = take ?n (Reader_unread future b)"
    using ld by (simp add: copy_at_def Reader_unread_def min_def)
  moreover have "Reader_unread future ?b = drop ?n (Reader_unread future b)" and "Reader_ok sok ?b"
    using skip_unread [OF ok, of ?n] by auto
  ultimately show ?thesis by (intro exI [of _ ?n] exI [of _ "copy_at p 0 ?d"] exI [of _ ?b]) simp
qed

text \<open>\<open>Read\<close> itself honours the contract it relies on.\<close>

lemma Read_spec:
  assumes ok: "Reader_ok sok b"
  shows "\<exists>n e p' b'. Reader_Read read p b = Ret (int n, e, p', b') \<and> n \<le> length p \<and>
    length p' = length p \<and> Reader_ok sok b' \<and>
    Reader_unread future b = take n p' @ Reader_unread future b'"
proof -
  consider (nil) "p = []" | (buffered) "p \<noteq> []" "rd_r b \<noteq> rd_w b"
    | (pending) "p \<noteq> []" "rd_r b = rd_w b" "rd_err b \<noteq> None"
    | (direct) "p \<noteq> []" "rd_r b = rd_w b" "rd_err b = None" "length (rd_buf b) \<le> length p"
    | (refill) "p \<noteq> []" "rd_r b = rd_w b" "rd_err b = None" "length p < length (rd_buf b)"
    by force
  then show ?thesis
  proof cases
    case nil
    then show ?thesis using ok
      by (auto simp: Reader_Read_def Reader_readErr_def Reader_ok_def Reader_unread_def)
  next
    case buffered
    then show ?thesis using Read_copy_spec [OF ok, of p] by (fastforce simp: Reader_Read_def)
  next
    case pending
    then show ?thesis using ok
      by (auto simp: Reader_Read_def Reader_readErr_def Reader_ok_def Reader_unread_def intro: exI [of _ "0::nat"])
  next
    case direct
    have so: "sok (rd_rd b)" using ok by (simp add: Reader_ok_def)
    obtain s p' n e where rd: "read (rd_rd b) p = (s, p', n, e)"
      by (cases "read (rd_rd b) p") auto
    have "copy_at p 0 p' = p'"
      using read_length [OF so rd] by (simp add: copy_at_def)
    then show ?thesis
      using direct ok rd read_count [OF so rd] read_length [OF so rd] read_ok [OF so rd]
        read_stream [OF so rd]
      by (auto simp: Reader_Read_def Reader_readErr_def Reader_ok_def Reader_unread_def
          intro!: exI [of _ "nat n"])
  next
    case refill
    then obtain b1 where fl: "Reader_fill read b = Ret b1" and s1: "Reader_same future sok b b1"
      using fill_same [OF ok] by (fastforce simp: Reader_Buffered_def)
    have un: "Reader_unread future b = Reader_unread future b1"
      using s1 by (simp add: Reader_same_def)
    show ?thesis
    proof (cases "rd_r b1 = rd_w b1")
      case True
      then show ?thesis
        using refill fl Reader_same_ok [OF s1] un
        by (auto simp: Reader_Read_def Reader_readErr_def Reader_ok_def Reader_unread_def
            intro: exI [of _ "0::nat"])
    next
      case False
      then show ?thesis
        using refill fl un Read_copy_spec [OF Reader_same_ok [OF s1], of p]
        by (fastforce simp: Reader_Read_def)
    qed
  qed
qed

lemma fill_if_empty:
  assumes "Reader_ok sok b" and "0 < length (rd_buf b)"
  shows "\<exists>b1. (if Reader_Buffered b = 0 then Reader_fill read b else Ret b) = Ret b1 \<and>
    Reader_same future sok b b1 \<and> (rd_err b1 = None \<longrightarrow> 0 < Reader_Buffered b1)"
proof (cases "Reader_Buffered b = 0")
  case True
  then obtain b1 where "Reader_fill read b = Ret b1" "Reader_same future sok b b1"
    using fill_same [of b] assms by auto
  then show ?thesis using True Reader_fill_progress(1) [of read b b1] by auto
next
  case False
  then show ?thesis using assms Reader_same_refl by auto
qed

lemma Discard_loop_spec:
  assumes "Reader_ok sok b" and "0 < length (rd_buf b)" and "0 < remain" and "remain \<le> n"
  shows "\<exists>k e b'. Discard_loop read n remain b = Ret (n - (remain - k), e, b') \<and> k \<le> remain \<and>
    k \<le> length (Reader_unread future b) \<and> Reader_ok sok b' \<and>
    Reader_unread future b' = drop k (Reader_unread future b) \<and> (e = None \<longleftrightarrow> k = remain)"
  using assms
proof (induction remain arbitrary: b rule: less_induct)
  case (less remain)
  obtain b1 where fl: "(if Reader_Buffered b = 0 then Reader_fill read b else Ret b) = Ret b1"
    and s1: "Reader_same future sok b b1" and pr: "rd_err b1 = None \<longrightarrow> 0 < Reader_Buffered b1"
    using fill_if_empty [OF less.prems(1,2)] by (elim exE conjE)
  let ?k = "min (Reader_Buffered b1) remain"
  let ?b2 = "b1\<lparr>rd_r := rd_r b1 + ?k\<rparr>"
  have u1: "Reader_unread future b1 = Reader_unread future b"
    using s1 by (simp add: Reader_same_def)
  have b2: "Reader_ok sok ?b2" "Reader_unread future ?b2 = drop ?k (Reader_unread future b)"
    using skip_unread [OF Reader_same_ok [OF s1] min.cobounded1, of remain] u1 by simp_all
  have kl: "?k \<le> length (Reader_unread future b)"
    using u1 Reader_unread_length [OF Reader_same_ok [OF s1], of future] by simp
  note un = Discard_loop.simps [of read n remain b]
  consider (all) "remain - ?k = 0" | (error) "remain - ?k \<noteq> 0" "rd_err b1 \<noteq> None"
    | (more) "remain - ?k \<noteq> 0" "rd_err b1 = None" by blast
  then show ?case
  proof cases
    case all
    then show ?thesis
      using un fl b2 kl less.prems by (auto simp: Let_def intro!: exI [of _ remain])
  next
    case error
    have "Discard_loop read n remain b = Ret (n - (remain - ?k), rd_err b1, ?b2\<lparr>rd_err := None\<rparr>)"
      using error by (simp add: un fl Let_def Reader_readErr_def)
    then show ?thesis
      using error b2 kl
      by (intro exI [of _ ?k] exI [of _ "rd_err b1"] exI [of _ "?b2\<lparr>rd_err := None\<rparr>"])
         (auto simp: Reader_ok_def Reader_unread_def)
  next
    case more
    have dl: "Discard_loop read n remain b = Discard_loop read n (remain - ?k) ?b2"
      using more by (simp add: un fl Let_def)
    have lt: "remain - ?k < remain" and pos: "0 < remain - ?k" and le: "remain - ?k \<le> n"
      using more pr less.prems(4) by auto
    have lb: "0 < length (rd_buf ?b2)"
      using s1 less.prems(2) by (simp add: Reader_same_def)
    obtain k e b' where IH: "Discard_loop read n (remain - ?k) ?b2 = Ret (n - (remain - ?k - k), e, b')"
      "k \<le> remain - ?k" "k \<le> length (Reader_unread future ?b2)" "Reader_ok sok b'"
      "Reader_unread future b' = drop k (Reader_unread future ?b2)" "e = None \<longleftrightarrow> k = remain - ?k"
      using less.IH [OF lt b2(1) lb pos le] by (elim exE conjE)
    show ?thesis
      using IH dl b2(2) kl
      by (intro exI [of _ "?k + k"] exI [of _ e] exI [of _ b']) (auto simp: add.commute)
  qed
qed

lemma ReadSlice_spec:
  assumes "Reader_ok sok b" and "0 < length (rd_buf b)"
  shows "\<exists>line e b'. Reader_ReadSlice read delim b = Ret (line, e, b') \<and> Reader_ok sok b' \<and>
    Reader_unread future b = line @ Reader_unread future b' \<and>
    length (rd_buf b') = length (rd_buf b) \<and> rd_spare b' = rd_spare b \<and>
    length line \<le> rd_r b' \<and> seg (rd_buf b') (rd_r b' - length line) (rd_r b') = line \<and>
    (if e = None then \<exists>l. line = l @ [delim] \<and> delim \<notin> set l else delim \<notin> set line)"
  using assms
proof (induction "if rd_err b = None then Suc (length (rd_buf b) - Reader_Buffered b) else 0"
    arbitrary: b rule: less_induct)
  case less
  let ?d = "seg (rd_buf b) (rd_r b) (rd_w b)"
  have ok: "rd_r b \<le> rd_w b" "rd_w b \<le> length (rd_buf b)" "sok (rd_rd b)"
    using less.prems by (auto simp: Reader_ok_def)
  note un = Reader_ReadSlice.simps [of read delim b]
  show ?case
  proof (cases "IndexByte ?d delim")
    case (Some i)
    note i = IndexByte_Some [OF Some]
    let ?line = "seg (rd_buf b) (rd_r b) (rd_r b + (i + 1))" and ?b = "b\<lparr>rd_r := rd_r b + (i + 1)\<rparr>"
    have le: "rd_r b + (i + 1) \<le> rd_w b"
      using i ok by auto
    have line: "?line = take (i + 1) ?d"
      using le by (simp add: take_seg min_def)
    also have "\<dots> = take i ?d @ [delim]"
      using i by (simp add: take_Suc_conv_app_nth del: length_seg)
    finally have end_delim: "?line = take i ?d @ [delim]" .
    have rs: "Reader_ReadSlice read delim b = Ret (?line, None, ?b)"
      using ok le by (simp add: un Some)
    have "Reader_unread future b = ?line @ Reader_unread future ?b"
      using le by (simp add: Reader_unread_def seg_append_seg)
    moreover have "Reader_ok sok ?b" and "length ?line = i + 1"
      using le ok by (auto simp: Reader_ok_def)
    moreover have "\<exists>l. ?line = l @ [delim] \<and> delim \<notin> set l"
      using end_delim i by blast
    ultimately show ?thesis
      by (intro exI [of _ ?line] exI [of _ None] exI [of _ ?b]) (simp add: rs)
  next
    case None
    then have nin: "delim \<notin> set ?d" by (simp add: IndexByte_None)
    consider (pending) "rd_err b \<noteq> None" | (full) "rd_err b = None" "length (rd_buf b) \<le> Reader_Buffered b"
      | (fill) "rd_err b = None" "Reader_Buffered b < length (rd_buf b)" by force
    then show ?thesis
    proof cases
      case pending
      then show ?thesis
        using ok nin
        by (auto simp: un None Reader_readErr_def Reader_ok_def Reader_unread_def)
    next
      case full
      then have rw: "rd_r b = 0" "rd_w b = length (rd_buf b)"
        using ok less.prems(2) by (auto simp: Reader_Buffered_def)
      let ?b = "b\<lparr>rd_r := rd_w b\<rparr>"
      have "Reader_ReadSlice read delim b = Ret (rd_buf b, Some (Bufio ErrBufferFull), ?b)"
        using full ok None by (simp add: un)
      then show ?thesis
        using ok nin rw
        by (intro exI [of _ "rd_buf b"] exI [of _ "Some (Bufio ErrBufferFull)"] exI [of _ ?b])
           (simp add: Reader_ok_def Reader_unread_def)
    next
      case fill
      obtain b1 where fl: "Reader_fill read b = Ret b1" and s1: "Reader_same future sok b b1"
        using fill_same [OF less.prems(1)] fill by auto
      have rs: "Reader_ReadSlice read delim b = Reader_ReadSlice read delim b1"
        using ok fill fl by (simp add: un None)
      have dec: "(if rd_err b1 = None then Suc (length (rd_buf b1) - Reader_Buffered b1) else 0)
          < (if rd_err b = None then Suc (length (rd_buf b) - Reader_Buffered b) else 0)"
        using Reader_fill_progress [OF fl] fill by auto
      have lb: "0 < length (rd_buf b1)"
        using s1 less.prems(2) by (simp add: Reader_same_def)
      from less.hyps [OF dec Reader_same_ok [OF s1] lb]
      show ?thesis using s1 by (simp only: rs Reader_same_def)
    qed
  qed
qed

text \<open>Putting the last byte of a returned line back onto the stream.\<close>

lemma unread_last:
  assumes ok: "Reader_ok sok b" and sg: "seg (rd_buf b) (rd_r b - length line) (rd_r b) = line"
    and len: "length line \<le> rd_r b" and ne: "line \<noteq> []"
  shows "Reader_unread future (b\<lparr>rd_r := rd_r b - 1\<rparr>) = last line # Reader_unread future b"
    and "Reader_ok sok (b\<lparr>rd_r := rd_r b - 1\<rparr>)"
proof -
  have "0 < rd_r b" using len ne by (cases line) auto
  then have r: "0 < rd_r b" "rd_r b \<le> length (rd_buf b)" "rd_r b \<le> rd_w b"
    and "rd_w b \<le> length (rd_buf b)"
    using ok len by (auto simp: Reader_ok_def)
  have "last line = rd_buf b ! (rd_r b - 1)"
  proof -
    have "last line = line ! (length line - 1)" using ne by (rule last_conv_nth)
    also have "\<dots> = drop (rd_r b - length line) (rd_buf b) ! (length line - 1)"
      using sg ne len by (metis diff_diff_cancel diff_less length_greater_0_conv nth_take seg_def zero_less_one)
    also have "\<dots> = rd_buf b ! (rd_r b - 1)"
      using r len ne by (simp add: Suc_leI)
    finally show ?thesis .
  qed
  then show "Reader_unread future (b\<lparr>rd_r := rd_r b - 1\<rparr>) = last line # Reader_unread future b"
    using r \<open>rd_w b \<le> length (rd_buf b)\<close> seg_nth [of "rd_r b - 1" "rd_w b" "rd_buf b"]
    by (simp add: Reader_unread_def)
  show "Reader_ok sok (b\<lparr>rd_r := rd_r b - 1\<rparr>)"
    using ok by (auto simp: Reader_ok_def)
qed

text \<open>
  \<open>ReadLine\<close> never panics; what it takes off the stream is the line it returns and at most one
  line end, and the line holds no newline.
\<close>

lemma ReadLine_spec:
  assumes ok: "Reader_ok sok b" and len: "0 < length (rd_buf b)"
  shows "\<exists>line pre e b' eol. Reader_ReadLine read b = Ret (line, pre, e, b') \<and> Reader_ok sok b' \<and>
    length (rd_buf b') = length (rd_buf b) \<and>
    Reader_unread future b = line @ eol @ Reader_unread future b' \<and>
    eol \<in> {[], [10], [13, 10]} \<and> 10 \<notin> set line \<and> (e \<noteq> None \<or> pre \<longrightarrow> eol = []) \<and>
    (e \<noteq> None \<longrightarrow> line = [] \<and> \<not> pre)"
proof -
  obtain line e b1 where rs: "Reader_ReadSlice read 10 b = Ret (line, e, b1)" and ok1: "Reader_ok sok b1"
    and un: "Reader_unread future b = line @ Reader_unread future b1"
    and lb: "length (rd_buf b1) = length (rd_buf b)" and ll: "length line \<le> rd_r b1"
    and sg: "seg (rd_buf b1) (rd_r b1 - length line) (rd_r b1) = line"
    and nl: "if e = None then \<exists>l. line = l @ [10] \<and> 10 \<notin> set l else 10 \<notin> set line"
    using ReadSlice_spec [OF ok len, of 10] by (elim exE conjE)
  note rl = Reader_ReadLine_def [of read b, unfolded rs obind.simps prod.case]
  have lst: "line \<noteq> [] \<Longrightarrow> line ! (length line - Suc 0) = last line"
    by (simp add: last_conv_nth)
  have result: ?thesis
    if "Reader_ReadLine read b = Ret (l, pre, e', b')" and "Reader_ok sok b'"
      and "length (rd_buf b') = length (rd_buf b)"
      and "Reader_unread future b = l @ eol @ Reader_unread future b'"
      and "eol \<in> {[], [10], [13, 10]}" and "10 \<notin> set l"
      and "e' \<noteq> None \<or> pre \<longrightarrow> eol = []" and "e' \<noteq> None \<longrightarrow> l = [] \<and> \<not> pre" for l pre e' b' eol
    using that by blast
  consider (full_cr) "e = Some (Bufio ErrBufferFull)" "line \<noteq> []" "last line = 13"
    | (full) "e = Some (Bufio ErrBufferFull)" "line = [] \<or> last line \<noteq> 13"
    | (empty) "e \<noteq> Some (Bufio ErrBufferFull)" "line = []"
    | (newline) "e = None" "line \<noteq> []"
    | (partial) "e \<noteq> Some (Bufio ErrBufferFull)" "line \<noteq> []" "e \<noteq> None"
    by blast
  then show ?thesis
  proof cases
    case full_cr
    let ?b = "b1\<lparr>rd_r := rd_r b1 - 1\<rparr>"
    have "0 < rd_r b1" using ll full_cr(2) by (cases line) auto
    then have r: "Reader_ReadLine read b = Ret (butlast line, True, None, ?b)"
      using full_cr by (simp add: rl lst butlast_conv_take)
    have u: "Reader_unread future b = butlast line @ [] @ Reader_unread future ?b"
      using un unread_last(1) [OF ok1 sg ll full_cr(2)] full_cr(2) by simp
    have "10 \<notin> set (butlast line)"
      using nl full_cr(1) by (auto dest: in_set_butlastD)
    then show ?thesis
      using lb by (intro result [OF r unread_last(2) [OF ok1 sg ll full_cr(2)] _ u]) auto
  next
    case full
    have r: "Reader_ReadLine read b = Ret (line, True, None, b1)"
      using full by (auto simp: rl lst)
    show ?thesis using full(1) un ok1 lb nl by (intro result [OF r ok1, where eol = "[]"]) auto
  next
    case empty
    have r: "Reader_ReadLine read b = Ret ([], False, e, b1)"
      using empty by (simp add: rl)
    show ?thesis using empty un ok1 lb by (intro result [OF r ok1, where eol = "[]"]) auto
  next
    case partial
    then have "10 \<notin> set line" using nl by simp
    then have "last line \<noteq> 10" using last_in_set [OF partial(2)] by metis
    then have r: "Reader_ReadLine read b = Ret (line, False, None, b1)"
      using partial by (simp add: rl lst)
    show ?thesis using partial un ok1 lb nl by (intro result [OF r ok1, where eol = "[]"]) auto
  next
    case newline
    then obtain l where l: "line = l @ [10]" "10 \<notin> set l" using nl by auto
    show ?thesis
    proof (cases "l \<noteq> [] \<and> last l = 13")
      case True
      then obtain m where m: "l = m @ [13]" by (metis append_butlast_last_id)
      have r: "Reader_ReadLine read b = Ret (m, False, None, b1)"
        using newline l m by (simp add: rl nth_append)
      show ?thesis using l m un ok1 lb by (intro result [OF r ok1, where eol = "[13, 10]"]) auto
    next
      case False
      have r: "Reader_ReadLine read b = Ret (l, False, None, b1)"
        using newline l False by (auto simp: rl nth_append last_conv_nth)
      show ?thesis using l un ok1 lb by (intro result [OF r ok1, where eol = "[10]"]) auto
    qed
  qed
qed

text \<open>\<open>*Reader\<close> implements \<open>io.Reader\<close>: a buffered reader over a lawful reader is a lawful reader.\<close>

lemma Reader_is_io_reader:
  "io_reader (Reader_io_read read) (Reader_unread future) (Reader_ok sok)"
proof
  fix b p b' p' n e
  assume ok: "Reader_ok sok b" and rd: "Reader_io_read read b p = (b', p', n, e)"
  obtain m where "Reader_Read read p b = Ret (int m, e, p', b')" "n = int m" "m \<le> length p"
    "length p' = length p" "Reader_ok sok b'" "Reader_unread future b = take m p' @ Reader_unread future b'"
    using Read_spec [OF ok, of p] rd by (auto simp: Reader_io_read_def)
  then show "Reader_ok sok b'" "length p' = length p" "0 \<le> n \<and> n \<le> int (length p)"
    "Reader_unread future b = take (nat n) p' @ Reader_unread future b'"
    by auto
qed

end

context live_reader
begin

text \<open>While the stream has bytes and the buffer has room, one round of \<open>fill\<close> is enough.\<close>

lemma fill_loop_drained:
  assumes "Reader_ok sok b" and "rd_err b = None" and "rd_w b < length (rd_buf b)"
    and "fill_loop read i b = Ret b'" and "0 < i"
  shows "Reader_drained future b'"
  using assms
proof (induction i arbitrary: b)
  case (Suc i)
  obtain s p n e where rd: "read (rd_rd b) (drop (rd_w b) (rd_buf b)) = (s, p, n, e)"
    by (cases "read (rd_rd b) (drop (rd_w b) (rd_buf b))") auto
  let ?b = "b\<lparr>rd_rd := s, rd_buf := copy_at (rd_buf b) (rd_w b) p, rd_w := rd_w b + nat n\<rparr>"
  have so: "sok (rd_rd b)" using Suc.prems(1) by (simp add: Reader_ok_def)
  consider (error) "e \<noteq> None" | (data) "e = None" "0 < n" | (empty) "e = None" "n = 0"
    using read_count [OF so rd] by fastforce
  then show ?case
  proof cases
    case error
    then show ?thesis
      using Suc.prems rd read_error [OF so] by (auto simp: Reader_drained_def Let_def split: if_splits)
  next
    case data
    then show ?thesis
      using Suc.prems rd by (auto simp: Reader_drained_def Let_def)
  next
    case empty
    have fut: "future (rd_rd b) = []" and fut': "future s = []"
      using read_live [OF so rd] read_stream [OF so rd] empty Suc.prems(3) by auto
    show ?thesis
    proof (cases "i = 0")
      case True
      then show ?thesis
        using Suc.prems rd empty fut' by (auto simp: Reader_drained_def Let_def)
    next
      case False
      have "Reader_ok sok ?b"
        using Reader_same_ok [OF store_same [OF Suc.prems(1) rd]] .
      then show ?thesis
        using Suc.IH [of ?b] Suc.prems rd empty False by (simp add: Let_def)
    qed
  qed
qed simp

lemma fill_drained:
  assumes ok: "Reader_ok sok b" and ne: "rd_err b = None" and fl: "Reader_fill read b = Ret b'"
  shows "Reader_drained future b'"
proof -
  obtain b1 where b1: "Reader_slide b = Ret b1" "Reader_same future sok b b1" "rd_err b1 = rd_err b"
    using slide_same [OF ok] by blast
  then have "rd_w b1 < length (rd_buf b1)" "fill_loop read maxConsecutiveEmptyReads b1 = Ret b'"
    using fl by (auto simp: Reader_fill_def split: if_splits)
  then show ?thesis
    using fill_loop_drained [OF Reader_same_ok [OF b1(2)]] b1(3) ne
    by (simp add: maxConsecutiveEmptyReads_def)
qed

lemma Peek_loop_drained:
  assumes ok: "Reader_ok sok b" and len: "n \<le> length (rd_buf b)" and dr: "Reader_drained future b"
    and lp: "Peek_loop read n b = Ret b'"
  shows "Reader_drained future b'"
proof -
  let ?P = "\<lambda>b. Reader_ok sok b \<and> n \<le> length (rd_buf b) \<and> Reader_drained future b"
  have "?P b'"
  proof (rule Peek_loop_invariant [where P = ?P, OF _ _ lp])
    fix b b1
    assume P: "?P b" and g: "Reader_Buffered b < n" "rd_err b = None" and fl: "Reader_fill read b = Ret b1"
    obtain b2 where "Reader_fill read b = Ret b2" "Reader_same future sok b b2"
      using fill_same [of b] P g by auto
    then show "?P b1"
      using P g fl fill_drained by (auto simp: Reader_same_def)
  qed (use ok len dr in simp)
  then show ?thesis by simp
qed

text \<open>
  On a live reader \<open>Pop\<close> succeeds exactly when the stream still has \<open>n\<close> bytes, and then returns
  the next \<open>n\<close> of them, however the underlying reader cut them into reads.
\<close>

lemma Pop_live:
  assumes ok: "Reader_ok sok b" and dr: "Reader_drained future b"
    and n: "0 \<le> n" "n \<le> int (length (rd_buf b))"
  shows "\<exists>d e b'. Reader_Pop read n b = Ret (d, e, b') \<and> Reader_ok sok b' \<and> Reader_drained future b' \<and>
    length (rd_buf b') = length (rd_buf b) \<and> rd_spare b' = rd_spare b \<and>
    (e = None \<longleftrightarrow> nat n \<le> length (Reader_unread future b)) \<and>
    (if e = None
     then d = take (nat n) (Reader_unread future b) \<and> Reader_unread future b' = drop (nat n) (Reader_unread future b)
     else d = [] \<and> Reader_unread future b' = Reader_unread future b)"
proof -
  obtain d e b' where pop: "Reader_Pop read n b = Ret (d, e, b')" and ok': "Reader_ok sok b'"
    and un: "Reader_unread future b = d @ Reader_unread future b'"
    and ld: "length d = (if e = None then nat n else 0)"
    and same: "length (rd_buf b') = length (rd_buf b)" "rd_spare b' = rd_spare b"
    using Pop_spec [OF ok n] by (elim exE conjE)
  obtain b1 where lp: "Peek_loop read (nat n) b = Ret b1" and s1: "Reader_same future sok b b1"
    and en: "nat n \<le> Reader_Buffered b1 \<or> rd_err b1 \<noteq> None"
    using Peek_loop_same [OF ok, of "nat n"] n by (auto simp: nat_le_iff)
  have dr1: "Reader_drained future b1"
    using Peek_loop_drained [OF ok _ dr lp] n by (simp add: nat_le_iff)
  have ok1: "rd_r b1 \<le> rd_w b1" "rd_w b1 \<le> length (rd_buf b1)"
    using Reader_same_ok [OF s1] by (auto simp: Reader_ok_def)
  have lu: "length (Reader_unread future b) = Reader_Buffered b1 + length (future (rd_rd b1))"
    using s1 Reader_unread_length [OF Reader_same_ok [OF s1], of future] by (simp add: Reader_same_def)
  have "(e = None \<longleftrightarrow> nat n \<le> length (Reader_unread future b)) \<and> Reader_drained future b'"
  proof (cases "Reader_Buffered b1 < nat n")
    case True
    then have "e \<noteq> None" "rd_err b' = None"
      using pop lp n ok1
      by (auto simp: Reader_Pop_def Reader_Peek_def Reader_readErr_def Reader_Buffered_def split: if_splits)
    then show ?thesis
      using True en dr1 lu by (auto simp: Reader_drained_def)
  next
    case False
    then have "e = None" "rd_err b' = rd_err b1" "rd_rd b' = rd_rd b1"
      using pop lp n ok1 by (auto simp: Reader_Pop_def Reader_Peek_def Reader_Buffered_def)
    then show ?thesis
      using False dr1 lu by (simp add: Reader_drained_def)
  qed
  then show ?thesis
    using pop ok' same un ld by (intro exI [of _ d] exI [of _ e] exI [of _ b']) auto
qed

lemma Pop_at:
  assumes at: "Reader_at future sok N str b" and n: "0 \<le> n" "n \<le> int N" "nat n \<le> length str"
  shows "\<exists>b'. Reader_Pop read n b = Ret (take (nat n) str, None, b') \<and>
    Reader_at future sok N (drop (nat n) str) b' \<and> rd_spare b' = rd_spare b \<and>
    nat n \<le> rd_r b' \<and> seg (rd_buf b') (rd_r b' - nat n) (rd_r b') = take (nat n) str"
proof -
  have ok: "Reader_ok sok b" "Reader_drained future b" "length (rd_buf b) = N" "Reader_unread future b = str"
    using at by (auto simp: Reader_at_def)
  have n': "n \<le> int (length (rd_buf b))" using n ok by simp
  obtain d e b' where lv: "Reader_Pop read n b = Ret (d, e, b')" "Reader_ok sok b'" "Reader_drained future b'"
      "length (rd_buf b') = length (rd_buf b)" "rd_spare b' = rd_spare b"
      "e = None \<longleftrightarrow> nat n \<le> length (Reader_unread future b)"
      "if e = None then d = take (nat n) (Reader_unread future b) \<and> Reader_unread future b' = drop (nat n) (Reader_unread future b)
       else d = [] \<and> Reader_unread future b' = Reader_unread future b"
    using Pop_live [OF ok(1,2) n(1) n'] by (elim exE conjE) (rule that)
  obtain d2 e2 b2 where sp: "Reader_Pop read n b = Ret (d2, e2, b2)"
    "e2 = None \<longrightarrow> nat n \<le> rd_r b2 \<and> seg (rd_buf b2) (rd_r b2 - nat n) (rd_r b2) = d2"
    using Pop_spec [OF ok(1) n(1) n'] by (elim exE conjE) (rule that)
  have "e = None" "d2 = d" "e2 = e" "b2 = b'" using lv(1,6) n(3) ok(4) sp(1) by simp_all
  then show ?thesis
    using lv sp ok by (intro exI [of _ b']) (simp add: Reader_at_def)
qed

lemma ReadByte_at:
  assumes at: "Reader_at future sok N (c # str) b" and N: "0 < N"
  shows "\<exists>b'. Reader_ReadByte read b = Ret (c, None, b') \<and> Reader_at future sok N str b' \<and>
    rd_spare b' = rd_spare b"
proof -
  have ok: "Reader_ok sok b" "Reader_drained future b" "length (rd_buf b) = N" "Reader_unread future b = c # str"
    using at by (auto simp: Reader_at_def)
  have now: "\<exists>b'. Reader_ReadByte read b1 = Ret (c, None, b') \<and> Reader_at future sok N str b' \<and> rd_spare b' = rd_spare b1"
    if at1: "Reader_at future sok N (c # str) b1" and r: "rd_r b1 \<noteq> rd_w b1" for b1
    using at1 r seg_nth [of "rd_r b1" "rd_w b1" "rd_buf b1"]
    by (intro exI [of _ "b1\<lparr>rd_r := rd_r b1 + 1\<rparr>"])
      (auto simp: Reader_ReadByte.simps [of read b1] Reader_at_def Reader_ok_def Reader_unread_def
        Reader_drained_def)
  show ?thesis
  proof (cases "rd_r b = rd_w b")
    case False
    then show ?thesis using now [OF at] by blast
  next
    case True
    then have ne: "rd_err b = None"
      using ok(2,4) by (auto simp: Reader_drained_def Reader_unread_def)
    obtain b1 where fl: "Reader_fill read b = Ret b1" and s1: "Reader_same future sok b b1"
      using fill_same [OF ok(1)] True N ok(3) by (auto simp: Reader_Buffered_def)
    have at1: "Reader_at future sok N (c # str) b1"
      using s1 ok fill_drained [OF ok(1) ne fl] by (simp add: Reader_at_def Reader_same_def)
    have "rd_r b1 \<noteq> rd_w b1"
    proof
      assume eq: "rd_r b1 = rd_w b1"
      then have "rd_err b1 \<noteq> None" using Reader_fill_progress(1) [OF fl] by (auto simp: Reader_Buffered_def)
      then show False using at1 eq by (auto simp: Reader_at_def Reader_drained_def Reader_unread_def)
    qed
    moreover have "Reader_ReadByte read b = Reader_ReadByte read b1"
      using True ne fl by (simp add: Reader_ReadByte.simps [of read b])
    ultimately show ?thesis using now [OF at1] s1 by (simp add: Reader_same_def)
  qed
qed

end

section \<open>A connection cut into segments\<close>

text \<open>
  A concrete underlying reader: a blocking stream connection whose bytes arrive in segments.
  A read delivers what fits of the first segment that is not empty, and end-of-file at the end.
  It shows that the two contracts can hold, and the witnesses run on it.
\<close>

fun conn_read :: "byte list list io_read" where
  "conn_read [] p = ([], p, 0, Some (IO EOF))"
| "conn_read (c # cs) p =
     (if c = [] then conn_read cs p
      else (drop (length p) c # cs, copy_at p 0 c, int (min (length p) (length c)), None))"

lemma conn_read_spec:
  "conn_read cs p = (cs', p', n, e) \<Longrightarrow>
   length p' = length p \<and> 0 \<le> n \<and> n \<le> int (length p) \<and> concat cs = take (nat n) p' @ concat cs' \<and>
   (p \<noteq> [] \<and> concat cs \<noteq> [] \<longrightarrow> 0 < n) \<and> (e \<noteq> None \<longrightarrow> concat cs' = [])"
proof (induction cs p rule: conn_read.induct)
  case (2 c cs p)
  show ?case
  proof (cases "c = []")
    case True
    then have "conn_read cs p = (cs', p', n, e)" and "concat (c # cs) = concat cs"
      using "2.prems" by simp_all
    then show ?thesis using "2.IH" [OF True] by metis
  next
    case False
    have "c = take (length p) c @ drop (length p) c" by simp
    moreover have "take (min (length p) (length c)) (copy_at p 0 c) = take (length p) c"
      by (auto simp: copy_at_def min_def)
    ultimately show ?thesis using False "2.prems" by auto
  qed
qed auto

interpretation conn: live_reader conn_read concat "\<lambda>_. True"
  by unfold_locales (use conn_read_spec in blast)+

interpretation bufrd: io_reader "Reader_io_read conn_read" "Reader_unread concat" "Reader_ok (\<lambda>_. True)"
  by (rule conn.Reader_is_io_reader)

section \<open>Properties\<close>

text \<open>
  C22 (Pop and the stream). On a live reader \<open>Pop(n)\<close> with \<open>n\<close> within the buffer returns the next \<open>n\<close>
  bytes of the stream and no error exactly when the stream still has them; otherwise it returns an
  error and takes nothing. The reader's state stays well formed.
\<close>

theorem Pop_stream:
  assumes "live_reader read future sok" and "Reader_ok sok b" and "Reader_drained future b"
    and "0 \<le> n" and "n \<le> int (length (rd_buf b))"
  shows "\<exists>d e b'. Reader_Pop read n b = Ret (d, e, b') \<and> Reader_ok sok b' \<and> Reader_drained future b' \<and>
    (e = None \<longleftrightarrow> nat n \<le> length (Reader_unread future b)) \<and>
    (if e = None
     then d = take (nat n) (Reader_unread future b) \<and> Reader_unread future b' = drop (nat n) (Reader_unread future b)
     else d = [] \<and> Reader_unread future b' = Reader_unread future b)"
  using live_reader.Pop_live [OF assms] by (elim exE conjE) (intro exI conjI; assumption)

theorem Pop_stream_witness:
  "\<exists>d e b'. Reader_Pop conn_read 3 (Reader_reset (replicate 16 0) [] [[1, 2], [], [3, 4]]) = Ret (d, e, b') \<and>
    e = None \<and> d = [1, 2, 3] \<and> Reader_unread concat b' = [4]"
  using Pop_stream [OF conn.live_reader_axioms, of "Reader_reset (replicate 16 0) [] [[1, 2], [], [3, 4]]" 3]
  by (auto simp: Reader_reset_def Reader_ok_def Reader_drained_def Reader_unread_def)

text \<open>
  ReadLine. On any reader that keeps the contract of \<open>io.Reader\<close>, \<open>ReadLine\<close> returns a line
  without its end-of-line bytes: the stream was the line, then an optional CR LF or LF, then what
  the reader stands in front of afterwards. A partial line (\<open>isPrefix\<close>) loses no byte, and an error
  comes with no line.
\<close>

theorem ReadLine_stream:
  assumes "io_reader read future sok" and "Reader_ok sok b" and "0 < length (rd_buf b)"
  shows "\<exists>line pre e b' eol. Reader_ReadLine read b = Ret (line, pre, e, b') \<and> Reader_ok sok b' \<and>
    length (rd_buf b') = length (rd_buf b) \<and>
    Reader_unread future b = line @ eol @ Reader_unread future b' \<and>
    eol \<in> {[], [10], [13, 10]} \<and> 10 \<notin> set line \<and> (e \<noteq> None \<or> pre \<longrightarrow> eol = []) \<and>
    (e \<noteq> None \<longrightarrow> line = [] \<and> \<not> pre)"
  by (rule io_reader.ReadLine_spec [OF assms])

theorem ReadLine_stream_witness:
  "\<exists>line pre e b' eol. Reader_ReadLine conn_read (Reader_reset (replicate 4 0) [] [[65, 13], [10, 66]])
      = Ret (line, pre, e, b') \<and> [65, 13, 10, 66] = line @ eol @ Reader_unread concat b' \<and> 10 \<notin> set line"
  using ReadLine_stream [OF conn.io_reader_axioms, of "Reader_reset (replicate 4 0) [] [[65, 13], [10, 66]]"]
  by (auto simp: Reader_reset_def Reader_ok_def Reader_unread_def)

text \<open>
  Bufio.Reader is an io.Reader. \<open>Read\<close> never panics on a reader that keeps the contract of
  \<open>io.Reader\<close>, returns a count within the slice, and what it copies into the slice are the next bytes
  of the stream: the buffered reader keeps the contract it relies on.
\<close>

theorem Read_keeps_contract:
  assumes "io_reader read future sok" and "Reader_ok sok b"
  shows "\<exists>n e p' b'. Reader_Read read p b = Ret (int n, e, p', b') \<and> n \<le> length p \<and>
    length p' = length p \<and> Reader_ok sok b' \<and>
    Reader_unread future b = take n p' @ Reader_unread future b'"
  by (rule io_reader.Read_spec [OF assms])

theorem Read_keeps_contract_witness:
  "\<exists>n e p' b'. Reader_Read (Reader_io_read conn_read) [0, 0, 0]
      (Reader_reset (replicate 4 0) [] (Reader_reset (replicate 2 0) [] [[7, 8], [9]])) = Ret (int n, e, p', b') \<and>
    n \<le> 3 \<and> [7, 8, 9] = take n p' @ Reader_unread (Reader_unread concat) b'"
  using Read_keeps_contract [OF bufrd.io_reader_axioms,
      of "Reader_reset (replicate 4 0) [] (Reader_reset (replicate 2 0) [] [[7, 8], [9]])" "[0, 0, 0]"]
  by (auto simp: Reader_reset_def Reader_ok_def Reader_unread_def)

end
