(* ===== verification/Bufio_Writer.thy ===== *)
theory Bufio_Writer
  imports Prelude
begin

text \<open>
  \<open>pkg/bufio/bufio.go\<close>, the \<open>Writer\<close> half. The underlying \<open>io.Writer\<close> is a parameter \<open>wrt\<close>:
  \<open>wrt s p\<close> is the call \<open>wr.Write(p)\<close> in state \<open>s\<close>, giving the new state, the number of bytes
  taken from \<open>p\<close> and the error. A write loop that never ends is the value \<open>None\<close>.

  \<open>Peek\<close> hands out a window of the buffer that the caller fills in place: it returns the
  window's offset, and \<open>Writer_poke\<close> is the caller's write through it.
\<close>

type_synonym 's io_write = "'s \<Rightarrow> byte list \<Rightarrow> 's \<times> nat \<times> error option"

section \<open>State and operations\<close>

record 's Writer =
  wr_err :: "error option"
  wr_buf :: "byte list"
  wr_n :: nat
  wr_wr :: 's

definition defaultWriteBufSize :: nat where "defaultWriteBufSize = 4096"

text \<open>
  \<open>NewWriterSize\<close>: \<open>Inl\<close> an argument that is a \<open>*Writer\<close> already, returned as it is when its
  buffer is large enough, \<open>Inr\<close> any other writer.
\<close>

definition Writer_NewWriterSize ::
    "'s Writer + 's \<Rightarrow> int \<Rightarrow> 's Writer + ('s Writer + 's) Writer" where
  "Writer_NewWriterSize w sz =
     (let fresh = Inr \<lparr>wr_err = None,
                      wr_buf = replicate (if sz \<le> 0 then defaultWriteBufSize else nat sz) 0,
                      wr_n = 0, wr_wr = w\<rparr>
      in case w of Inl b \<Rightarrow> if int (length (wr_buf b)) \<ge> sz then Inl b else fresh | Inr _ \<Rightarrow> fresh)"

definition Writer_NewWriter :: "'s Writer + 's \<Rightarrow> 's Writer + ('s Writer + 's) Writer" where
  "Writer_NewWriter w = Writer_NewWriterSize w (int defaultWriteBufSize)"

definition Writer_Reset :: "'s \<Rightarrow> 's Writer \<Rightarrow> 's Writer" where
  "Writer_Reset w b = b\<lparr>wr_err := None, wr_n := 0, wr_wr := w\<rparr>"

definition Writer_ResetBuffer :: "'s \<Rightarrow> byte list \<Rightarrow> 's Writer \<Rightarrow> 's Writer" where
  "Writer_ResetBuffer w buf b = b\<lparr>wr_buf := buf, wr_err := None, wr_n := 0, wr_wr := w\<rparr>"

definition Writer_flush :: "'s io_write \<Rightarrow> 's Writer \<Rightarrow> error option \<times> 's Writer" where
  "Writer_flush wrt b =
     (if wr_err b \<noteq> None then (wr_err b, b)
      else if wr_n b = 0 then (None, b)
      else
        (case wrt (wr_wr b) (take (wr_n b) (wr_buf b)) of (s, n, e) \<Rightarrow>
           let err = (if n < wr_n b \<and> e = None then Some (IO ErrShortWrite) else e)
           in if err \<noteq> None
              then (err, b\<lparr>wr_wr := s,
                           wr_buf := (if n > 0 \<and> n < wr_n b
                                      then copy_at (wr_buf b) 0 (seg (wr_buf b) n (wr_n b))
                                      else wr_buf b),
                           wr_n := wr_n b - n,
                           wr_err := err\<rparr>)
              else (None, b\<lparr>wr_wr := s, wr_n := 0\<rparr>)))"

definition Writer_Flush :: "'s io_write \<Rightarrow> 's Writer \<Rightarrow> error option \<times> 's Writer" where
  "Writer_Flush wrt b = Writer_flush wrt b"

definition Writer_Available :: "'s Writer \<Rightarrow> nat" where
  "Writer_Available b = length (wr_buf b) - wr_n b"

definition Writer_Buffered :: "'s Writer \<Rightarrow> nat" where
  "Writer_Buffered b = wr_n b"

text \<open>\<open>n := copy(b.buf[b.n:], p); b.n += n\<close>: the writer afterwards; the count is \<open>append_count\<close>.\<close>

definition append_count :: "'s Writer \<Rightarrow> byte list \<Rightarrow> nat" where
  "append_count b p = min (Writer_Available b) (length p)"

definition append_buf :: "'s Writer \<Rightarrow> byte list \<Rightarrow> 's Writer" where
  "append_buf b p = b\<lparr>wr_buf := copy_at (wr_buf b) (wr_n b) p, wr_n := wr_n b + append_count b p\<rparr>"

text \<open>The loop of \<open>Write\<close>; its result is the rest of \<open>p\<close>, \<open>nn\<close> and the writer.\<close>

partial_function (option) Write_loop ::
    "'s io_write \<Rightarrow> byte list \<Rightarrow> nat \<Rightarrow> 's Writer \<Rightarrow> (byte list \<times> nat \<times> 's Writer) outcome option" where
  "Write_loop wrt p nn b =
     (if length p > Writer_Available b \<and> wr_err b = None then
        if wr_n b = 0 then
          (case wrt (wr_wr b) p of (s, n, e) \<Rightarrow>
             if n > length p then Some (Panic SliceBounds)
             else Write_loop wrt (drop n p) (nn + n) (b\<lparr>wr_wr := s, wr_err := e\<rparr>))
        else
          (case Writer_flush wrt (append_buf b p) of (e, b') \<Rightarrow>
             Write_loop wrt (drop (append_count b p) p) (nn + append_count b p) b')
      else Some (Ret (p, nn, b)))"

definition Writer_Write ::
    "'s io_write \<Rightarrow> byte list \<Rightarrow> 's Writer \<Rightarrow> (nat \<times> error option \<times> 's Writer) outcome option" where
  "Writer_Write wrt p b =
     (case Write_loop wrt p 0 b of
        None \<Rightarrow> None
      | Some r \<Rightarrow> Some (obind r (\<lambda>(p', nn, b').
          if wr_err b' \<noteq> None then Ret (nn, wr_err b', b')
          else Ret (nn + append_count b' p', None, append_buf b' p'))))"

definition Writer_WriteRaw ::
    "'s io_write \<Rightarrow> byte list \<Rightarrow> 's Writer \<Rightarrow> (nat \<times> error option \<times> 's Writer) outcome option" where
  "Writer_WriteRaw wrt p b =
     (if wr_err b \<noteq> None then Some (Ret (0, wr_err b, b))
      else if Writer_Buffered b = 0 then
        (case wrt (wr_wr b) p of (s, n, e) \<Rightarrow> Some (Ret (n, e, b\<lparr>wr_wr := s, wr_err := e\<rparr>)))
      else Writer_Write wrt p b)"

text \<open>
  The loop of \<open>Peek\<close>. \<open>Peek\<close> has just checked that \<open>n\<close> is at most the buffer's length, and a flush
  keeps that length, so the third conjunct of the guard never ends the loop.
\<close>

lemma length_flush [simp]: "length (wr_buf (snd (Writer_flush wrt b))) = length (wr_buf b)"
  by (auto simp: Writer_flush_def Let_def split: prod.split)

lemma flush_clears: "wr_err (snd (Writer_flush wrt b)) \<noteq> None \<or> wr_n (snd (Writer_flush wrt b)) = 0"
  by (auto simp: Writer_flush_def Let_def split: prod.split)

function Writer_Peek_loop :: "'s io_write \<Rightarrow> nat \<Rightarrow> 's Writer \<Rightarrow> 's Writer" where
  "Writer_Peek_loop wrt n b =
     (if Writer_Available b < n \<and> wr_err b = None \<and> n \<le> length (wr_buf b)
      then Writer_Peek_loop wrt n (snd (Writer_flush wrt b))
      else b)"
  by pat_completeness auto
termination
proof (relation "measure (\<lambda>(wrt, n, b). if wr_err b = None then wr_n b else 0)")
  fix wrt :: "'s io_write" and n :: nat and b :: "'s Writer"
  assume "Writer_Available b < n \<and> wr_err b = None \<and> n \<le> length (wr_buf b)"
  then show "((wrt, n, snd (Writer_flush wrt b)), (wrt, n, b))
      \<in> measure (\<lambda>(wrt, n, b). if wr_err b = None then wr_n b else 0)"
    using flush_clears [of wrt b] by (auto simp: Writer_Available_def)
qed auto

declare Writer_Peek_loop.simps [simp del]

text \<open>\<open>Peek\<close>: the offset of the window, the error and the advanced writer.\<close>

definition Writer_Peek :: "'s io_write \<Rightarrow> int \<Rightarrow> 's Writer \<Rightarrow> nat \<times> error option \<times> 's Writer" where
  "Writer_Peek wrt n b =
     (if n < 0 then (0, Some (Bufio ErrNegativeCount), b)
      else if n > int (length (wr_buf b)) then (0, Some (Bufio ErrBufferFull), b)
      else
        let b' = Writer_Peek_loop wrt (nat n) b
        in if wr_err b' \<noteq> None then (0, wr_err b', b')
           else (wr_n b', None, b'\<lparr>wr_n := wr_n b' + nat n\<rparr>))"

definition Writer_poke :: "nat \<Rightarrow> byte list \<Rightarrow> 's Writer \<Rightarrow> 's Writer" where
  "Writer_poke off bs b = b\<lparr>wr_buf := copy_at (wr_buf b) off bs\<rparr>"

partial_function (option) WriteString_loop ::
    "'s io_write \<Rightarrow> byte list \<Rightarrow> nat \<Rightarrow> 's Writer \<Rightarrow> (byte list \<times> nat \<times> 's Writer) option" where
  "WriteString_loop wrt s nn b =
     (if length s > Writer_Available b \<and> wr_err b = None
      then WriteString_loop wrt (drop (append_count b s) s) (nn + append_count b s)
             (snd (Writer_flush wrt (append_buf b s)))
      else Some (s, nn, b))"

definition Writer_WriteString ::
    "'s io_write \<Rightarrow> byte list \<Rightarrow> 's Writer \<Rightarrow> (nat \<times> error option \<times> 's Writer) option" where
  "Writer_WriteString wrt s b =
     (case WriteString_loop wrt s 0 b of
        None \<Rightarrow> None
      | Some (s', nn, b') \<Rightarrow>
          if wr_err b' \<noteq> None then Some (nn, wr_err b', b')
          else Some (nn + append_count b' s', None, append_buf b' s'))"

declare Write_loop.simps [code] WriteString_loop.simps [code]

section \<open>The contract of the underlying writer\<close>

text \<open>
  \<open>io.Writer\<close>'s documentation as a locale: a write takes a prefix of its argument, and returns an
  error unless it took all of it. \<open>sent s\<close> is everything written so far.
\<close>

locale io_writer =
  fixes wrt :: "'s io_write" and sent :: "'s \<Rightarrow> byte list"
  assumes write_count: "wrt s p = (s', n, e) \<Longrightarrow> n \<le> length p"
    and write_short: "wrt s p = (s', n, e) \<Longrightarrow> n < length p \<Longrightarrow> e \<noteq> None"
    and write_sent: "wrt s p = (s', n, e) \<Longrightarrow> sent s' = sent s @ take n p"

definition Writer_ok :: "'s Writer \<Rightarrow> bool" where
  "Writer_ok b \<longleftrightarrow> wr_n b \<le> length (wr_buf b)"

text \<open>Everything the client has written: what was sent, then what is buffered.\<close>

definition Writer_out :: "('s \<Rightarrow> byte list) \<Rightarrow> 's Writer \<Rightarrow> byte list" where
  "Writer_out sent b = sent (wr_wr b) @ take (wr_n b) (wr_buf b)"

lemma append_buf_out:
  assumes "Writer_ok b"
  shows "Writer_out sent (append_buf b p) = Writer_out sent b @ take (append_count b p) p"
    and "Writer_ok (append_buf b p)"
  using assms
  by (auto simp: Writer_out_def append_buf_def append_count_def Writer_Available_def Writer_ok_def
      take_copy_at_end)

lemma append_buf_simps [simp]:
  "wr_err (append_buf b p) = wr_err b" "length (wr_buf b) \<ge> wr_n b \<Longrightarrow> length (wr_buf (append_buf b p)) = length (wr_buf b)"
  "wr_n (append_buf b p) = wr_n b + append_count b p" "wr_wr (append_buf b p) = wr_wr b"
  by (simp_all add: append_buf_def)

text \<open>A window handed out and then filled appends exactly what was put in it.\<close>

lemma poke_out:
  assumes "Writer_ok b" and "off + length bs = wr_n b"
  shows "Writer_out sent (Writer_poke off bs b)
    = sent (wr_wr b) @ take off (wr_buf b) @ bs"
    and "Writer_ok (Writer_poke off bs b)"
  using assms take_copy_at_end [of off "wr_buf b" "length bs" bs]
  by (auto simp: Writer_out_def Writer_poke_def Writer_ok_def)

lemma poke_simps [simp]:
  "wr_err (Writer_poke off bs b) = wr_err b" "wr_n (Writer_poke off bs b) = wr_n b"
  "wr_wr (Writer_poke off bs b) = wr_wr b"
  "off \<le> length (wr_buf b) \<Longrightarrow> length (wr_buf (Writer_poke off bs b)) = length (wr_buf b)"
  by (simp_all add: Writer_poke_def)

text \<open>\<open>Writer_took sent k p b b'\<close>: between \<open>b\<close> and \<open>b'\<close> the writer took the first \<open>k\<close> bytes of \<open>p\<close>.\<close>

definition Writer_took :: "('s \<Rightarrow> byte list) \<Rightarrow> nat \<Rightarrow> byte list \<Rightarrow> 's Writer \<Rightarrow> 's Writer \<Rightarrow> bool" where
  "Writer_took sent k p b b' \<longleftrightarrow> Writer_ok b' \<and> k \<le> length p \<and>
     Writer_out sent b' = Writer_out sent b @ take k p \<and> length (wr_buf b') = length (wr_buf b)"

lemma Writer_took_ok: "Writer_took sent k p b b' \<Longrightarrow> Writer_ok b'"
  by (simp add: Writer_took_def)

lemma Writer_took_trans:
  assumes "Writer_took sent j p b b1" and "Writer_took sent k (drop j p) b1 b2"
  shows "Writer_took sent (j + k) p b b2"
  using assms by (auto simp: Writer_took_def take_add)

lemma append_buf_took:
  "Writer_ok b \<Longrightarrow> Writer_took sent (append_count b p) p b (append_buf b p)"
  using append_buf_out [of b] by (auto simp: Writer_took_def append_count_def Writer_ok_def)

context io_writer
begin

lemma flush_spec:
  assumes ok: "Writer_ok b" and fl: "Writer_flush wrt b = (e, b')"
  shows "Writer_out sent b' = Writer_out sent b" and "Writer_ok b'"
    and "e = wr_err b'" and "e = None \<Longrightarrow> wr_n b' = 0 \<and> sent (wr_wr b') = Writer_out sent b"
    and "length (wr_buf b') = length (wr_buf b)"
proof -
  obtain s n err where wr: "wrt (wr_wr b) (take (wr_n b) (wr_buf b)) = (s, n, err)"
    by (cases "wrt (wr_wr b) (take (wr_n b) (wr_buf b))") auto
  have len: "length (take (wr_n b) (wr_buf b)) = wr_n b" using ok by (simp add: Writer_ok_def)
  have n: "n \<le> wr_n b" using write_count [OF wr] len by simp
  have se: "sent s = sent (wr_wr b) @ take n (wr_buf b)"
    using write_sent [OF wr] n by (simp add: min_absorb1)
  have sh: "n < wr_n b \<Longrightarrow> err \<noteq> None" using write_short [OF wr] len by simp
  have shift: "take (wr_n b - n) (copy_at (wr_buf b) 0 (seg (wr_buf b) n (wr_n b))) = seg (wr_buf b) n (wr_n b)"
    using ok n take_copy_at_end [of 0 "wr_buf b" "wr_n b - n" "seg (wr_buf b) n (wr_n b)"]
    by (auto simp: Writer_ok_def)
  have join: "take n (wr_buf b) @ seg (wr_buf b) n (wr_n b) = take (wr_n b) (wr_buf b)"
    using n seg_append_seg [of 0 n "wr_n b" "wr_buf b"] by simp
  show "Writer_out sent b' = Writer_out sent b"
    using fl wr n se sh shift join
    by (auto simp: Writer_flush_def Writer_out_def Let_def split: if_splits)
  show "Writer_ok b'" "e = wr_err b'" "length (wr_buf b') = length (wr_buf b)"
    using fl wr ok by (auto simp: Writer_flush_def Writer_ok_def Let_def split: if_splits)
  show "e = None \<Longrightarrow> wr_n b' = 0 \<and> sent (wr_wr b') = Writer_out sent b"
    using fl wr n se sh by (auto simp: Writer_flush_def Writer_out_def Let_def split: if_splits)
qed

text \<open>
  The relation every write operation establishes: the writer took the prefix \<open>take k p\<close> of what
  it was given, in order and behind everything taken before.
\<close>

lemma Write_loop_empty:
  assumes ok: "Writer_ok b" and n0: "wr_n b = 0"
  shows "\<exists>k b'. Write_loop wrt p nn b = Some (Ret (drop k p, nn + k, b')) \<and> Writer_took sent k p b b' \<and>
    (wr_err b' = None \<longrightarrow> length p - k \<le> Writer_Available b')"
proof (cases "length p > Writer_Available b \<and> wr_err b = None")
  case False
  then show ?thesis
    using ok by (intro exI [of _ 0] exI [of _ b])
      (auto simp: Write_loop.simps [of wrt p] Writer_took_def)
next
  case True
  obtain s n e where wr: "wrt (wr_wr b) p = (s, n, e)" by (cases "wrt (wr_wr b) p") auto
  define b1 where "b1 = b\<lparr>wr_wr := s, wr_err := e\<rparr>"
  have n: "n \<le> length p" using write_count [OF wr] .
  have "Write_loop wrt (drop n p) (nn + n) b1 = Some (Ret (drop n p, nn + n, b1))"
  proof (cases e)
    case None
    then have "n = length p" using write_short [OF wr] n by fastforce
    then show ?thesis by (subst Write_loop.simps) simp
  next
    case (Some er)
    then show ?thesis by (subst Write_loop.simps) (simp add: b1_def)
  qed
  then have "Write_loop wrt p nn b = Some (Ret (drop n p, nn + n, b1))"
    using True n0 wr n by (subst Write_loop.simps) (simp add: b1_def)
  moreover have "Writer_took sent n p b b1"
    using ok n0 n write_sent [OF wr] by (auto simp: Writer_took_def Writer_ok_def Writer_out_def b1_def)
  moreover have "wr_err b1 = None \<longrightarrow> length p - n \<le> Writer_Available b1"
    using write_short [OF wr] n by (cases "n = length p") (auto simp: b1_def)
  ultimately show ?thesis by (intro exI [of _ n] exI [of _ b1]) simp
qed

lemma Write_loop_spec:
  assumes ok: "Writer_ok b"
  shows "\<exists>k b'. Write_loop wrt p nn b = Some (Ret (drop k p, nn + k, b')) \<and> Writer_took sent k p b b' \<and>
    (wr_err b' = None \<longrightarrow> length p - k \<le> Writer_Available b')"
proof (cases "length p > Writer_Available b \<and> wr_err b = None \<and> wr_n b \<noteq> 0")
  case False
  then consider "wr_n b = 0" | "\<not> (length p > Writer_Available b \<and> wr_err b = None)" by blast
  then show ?thesis
  proof cases
    case 1
    then show ?thesis using Write_loop_empty [OF ok] by blast
  next
    case 2
    then show ?thesis
      using ok by (intro exI [of _ 0] exI [of _ b])
        (auto simp: Write_loop.simps [of wrt p] Writer_took_def)
  qed
next
  case True
  define j where "j = append_count b p"
  obtain e b1 where fl: "Writer_flush wrt (append_buf b p) = (e, b1)"
    by (cases "Writer_flush wrt (append_buf b p)") auto
  note fs = flush_spec [OF append_buf_out(2) [OF ok, of p] fl]
  have step: "Write_loop wrt p nn b = Write_loop wrt (drop j p) (nn + j) b1"
    using True fl by (subst Write_loop.simps) (simp add: j_def)
  have tk: "Writer_took sent j p b b1"
    using fs append_buf_out [OF ok] ok
    by (auto simp: Writer_took_def j_def append_count_def Writer_ok_def)
  show ?thesis
  proof (cases "wr_err b1")
    case (Some er)
    then have "Write_loop wrt p nn b = Some (Ret (drop j p, nn + j, b1))"
      unfolding step by (subst Write_loop.simps) simp
    then show ?thesis using tk Some by (intro exI [of _ j] exI [of _ b1]) simp
  next
    case None
    then have "wr_n b1 = 0" using fs by simp
    obtain k b2 where k: "Write_loop wrt (drop j p) (nn + j) b1 = Some (Ret (drop k (drop j p), nn + j + k, b2))"
      and tk2: "Writer_took sent k (drop j p) b1 b2"
      and av: "wr_err b2 = None \<longrightarrow> length (drop j p) - k \<le> Writer_Available b2"
      using Write_loop_empty [OF fs(2) \<open>wr_n b1 = 0\<close>, of "drop j p" "nn + j"]
      by (elim exE conjE) (rule that)
    show ?thesis
      using k Writer_took_trans [OF tk tk2] av
      by (intro exI [of _ "j + k"] exI [of _ b2]) (simp add: step add.commute add.left_commute)
  qed
qed

lemma Write_spec:
  assumes ok: "Writer_ok b"
  shows "\<exists>k e b'. Writer_Write wrt p b = Some (Ret (k, e, b')) \<and> Writer_took sent k p b b' \<and>
    e = wr_err b' \<and> (e = None \<longrightarrow> k = length p)"
proof -
  obtain k b1 where lp: "Write_loop wrt p 0 b = Some (Ret (drop k p, 0 + k, b1))"
    and tk: "Writer_took sent k p b b1"
    and av: "wr_err b1 = None \<longrightarrow> length p - k \<le> Writer_Available b1"
    using Write_loop_spec [OF ok, of p 0] by (elim exE conjE) (rule that)
  show ?thesis
  proof (cases "wr_err b1")
    case (Some er)
    then show ?thesis using lp tk by (intro exI [of _ k] exI [of _ "Some er"] exI [of _ b1])
        (simp add: Writer_Write_def)
  next
    case None
    have "append_count b1 (drop k p) = length p - k" using av None by (simp add: append_count_def)
    moreover have "k \<le> length p" using tk by (simp add: Writer_took_def)
    ultimately show ?thesis
      using lp None Writer_took_trans [OF tk append_buf_took [of b1 sent "drop k p"]] tk
      by (intro exI [of _ "length p"] exI [of _ None] exI [of _ "append_buf b1 (drop k p)"])
        (simp add: Writer_Write_def Writer_took_ok)
  qed
qed

lemma WriteRaw_spec:
  assumes ok: "Writer_ok b"
  shows "\<exists>k e b'. Writer_WriteRaw wrt p b = Some (Ret (k, e, b')) \<and> Writer_took sent k p b b' \<and>
    e = wr_err b' \<and> (e = None \<longrightarrow> k = length p \<and> (wr_n b = 0 \<longrightarrow> wr_n b' = 0))"
proof -
  consider "wr_err b \<noteq> None" | "wr_err b = None" "wr_n b = 0" | "wr_err b = None" "wr_n b \<noteq> 0" by blast
  then show ?thesis
  proof cases
    case 1
    then show ?thesis using ok
      by (intro exI [of _ 0] exI [of _ "wr_err b"] exI [of _ b])
        (auto simp: Writer_WriteRaw_def Writer_took_def)
  next
    case 2
    obtain s n e where wr: "wrt (wr_wr b) p = (s, n, e)" by (cases "wrt (wr_wr b) p") auto
    show ?thesis
      using 2 wr ok write_count [OF wr] write_sent [OF wr] write_short [OF wr]
      by (cases "n = length p"; intro exI [of _ n] exI [of _ e] exI [of _ "b\<lparr>wr_wr := s, wr_err := e\<rparr>"];
        auto simp: Writer_WriteRaw_def Writer_Buffered_def Writer_took_def Writer_ok_def Writer_out_def)
  next
    case 3
    then have eq: "Writer_WriteRaw wrt p b = Writer_Write wrt p b"
      by (simp add: Writer_WriteRaw_def Writer_Buffered_def)
    show ?thesis unfolding eq using Write_spec [OF ok, of p] 3 by simp
  qed
qed

text \<open>One flush makes all the room \<open>Peek\<close> can ask for, or leaves an error.\<close>

lemma Peek_loop_took:
  assumes ok: "Writer_ok b" and n: "n \<le> length (wr_buf b)" and b': "b' = Writer_Peek_loop wrt n b"
  shows "Writer_took sent 0 [] b b'" and "wr_err b' = None \<Longrightarrow> n \<le> Writer_Available b'"
proof -
  obtain e b1 where fl: "Writer_flush wrt b = (e, b1)" by (cases "Writer_flush wrt b") auto
  note fs = flush_spec [OF ok fl]
  have "wr_err b1 \<noteq> None \<or> wr_n b1 = 0" using fs(3,4) by (cases "wr_err b1") simp_all
  then have stop: "Writer_Peek_loop wrt n b1 = b1"
    using n fs(5) by (subst Writer_Peek_loop.simps) (auto simp: Writer_Available_def)
  have b'_cases: "b' = (if Writer_Available b < n \<and> wr_err b = None then b1 else b)"
    using b' stop n fs(3,4) fl by (subst (asm) Writer_Peek_loop.simps) (auto split: if_splits)
  show "Writer_took sent 0 [] b b'"
    using b'_cases fs ok by (auto simp: Writer_took_def)
  show "wr_err b' = None \<Longrightarrow> n \<le> Writer_Available b'"
    using b'_cases fs n by (auto simp: Writer_Available_def split: if_splits)
qed

text \<open>\<open>Peek\<close> followed by filling the window is an append.\<close>

lemma Peek_poke_spec:
  assumes ok: "Writer_ok b" and pk: "Writer_Peek wrt n b = (off, None, b')" and len: "length bs = nat n"
  shows "Writer_took sent (length bs) bs b (Writer_poke off bs b')"
    and "off + length bs = wr_n b'" and "wr_err b' = None" and "Writer_ok b'"
proof -
  define b1 where "b1 = Writer_Peek_loop wrt (nat n) b"
  have n: "0 \<le> n" "nat n \<le> length (wr_buf b)" and e1: "wr_err b1 = None"
    and b': "b' = b1\<lparr>wr_n := wr_n b1 + nat n\<rparr>" and off: "off = wr_n b1"
    using pk by (auto simp: Writer_Peek_def b1_def Let_def split: if_splits)
  note pt = Peek_loop_took [OF ok n(2) b1_def]
  show ok': "Writer_ok b'"
    using pt(2) [OF e1] pt(1) b' by (auto simp: Writer_ok_def Writer_Available_def Writer_took_def)
  show sum: "off + length bs = wr_n b'" and "wr_err b' = None" using b' off len e1 by auto
  show "Writer_took sent (length bs) bs b (Writer_poke off bs b')"
    using pt(1) poke_out(1) [OF ok' sum, where sent = sent] poke_out(2) [OF ok' sum] b' off ok'
    by (auto simp: Writer_took_def Writer_out_def Writer_ok_def)
qed

lemma Peek_error_spec:
  assumes ok: "Writer_ok b" and pk: "Writer_Peek wrt n b = (off, Some e, b')"
  shows "Writer_took sent 0 [] b b'"
    and "n < 0 \<and> e = Bufio ErrNegativeCount \<or> n > int (length (wr_buf b)) \<and> e = Bufio ErrBufferFull \<or>
      wr_err b' = Some e"
proof -
  show "Writer_took sent 0 [] b b'"
  proof (cases "n < 0 \<or> n > int (length (wr_buf b))")
    case True
    then show ?thesis using pk ok by (auto simp: Writer_Peek_def Writer_took_def split: if_splits)
  next
    case False
    then have "nat n \<le> length (wr_buf b)" by arith
    with False show ?thesis
      using pk Peek_loop_took(1) [OF ok _ refl, of "nat n"]
      by (auto simp: Writer_Peek_def Let_def split: if_splits)
  qed
  show "n < 0 \<and> e = Bufio ErrNegativeCount \<or> n > int (length (wr_buf b)) \<and> e = Bufio ErrBufferFull \<or>
      wr_err b' = Some e"
    using pk by (auto simp: Writer_Peek_def Let_def split: if_splits)
qed

text \<open>
  \<open>WriteString\<close> returns whenever the buffer is not empty (with an empty one its loop would copy and
  flush nothing for ever).
\<close>

lemma WriteString_loop_spec:
  assumes ok: "Writer_ok b" and nz: "wr_buf b \<noteq> []"
  shows "\<exists>k b'. WriteString_loop wrt s nn b = Some (drop k s, nn + k, b') \<and> Writer_took sent k s b b' \<and>
    (wr_err b' = None \<longrightarrow> length s - k \<le> Writer_Available b')"
  using assms
proof (induction "length s + (if wr_n b = 0 then 0 else 1)" arbitrary: s nn b rule: less_induct)
  case less
  show ?case
  proof (cases "length s > Writer_Available b \<and> wr_err b = None")
    case False
    then show ?thesis
      using less.prems by (intro exI [of _ 0] exI [of _ b])
        (auto simp: WriteString_loop.simps [of wrt s] Writer_took_def)
  next
    case True
    define j where "j = append_count b s"
    obtain e b1 where fl: "Writer_flush wrt (append_buf b s) = (e, b1)"
      by (cases "Writer_flush wrt (append_buf b s)") auto
    note fs = flush_spec [OF append_buf_out(2) [OF less.prems(1), of s] fl]
    have step: "WriteString_loop wrt s nn b = WriteString_loop wrt (drop j s) (nn + j) b1"
      using True fl by (subst WriteString_loop.simps) (simp add: j_def)
    have tk: "Writer_took sent j s b b1"
      using fs append_buf_out [OF less.prems(1)] less.prems(1)
      by (auto simp: Writer_took_def j_def append_count_def Writer_ok_def)
    show ?thesis
    proof (cases "wr_err b1")
      case (Some er)
      then have "WriteString_loop wrt s nn b = Some (drop j s, nn + j, b1)"
        unfolding step by (subst WriteString_loop.simps) simp
      then show ?thesis using tk Some by (intro exI [of _ j] exI [of _ b1]) simp
    next
      case None
      have n1: "wr_n b1 = 0" using None fs by simp
      have ne: "wr_buf b1 \<noteq> []" using tk less.prems(2) by (auto simp: Writer_took_def)
      have j0: "wr_n b = 0 \<Longrightarrow> 0 < j"
        using True less.prems(2) by (auto simp: j_def append_count_def Writer_Available_def)
      have jl: "j < length s" "length (drop j s) = length s - j"
        using True by (auto simp: j_def append_count_def)
      have dec: "length (drop j s) + (if wr_n b1 = 0 then 0 else 1) < length s + (if wr_n b = 0 then 0 else 1)"
        using n1 j0 jl by auto
      obtain k b2 where k: "WriteString_loop wrt (drop j s) (nn + j) b1 = Some (drop k (drop j s), nn + j + k, b2)"
        and tk2: "Writer_took sent k (drop j s) b1 b2"
        and av: "wr_err b2 = None \<longrightarrow> length (drop j s) - k \<le> Writer_Available b2"
        using less.hyps [OF dec fs(2) ne, of "nn + j"] by (elim exE conjE) (rule that)
      show ?thesis
        using k Writer_took_trans [OF tk tk2] av
        by (intro exI [of _ "j + k"] exI [of _ b2]) (simp add: step add.commute add.left_commute)
    qed
  qed
qed

lemma WriteString_spec:
  assumes ok: "Writer_ok b" and nz: "wr_buf b \<noteq> []"
  shows "\<exists>k e b'. Writer_WriteString wrt s b = Some (k, e, b') \<and> Writer_took sent k s b b' \<and>
    e = wr_err b' \<and> (e = None \<longrightarrow> k = length s)"
proof -
  obtain k b1 where lp: "WriteString_loop wrt s 0 b = Some (drop k s, 0 + k, b1)"
    and tk: "Writer_took sent k s b b1"
    and av: "wr_err b1 = None \<longrightarrow> length s - k \<le> Writer_Available b1"
    using WriteString_loop_spec [OF ok nz, of s 0] by (elim exE conjE) (rule that)
  show ?thesis
  proof (cases "wr_err b1")
    case (Some er)
    then show ?thesis using lp tk by (intro exI [of _ k] exI [of _ "Some er"] exI [of _ b1])
        (simp add: Writer_WriteString_def)
  next
    case None
    have "append_count b1 (drop k s) = length s - k" using av None by (simp add: append_count_def)
    moreover have "k \<le> length s" using tk by (simp add: Writer_took_def)
    ultimately show ?thesis
      using lp None Writer_took_trans [OF tk append_buf_took [of b1 sent "drop k s"]] tk
      by (intro exI [of _ "length s"] exI [of _ None] exI [of _ "append_buf b1 (drop k s)"])
        (simp add: Writer_WriteString_def Writer_took_ok)
  qed
qed

end

text \<open>Once an error is recorded, nothing more reaches the underlying writer.\<close>

lemma Writer_error_sticky:
  assumes "wr_err b = Some e"
  shows "Writer_Flush wrt b = (Some e, b)" and "Writer_Write wrt p b = Some (Ret (0, Some e, b))"
    and "Writer_WriteRaw wrt p b = Some (Ret (0, Some e, b))"
    and "Writer_WriteString wrt p b = Some (0, Some e, b)"
  using assms
  by (simp_all add: Writer_Flush_def Writer_flush_def Writer_Write_def Write_loop.simps [of wrt p]
      Writer_WriteRaw_def Writer_WriteString_def WriteString_loop.simps [of wrt p])

section \<open>A connection\<close>

text \<open>
  The sending side of a connection whose peer takes \<open>quota\<close> more bytes before the write fails, and
  the log of what it took.
\<close>

record conn_out =
  co_quota :: nat
  co_log :: "byte list"

definition conn_write :: "conn_out io_write" where
  "conn_write c p =
     (let n = min (co_quota c) (length p)
      in (\<lparr>co_quota = co_quota c - n, co_log = co_log c @ take n p\<rparr>, n,
          if n < length p then Some (External 0) else None))"

interpretation conn_out: io_writer conn_write co_log
  by unfold_locales (auto simp: conn_write_def Let_def split: if_splits)

section \<open>Properties\<close>

text \<open>
  C23 (buffered writes). On any writer that keeps the contract of \<open>io.Writer\<close>, \<open>Write\<close> returns (its loop
  ends), the count it returns is the length of the prefix of \<open>p\<close> that was appended to everything
  written before (sent or still buffered), and it reports no error exactly when that is all of \<open>p\<close>
  and no error is pending.
\<close>

theorem Write_appends:
  assumes "io_writer wrt sent" and "Writer_ok b"
  shows "\<exists>k e b'. Writer_Write wrt p b = Some (Ret (k, e, b')) \<and> Writer_ok b' \<and> k \<le> length p \<and>
    Writer_out sent b' = Writer_out sent b @ take k p \<and> e = wr_err b' \<and> (e = None \<longrightarrow> k = length p)"
  using io_writer.Write_spec [OF assms, of p] unfolding Writer_took_def
  by (elim exE conjE) (intro exI conjI; assumption)

theorem Write_appends_witness:
  "\<exists>k e b'. Writer_Write conn_write [3, 4, 5, 6, 7]
      \<lparr>wr_err = None, wr_buf = [1, 2, 0], wr_n = 2, wr_wr = \<lparr>co_quota = 100, co_log = []\<rparr>\<rparr> = Some (Ret (k, e, b')) \<and>
    Writer_out co_log b' = [1, 2] @ take k [3, 4, 5, 6, 7] \<and> (e = None \<longrightarrow> k = 5)"
  using Write_appends [OF conn_out.io_writer_axioms,
      of "\<lparr>wr_err = None, wr_buf = [1, 2, 0], wr_n = 2, wr_wr = \<lparr>co_quota = 100, co_log = []\<rparr>\<rparr>" "[3, 4, 5, 6, 7]"]
  by (auto simp: Writer_ok_def Writer_out_def)

text \<open>
  Peek and fill: When \<open>Peek(n)\<close> of the writer gives a window and the caller fills it, exactly
  those \<open>n\<close> bytes follow everything written before, whatever had to be flushed to make room.
\<close>

lemma Peek_window:
  assumes "io_writer wrt sent" and "Writer_ok b" and "Writer_Peek wrt n b = (off, None, b')"
    and "length bs = nat n"
  shows "Writer_out sent (Writer_poke off bs b') = Writer_out sent b @ bs \<and> Writer_ok (Writer_poke off bs b')"
  using io_writer.Peek_poke_spec(1) [OF assms] by (simp_all add: Writer_took_def)

lemma Peek_window_witness:
  "Writer_out co_log (Writer_poke 0 [8, 9] (snd (snd (Writer_Peek conn_write 2
      \<lparr>wr_err = None, wr_buf = [1, 2, 0], wr_n = 2, wr_wr = \<lparr>co_quota = 100, co_log = []\<rparr>\<rparr>)))) = [1, 2] @ [8, 9]"
proof -
  let ?b = "\<lparr>wr_err = None, wr_buf = [1, 2, 0], wr_n = 2, wr_wr = \<lparr>co_quota = 100, co_log = []\<rparr>\<rparr> :: conn_out Writer"
  have fl: "Writer_flush conn_write ?b = (None, ?b\<lparr>wr_n := 0, wr_wr := \<lparr>co_quota = 98, co_log = [1, 2]\<rparr>\<rparr>)"
    by (simp add: Writer_flush_def conn_write_def)
  have "Writer_Peek conn_write 2 ?b = (0, None, ?b\<lparr>wr_n := 2, wr_wr := \<lparr>co_quota = 98, co_log = [1, 2]\<rparr>\<rparr>)"
    using fl by (simp add: Writer_Peek_def Writer_Peek_loop.simps Writer_Available_def)
  then show ?thesis
    using Peek_window [OF conn_out.io_writer_axioms, of ?b 2 0 _ "[8, 9]"]
    by (simp add: Writer_ok_def Writer_out_def)
qed

text \<open>
  WriteString. With a buffer that is not empty, \<open>WriteString\<close> returns, and what it took is
  appended as by \<open>Write\<close>.
\<close>

theorem WriteString_appends:
  assumes "io_writer wrt sent" and "Writer_ok b" and "wr_buf b \<noteq> []"
  shows "\<exists>k e b'. Writer_WriteString wrt s b = Some (k, e, b') \<and> Writer_ok b' \<and> k \<le> length s \<and>
    Writer_out sent b' = Writer_out sent b @ take k s \<and> e = wr_err b' \<and> (e = None \<longrightarrow> k = length s)"
  using io_writer.WriteString_spec [OF assms, of s] unfolding Writer_took_def
  by (elim exE conjE) (intro exI conjI; assumption)

theorem WriteString_appends_witness:
  "\<exists>k e b'. Writer_WriteString conn_write [72, 105, 33]
      \<lparr>wr_err = None, wr_buf = [0, 0], wr_n = 0, wr_wr = \<lparr>co_quota = 2, co_log = []\<rparr>\<rparr> = Some (k, e, b') \<and>
    Writer_out co_log b' = take k [72, 105, 33]"
  using WriteString_appends [OF conn_out.io_writer_axioms,
      of "\<lparr>wr_err = None, wr_buf = [0, 0], wr_n = 0, wr_wr = \<lparr>co_quota = 2, co_log = []\<rparr>\<rparr>" "[72, 105, 33]"]
  by (auto simp: Writer_ok_def Writer_out_def)

end
