(* ===== verification/Endian.thy ===== *)
theory Endian
  imports Prelude
begin

unbundle bit_operations_syntax

text \<open>
  \<open>pkg/encoding/binary\<close>: the big-endian accessors of \<open>endian.go\<close>, and the four accessors of
  the standard library's \<open>encoding/binary\<close> that the WebSocket code calls. A read or write past
  the end of the slice panics. \<open>sub_put\<close> is a write through the tail \<open>buf[k:]\<close> of a slice.
\<close>

section \<open>Accessors\<close>

definition BigEndian_Int8 :: "byte list \<Rightarrow> byte outcome" where
  "BigEndian_Int8 b = (if 0 < length b then Ret (b ! 0) else Panic IndexOutOfRange)"

definition BigEndian_PutInt8 :: "byte list \<Rightarrow> byte \<Rightarrow> byte list outcome" where
  "BigEndian_PutInt8 b v = (if 0 < length b then Ret (b[0 := v]) else Panic IndexOutOfRange)"

definition BigEndian_Int16 :: "byte list \<Rightarrow> int16 outcome" where
  "BigEndian_Int16 b =
     (if 1 < length b then Ret (ucast (b ! 1) OR push_bit 8 (ucast (b ! 0)))
      else Panic IndexOutOfRange)"

definition BigEndian_PutInt16 :: "byte list \<Rightarrow> int16 \<Rightarrow> byte list outcome" where
  "BigEndian_PutInt16 b v =
     (if 1 < length b then Ret (b[0 := ucast (signed_drop_bit 8 v), 1 := ucast v])
      else Panic IndexOutOfRange)"

definition BigEndian_Int32 :: "byte list \<Rightarrow> int32 outcome" where
  "BigEndian_Int32 b =
     (if 3 < length b
      then Ret (ucast (b ! 3) OR push_bit 8 (ucast (b ! 2)) OR push_bit 16 (ucast (b ! 1))
                OR push_bit 24 (ucast (b ! 0)))
      else Panic IndexOutOfRange)"

definition BigEndian_PutInt32 :: "byte list \<Rightarrow> int32 \<Rightarrow> byte list outcome" where
  "BigEndian_PutInt32 b v =
     (if 3 < length b
      then Ret (b[0 := ucast (signed_drop_bit 24 v), 1 := ucast (signed_drop_bit 16 v),
                  2 := ucast (signed_drop_bit 8 v), 3 := ucast v])
      else Panic IndexOutOfRange)"

text \<open>The standard library's unsigned accessors.\<close>

definition std_Uint16 :: "byte list \<Rightarrow> 16 word outcome" where
  "std_Uint16 b =
     (if 1 < length b then Ret (ucast (b ! 1) OR push_bit 8 (ucast (b ! 0)))
      else Panic IndexOutOfRange)"

definition std_PutUint16 :: "byte list \<Rightarrow> 16 word \<Rightarrow> byte list outcome" where
  "std_PutUint16 b v =
     (if 1 < length b then Ret (b[0 := ucast (drop_bit 8 v), 1 := ucast v])
      else Panic IndexOutOfRange)"

definition std_Uint64 :: "byte list \<Rightarrow> uint64 outcome" where
  "std_Uint64 b =
     (if 7 < length b
      then Ret (ucast (b ! 7) OR push_bit 8 (ucast (b ! 6)) OR push_bit 16 (ucast (b ! 5))
                OR push_bit 24 (ucast (b ! 4)) OR push_bit 32 (ucast (b ! 3))
                OR push_bit 40 (ucast (b ! 2)) OR push_bit 48 (ucast (b ! 1))
                OR push_bit 56 (ucast (b ! 0)))
      else Panic IndexOutOfRange)"

definition std_PutUint64 :: "byte list \<Rightarrow> uint64 \<Rightarrow> byte list outcome" where
  "std_PutUint64 b v =
     (if 7 < length b
      then Ret (b[0 := ucast (drop_bit 56 v), 1 := ucast (drop_bit 48 v),
                  2 := ucast (drop_bit 40 v), 3 := ucast (drop_bit 32 v),
                  4 := ucast (drop_bit 24 v), 5 := ucast (drop_bit 16 v),
                  6 := ucast (drop_bit 8 v), 7 := ucast v])
      else Panic IndexOutOfRange)"

text \<open>\<open>put(buf[k:])\<close>: the tail of the slice shares its array, so the write shows in \<open>buf\<close>.\<close>

definition sub_put :: "nat \<Rightarrow> (byte list \<Rightarrow> byte list outcome) \<Rightarrow> byte list \<Rightarrow> byte list outcome" where
  "sub_put k put b =
     (if k \<le> length b then obind (put (drop k b)) (\<lambda>t. Ret (take k b @ t))
      else Panic SliceBounds)"

section \<open>Encodings as byte lists\<close>

definition be16 :: "16 word \<Rightarrow> byte list" where
  "be16 v = [ucast (drop_bit 8 v), ucast v]"

definition be32 :: "32 word \<Rightarrow> byte list" where
  "be32 v = [ucast (drop_bit 24 v), ucast (drop_bit 16 v), ucast (drop_bit 8 v), ucast v]"

definition be64 :: "64 word \<Rightarrow> byte list" where
  "be64 v = [ucast (drop_bit 56 v), ucast (drop_bit 48 v), ucast (drop_bit 40 v),
             ucast (drop_bit 32 v), ucast (drop_bit 24 v), ucast (drop_bit 16 v),
             ucast (drop_bit 8 v), ucast v]"

lemma length_be16 [simp]: "length (be16 v) = 2"
  by (simp add: be16_def)

lemma length_be32 [simp]: "length (be32 v) = 4"
  by (simp add: be32_def)

lemma length_be64 [simp]: "length (be64 v) = 8"
  by (simp add: be64_def)

text \<open>
  Truncating an arithmetic right shift to the bits it keeps gives the same byte as the
  logical shift: the sign bits that shift in are cut off.
\<close>

lemma ucast_signed_drop_bit:
  fixes v :: "'a::len word"
  assumes "LENGTH('b) + k \<le> LENGTH('a)"
  shows "(ucast (signed_drop_bit k v) :: 'b::len word) = ucast (drop_bit k v)"
  using assms
  by (intro bit_eqI) (auto simp: bit_simps min_def)

lemma PutInt16_eq: "2 \<le> length b \<Longrightarrow> BigEndian_PutInt16 b v = Ret (be16 v @ drop 2 b)"
  by (cases b; cases "tl b")
     (auto simp: BigEndian_PutInt16_def be16_def ucast_signed_drop_bit)

lemma PutInt32_eq: "4 \<le> length b \<Longrightarrow> BigEndian_PutInt32 b v = Ret (be32 v @ drop 4 b)"
  by (cases b; cases "tl b"; cases "tl (tl b)"; cases "tl (tl (tl b))")
     (auto simp: BigEndian_PutInt32_def be32_def ucast_signed_drop_bit numeral_3_eq_3 numeral_2_eq_2)

lemma PutUint16_eq: "2 \<le> length b \<Longrightarrow> std_PutUint16 b v = Ret (be16 v @ drop 2 b)"
  by (cases b; cases "tl b") (auto simp: std_PutUint16_def be16_def)

text \<open>Reading is joining: each further byte extends the low bits already read.\<close>

lemma ucast_byte_bits: "(ucast (ucast x :: byte) :: 'a::len word) = take_bit 8 (ucast x)"
  by (intro bit_eqI) (auto simp: bit_simps)

lemma take_bit_join:
  "take_bit a v OR push_bit a (take_bit b (drop_bit a v)) = take_bit (a + b) (v :: 'a::len word)"
  by (intro bit_eqI) (auto simp: bit_simps)

lemma be16_decode:
  "ucast (ucast v :: byte) OR push_bit 8 (ucast (ucast (drop_bit 8 v) :: byte)) = (v :: 16 word)"
  by (simp add: ucast_byte_bits take_bit_join take_bit_word_eq_self)

lemma be32_decode:
  "ucast (ucast v :: byte) OR push_bit 8 (ucast (ucast (drop_bit 8 v) :: byte))
   OR push_bit 16 (ucast (ucast (drop_bit 16 v) :: byte))
   OR push_bit 24 (ucast (ucast (drop_bit 24 v) :: byte)) = (v :: 32 word)"
  by (simp add: ucast_byte_bits take_bit_join take_bit_word_eq_self or.assoc [symmetric]
      del: push_bit_take_bit)

lemma be64_decode:
  "ucast (ucast v :: byte) OR push_bit 8 (ucast (ucast (drop_bit 8 v) :: byte))
   OR push_bit 16 (ucast (ucast (drop_bit 16 v) :: byte))
   OR push_bit 24 (ucast (ucast (drop_bit 24 v) :: byte))
   OR push_bit 32 (ucast (ucast (drop_bit 32 v) :: byte))
   OR push_bit 40 (ucast (ucast (drop_bit 40 v) :: byte))
   OR push_bit 48 (ucast (ucast (drop_bit 48 v) :: byte))
   OR push_bit 56 (ucast (ucast (drop_bit 56 v) :: byte)) = (v :: 64 word)"
  by (simp add: ucast_byte_bits take_bit_join take_bit_word_eq_self or.assoc [symmetric]
      del: push_bit_take_bit)

lemma Int16_be16 [simp]: "BigEndian_Int16 (be16 v @ r) = Ret v"
  using be16_decode [of v] by (simp add: BigEndian_Int16_def be16_def)

lemma Int32_be32 [simp]: "BigEndian_Int32 (be32 v @ r) = Ret v"
  using be32_decode [of v] by (simp add: BigEndian_Int32_def be32_def numeral_3_eq_3 numeral_2_eq_2)

lemma Uint16_be16 [simp]: "std_Uint16 (be16 v @ r) = Ret v"
  using be16_decode [of v] by (simp add: std_Uint16_def be16_def)

lemma Uint64_be64 [simp]: "std_Uint64 (be64 v @ r) = Ret v"
  using be64_decode [of v] by (simp add: std_Uint64_def be64_def)

lemma PutUint64_eq: "8 \<le> length b \<Longrightarrow> std_PutUint64 b v = Ret (be64 v @ drop 8 b)"
  by (auto simp: std_PutUint64_def be64_def Suc_le_length_iff numeral_eq_Suc)

section \<open>Writes through the tail of a slice\<close>

lemma sub_put_Int32:
  "k + 4 \<le> length b \<Longrightarrow>
   sub_put k (\<lambda>t. BigEndian_PutInt32 t v) b = Ret (take k b @ be32 v @ drop (k + 4) b)"
  by (simp add: sub_put_def PutInt32_eq add.commute)

lemma sub_put_Int16:
  "k + 2 \<le> length b \<Longrightarrow>
   sub_put k (\<lambda>t. BigEndian_PutInt16 t v) b = Ret (take k b @ be16 v @ drop (k + 2) b)"
  by (simp add: sub_put_def PutInt16_eq add.commute)

end
