(* ===== verification/Websocket_Conn.thy ===== *)
theory Websocket_Conn
  imports Bufio_Reader Bufio_Writer Endian
begin

text \<open>
  \<open>pkg/websocket/conn.go\<close>: frames over a buffered reader and a buffered writer. The connection's
  two directions have their own states, read by \<open>read\<close> and written by \<open>wrt\<close>. A payload is a slice of
  the reader's buffer: it is given by its bytes and by the bytes that lie behind it in the backing
  array (its spare capacity), which a later slice expression can reach.
\<close>

section \<open>Constants and state\<close>

definition finBit :: byte where "finBit = 128"
definition rsv1Bit :: byte where "rsv1Bit = 64"
definition rsv2Bit :: byte where "rsv2Bit = 32"
definition rsv3Bit :: byte where "rsv3Bit = 16"
definition opBit :: byte where "opBit = 15"
definition maskBit :: byte where "maskBit = 128"
definition lenBit :: byte where "lenBit = 127"
definition continuationFrame :: nat where "continuationFrame = 0"
definition continuationFrameMaxRead :: nat where "continuationFrameMaxRead = 100"
definition TextMessage :: nat where "TextMessage = 1"
definition BinaryMessage :: nat where "BinaryMessage = 2"
definition CloseMessage :: nat where "CloseMessage = 8"
definition PingMessage :: nat where "PingMessage = 9"
definition PongMessage :: nat where "PongMessage = 10"

record ('s, 't) Conn =
  ws_r :: "'s Reader"
  ws_w :: "'t Writer"
  ws_maskKey :: "byte list option"

definition newConn :: "'s Reader \<Rightarrow> 't Writer \<Rightarrow> ('s, 't) Conn" where
  "newConn r w = \<lparr>ws_r = r, ws_w = w, ws_maskKey = Some (replicate 4 0)\<rparr>"

text \<open>A byte slice with the elements between its length and its capacity.\<close>

type_synonym byte_slice = "byte list \<times> byte list"

section \<open>Writing\<close>

text \<open>\<open>put(h, v)\<close> on the window \<open>h\<close> of \<open>n\<close> bytes at offset \<open>off\<close> of the writer's buffer.\<close>

definition Writer_put :: "nat \<Rightarrow> nat \<Rightarrow> (byte list \<Rightarrow> byte list outcome) \<Rightarrow> 't Writer \<Rightarrow> 't Writer outcome" where
  "Writer_put off n put w =
     obind (put (seg (wr_buf w) off (off + n))) (\<lambda>h. Ret (Writer_poke off h w))"

definition Conn_WriteHeader ::
    "'t io_write \<Rightarrow> int \<Rightarrow> int \<Rightarrow> ('s, 't) Conn \<Rightarrow> (error option \<times> ('s, 't) Conn) outcome" where
  "Conn_WriteHeader wrt msgType len c =
     (case Writer_Peek wrt 2 (ws_w c) of (off, err, w) \<Rightarrow>
        if err \<noteq> None then Ret (err, c\<lparr>ws_w := w\<rparr>)
        else
          let h0 = finBit OR word_of_int msgType in
          if len \<le> 125 then Ret (None, c\<lparr>ws_w := Writer_poke off [h0, word_of_int len] w\<rparr>)
          else if len < 65536 then
            (case Writer_Peek wrt 2 (Writer_poke off [h0, 126] w) of (off', err', w') \<Rightarrow>
               if err' \<noteq> None then Ret (err', c\<lparr>ws_w := w'\<rparr>)
               else obind (Writer_put off' 2 (\<lambda>h. std_PutUint16 h (word_of_int len)) w')
                      (\<lambda>w''. Ret (None, c\<lparr>ws_w := w''\<rparr>)))
          else
            (case Writer_Peek wrt 8 (Writer_poke off [h0, 127] w) of (off', err', w') \<Rightarrow>
               if err' \<noteq> None then Ret (err', c\<lparr>ws_w := w'\<rparr>)
               else obind (Writer_put off' 8 (\<lambda>h. std_PutUint64 h (word_of_int len)) w')
                      (\<lambda>w''. Ret (None, c\<lparr>ws_w := w''\<rparr>))))"

definition Conn_WriteBody ::
    "'t io_write \<Rightarrow> byte list \<Rightarrow> ('s, 't) Conn \<Rightarrow> (error option \<times> ('s, 't) Conn) run" where
  "Conn_WriteBody wrt b c =
     (if length b > 0
      then rbind (Writer_Write wrt b (ws_w c)) (\<lambda>(_, err, w). Some (Ret (err, c\<lparr>ws_w := w\<rparr>)))
      else Some (Ret (None, c)))"

definition Conn_WriteMessage ::
    "'t io_write \<Rightarrow> int \<Rightarrow> byte list \<Rightarrow> ('s, 't) Conn \<Rightarrow> (error option \<times> ('s, 't) Conn) run" where
  "Conn_WriteMessage wrt msgType msg c =
     rbind (Some (Conn_WriteHeader wrt msgType (int (length msg)) c)) (\<lambda>(err, c1).
       if err \<noteq> None then Some (Ret (err, c1)) else Conn_WriteBody wrt msg c1)"

definition Conn_Peek ::
    "'t io_write \<Rightarrow> int \<Rightarrow> ('s, 't) Conn \<Rightarrow> nat \<times> error option \<times> ('s, 't) Conn" where
  "Conn_Peek wrt n c = (case Writer_Peek wrt n (ws_w c) of (off, err, w) \<Rightarrow> (off, err, c\<lparr>ws_w := w\<rparr>))"

definition Conn_Flush :: "'t io_write \<Rightarrow> ('s, 't) Conn \<Rightarrow> error option \<times> ('s, 't) Conn" where
  "Conn_Flush wrt c = (case Writer_Flush wrt (ws_w c) of (err, w) \<Rightarrow> (err, c\<lparr>ws_w := w\<rparr>))"

section \<open>Reading\<close>

text \<open>The bytes of \<open>b\<close> after the loop, and the position returned.\<close>

fun maskBytes :: "byte list \<Rightarrow> nat \<Rightarrow> byte list \<Rightarrow> (byte list \<times> nat) outcome" where
  "maskBytes key pos [] = Ret ([], pos AND 3)"
| "maskBytes key pos (x # b) =
     (if pos AND 3 < length key
      then obind (maskBytes key (pos + 1) b) (\<lambda>(b', p). Ret ((x XOR key ! (pos AND 3)) # b', p))
      else Panic IndexOutOfRange)"

text \<open>The payload length, in the three sizes the second header byte selects (lines 209 to 226).\<close>

definition readFrame_len :: "'s io_read \<Rightarrow> byte \<Rightarrow> 's Reader \<Rightarrow> (int \<times> error option \<times> 's Reader) outcome" where
  "readFrame_len read l r =
     (if l = 126 then
        obind (Reader_Pop read 2 r) (\<lambda>(p, err, r').
          if err \<noteq> None then Ret (0, err, r')
          else obind (std_Uint16 p) (\<lambda>v. Ret (uint v, None, r')))
      else if l = 127 then
        obind (Reader_Pop read 8 r) (\<lambda>(p, err, r').
          if err \<noteq> None then Ret (0, err, r')
          else obind (std_Uint64 p) (\<lambda>v. Ret (sint v, None, r')))
      else Ret (uint l, None, r))"

text \<open>The mask key (lines 228 to 237): the reader, the error and the connection's key afterwards.\<close>

definition readFrame_mask ::
    "'s io_read \<Rightarrow> bool \<Rightarrow> byte list option \<Rightarrow> 's Reader \<Rightarrow> (byte list option \<times> error option \<times> 's Reader) outcome" where
  "readFrame_mask read masked key r =
     (if masked then
        obind (Reader_Pop read 4 r) (\<lambda>(k, err, r').
          if err \<noteq> None then Ret (key, err, r')
          else Ret (Some (copy_at (case key of None \<Rightarrow> replicate 4 0 | Some k0 \<Rightarrow> k0) 0 k), None, r'))
      else Ret (key, None, r))"

text \<open>
  The payload (lines 239 to 246). It is the window of the reader's buffer that ends at \<open>r\<close>, unmasked
  in place; behind it lie the rest of the buffer and what follows in the backing array.
\<close>

definition readFrame_payload ::
    "'s io_read \<Rightarrow> bool \<Rightarrow> byte list option \<Rightarrow> int \<Rightarrow> 's Reader \<Rightarrow> (byte_slice \<times> error option \<times> 's Reader) outcome" where
  "readFrame_payload read masked key n r =
     (if n > 0 then
        obind (Reader_Pop read n r) (\<lambda>(p, err, r').
          if err \<noteq> None then Ret ((p, []), err, r')
          else
            let spare = drop (rd_r r') (rd_buf r') @ rd_spare r' in
            if masked
            then obind (maskBytes (case key of None \<Rightarrow> [] | Some k \<Rightarrow> k) 0 p) (\<lambda>(p', _).
                   Ret ((p', spare), None, r'\<lparr>rd_buf := copy_at (rd_buf r') (rd_r r' - nat n) p'\<rparr>))
            else Ret ((p, spare), None, r'))
      else Ret (([], []), None, r))"

definition Conn_readFrame ::
    "'s io_read \<Rightarrow> ('s, 't) Conn \<Rightarrow> (bool \<times> nat \<times> byte_slice \<times> error option \<times> ('s, 't) Conn) outcome" where
  "Conn_readFrame read c =
     obind (Reader_ReadByte read (ws_r c)) (\<lambda>(b, err, r1).
     if err \<noteq> None then Ret (False, 0, ([], []), err, c\<lparr>ws_r := r1\<rparr>)
     else let fin = (b AND finBit \<noteq> 0) in
     if b AND (rsv1Bit OR rsv2Bit OR rsv3Bit) \<noteq> 0
     then Ret (False, 0, ([], []),
               Some (Errorf ''unexpected reserved bits rsv1=%d, rsv2=%d, rsv3=%d''), c\<lparr>ws_r := r1\<rparr>)
     else let op = unat (b AND opBit) in
     obind (Reader_ReadByte read r1) (\<lambda>(b, err, r2).
     if err \<noteq> None then Ret (fin, op, ([], []), err, c\<lparr>ws_r := r2\<rparr>)
     else let masked = (b AND maskBit \<noteq> 0) in
     obind (readFrame_len read (b AND lenBit) r2) (\<lambda>(payloadLen, err, r3).
     if err \<noteq> None then Ret (fin, op, ([], []), err, c\<lparr>ws_r := r3\<rparr>)
     else
     obind (readFrame_mask read masked (ws_maskKey c) r3) (\<lambda>(key, err, r4).
     if err \<noteq> None then Ret (fin, op, ([], []), err, c\<lparr>ws_r := r4\<rparr>)
     else
     obind (readFrame_payload read masked key payloadLen r4) (\<lambda>(payload, err, r5).
       Ret (fin, op, payload, err, c\<lparr>ws_r := r5, ws_maskKey := key\<rparr>))))))"

function ReadMessage_loop ::
    "(nat \<Rightarrow> nat \<Rightarrow> nat) \<Rightarrow> 's io_read \<Rightarrow> 't io_write \<Rightarrow> byte_slice \<Rightarrow> nat \<Rightarrow> nat \<Rightarrow> ('s, 't) Conn \<Rightarrow>
     (nat \<times> byte_slice \<times> error option \<times> ('s, 't) Conn) run" where
  "ReadMessage_loop newcap read wrt payload finOp n c =
     rbind (Some (Conn_readFrame read c)) (\<lambda>(fin, op, part, err, c1).
     if err \<noteq> None then Some (Ret (op, payload, err, c1))
     else
       let again = (\<lambda>payload finOp c.
             if n > continuationFrameMaxRead then Some (Ret (op, payload, Some (Websocket ErrMessageMaxRead), c))
             else ReadMessage_loop newcap read wrt payload finOp (n + 1) c)
       in
       if op = BinaryMessage \<or> op = TextMessage \<or> op = continuationFrame then
         if fin \<and> length (fst payload) = 0 then Some (Ret (op, part, None, c1))
         else
           let payload' = go_append newcap payload (fst part);
               finOp' = (if op \<noteq> continuationFrame then op else finOp)
           in if fin then Some (Ret (finOp', payload', None, c1)) else again payload' finOp' c1
       else if op = PingMessage then
         rbind (Conn_WriteMessage wrt (int PongMessage) (fst part) c1) (\<lambda>(err, c2).
           if err \<noteq> None then Some (Ret (op, payload, err, c2)) else again payload finOp c2)
       else if op = PongMessage then again payload finOp c1
       else if op = CloseMessage then Some (Ret (op, payload, Some (Websocket ErrMessageClose), c1))
       else Some (Ret (op, payload, Some (Errorf ''unknown control message, fin=%t, op=%d''), c1)))"
  by pat_completeness auto
termination
  by (relation "measure (\<lambda>(newcap, read, wrt, payload, finOp, n, c). continuationFrameMaxRead + 1 - n)") auto

declare ReadMessage_loop.simps [simp del]

definition Conn_ReadMessage ::
    "(nat \<Rightarrow> nat \<Rightarrow> nat) \<Rightarrow> 's io_read \<Rightarrow> 't io_write \<Rightarrow> ('s, 't) Conn \<Rightarrow>
     (nat \<times> byte_slice \<times> error option \<times> ('s, 't) Conn) run" where
  "Conn_ReadMessage newcap read wrt c = ReadMessage_loop newcap read wrt ([], []) 0 0 c"

section \<open>The wire format\<close>

text \<open>
  A frame as RFC 6455 lays it out: FIN and opcode, the mask bit with the length in one of three
  sizes, the mask key, the (masked) payload.
\<close>

definition frame_len :: "byte \<Rightarrow> nat \<Rightarrow> byte list" where
  "frame_len m n =
     (if n \<le> 125 then [m OR of_nat n]
      else if n < 65536 then (m OR 126) # be16 (of_nat n)
      else (m OR 127) # be64 (of_nat n))"

definition frame_head :: "bool \<Rightarrow> nat \<Rightarrow> byte list option \<Rightarrow> nat \<Rightarrow> byte list" where
  "frame_head fin op key n =
     ((if fin then finBit else 0) OR of_nat op) # frame_len (if key = None then 0 else maskBit) n @
     (case key of None \<Rightarrow> [] | Some k \<Rightarrow> k)"

fun xor_mask :: "byte list \<Rightarrow> nat \<Rightarrow> byte list \<Rightarrow> byte list" where
  "xor_mask key pos [] = []"
| "xor_mask key pos (x # b) = (x XOR key ! (pos mod 4)) # xor_mask key (Suc pos) b"

definition ws_frame :: "bool \<Rightarrow> nat \<Rightarrow> byte list option \<Rightarrow> byte list \<Rightarrow> byte list" where
  "ws_frame fin op key p =
     frame_head fin op key (length p) @ (case key of None \<Rightarrow> p | Some k \<Rightarrow> xor_mask k 0 p)"

lemma and_3_mod: "(n::nat) AND 3 = n mod 4"
  using take_bit_eq_mask [of 2 n] by (simp add: take_bit_eq_mod mask_eq_exp_minus_1)

lemma length_xor_mask [simp]: "length (xor_mask key pos b) = length b"
  by (induction key pos b rule: xor_mask.induct) auto

text \<open>Masking is its own inverse, and the loop computes it whenever the key has four bytes.\<close>

lemma xor_mask_twice [simp]: "xor_mask key pos (xor_mask key pos b) = b"
  by (induction key pos b rule: xor_mask.induct) (auto simp: xor.assoc)

lemma maskBytes_eq:
  "4 \<le> length key \<Longrightarrow> maskBytes key pos b = Ret (xor_mask key pos b, (pos + length b) mod 4)"
proof (induction key pos b rule: maskBytes.induct)
  case (2 key pos x b)
  have "pos mod 4 < length key" using "2.prems" by (meson less_le_trans mod_less_divisor zero_less_numeral)
  then show ?case using "2.IH" "2.prems" by (simp add: and_3_mod)
qed (simp add: and_3_mod)

section \<open>What writing a frame sends\<close>

lemma Writer_took_append:
  "Writer_took sent k p b b' \<Longrightarrow> Writer_took sent k (p @ q) b b'"
  by (auto simp: Writer_took_def)

lemma Writer_took_seq:
  assumes "Writer_took sent (length p) p b b1" and "Writer_took sent k q b1 b2"
  shows "Writer_took sent (length p + k) (p @ q) b b2"
  using Writer_took_trans [OF Writer_took_append [OF assms(1), of q]] assms(2) by simp

lemma Writer_took_none: "Writer_took sent 0 [] b b' \<Longrightarrow> Writer_took sent 0 p b b'"
  by (simp add: Writer_took_def)

lemma Writer_put_eq:
  assumes "put (seg (wr_buf w) off (off + n)) = Ret h"
  shows "Writer_put off n put w = Ret (Writer_poke off h w)"
  using assms by (simp add: Writer_put_def)

context io_writer
begin

text \<open>Peeking \<open>m\<close> bytes and encoding a value into the window appends the encoding, or nothing on error.\<close>

lemma Peek_put_spec:
  assumes ok: "Writer_ok w" and put: "\<And>h. length h = m \<Longrightarrow> put h = Ret bs" and bs: "length bs = m"
    and pk: "Writer_Peek wrt (int m) w = (off, e, w')"
  shows "if e = None then \<exists>w''. Writer_put off m put w' = Ret w'' \<and> Writer_took sent m bs w w''
    else Writer_took sent 0 [] w w'"
proof (cases e)
  case (Some er)
  then show ?thesis using Peek_error_spec(1) [OF ok] pk by simp
next
  case None
  note pp = Peek_poke_spec [OF ok pk [unfolded None], of bs]
  have "length (seg (wr_buf w') off (off + m)) = m"
    using pp(2,4) bs by (auto simp: Writer_ok_def)
  then have "Writer_put off m put w' = Ret (Writer_poke off bs w')"
    using put by (simp add: Writer_put_def)
  then show ?thesis using None pp(1) bs by simp
qed

lemma WriteHeader_spec:
  assumes ok: "Writer_ok (ws_w c)"
  shows "\<exists>k e w. Conn_WriteHeader wrt (int op) (int n) c = Ret (e, c\<lparr>ws_w := w\<rparr>) \<and>
    Writer_took sent k (frame_head True op None n) (ws_w c) w \<and>
    (e = None \<longrightarrow> k = length (frame_head True op None n))"
proof -
  define h0 :: byte where "h0 = finBit OR of_nat op"
  define hd where "hd = frame_head True op None n"
  obtain off e w where pk: "Writer_Peek wrt 2 (ws_w c) = (off, e, w)"
    by (cases "Writer_Peek wrt 2 (ws_w c)") auto
  show ?thesis
  proof (cases e)
    case (Some er)
    then show ?thesis
      using pk Peek_error_spec(1) [OF ok] by (intro exI [of _ 0] exI [of _ e] exI [of _ w])
        (simp add: Conn_WriteHeader_def Writer_took_none)
  next
    case None
    have two: "Writer_took sent (length [h0, x]) [h0, x] (ws_w c) (Writer_poke off [h0, x] w)" for x
      using Peek_poke_spec(1) [OF ok pk [unfolded None], of "[h0, x]"] by simp
    have long: "\<exists>k e' w''. (case Writer_Peek wrt (int m) (Writer_poke off [h0, x] w) of (off', err', w') \<Rightarrow>
          if err' \<noteq> None then Ret (err', c\<lparr>ws_w := w'\<rparr>)
          else obind (Writer_put off' m put w') (\<lambda>w''. Ret (None, c\<lparr>ws_w := w''\<rparr>))) = Ret (e', c\<lparr>ws_w := w''\<rparr>) \<and>
        Writer_took sent k ([h0, x] @ bs) (ws_w c) w'' \<and> (e' = None \<longrightarrow> k = length ([h0, x] @ bs))"
      if put: "\<And>h. length h = m \<Longrightarrow> put h = Ret bs" and bs: "length bs = m" for m x put bs
    proof -
      obtain off' e' w' where pk': "Writer_Peek wrt (int m) (Writer_poke off [h0, x] w) = (off', e', w')"
        by (cases "Writer_Peek wrt (int m) (Writer_poke off [h0, x] w)") auto
      have ps: "if e' = None
        then \<exists>w''. Writer_put off' m put w' = Ret w'' \<and> Writer_took sent m bs (Writer_poke off [h0, x] w) w''
        else Writer_took sent 0 [] (Writer_poke off [h0, x] w) w'"
        by (rule Peek_put_spec [OF Writer_took_ok [OF two] _ bs pk']) (rule put)
      show ?thesis
      proof (cases e')
        case (Some er)
        then show ?thesis
          using pk' ps Writer_took_seq [OF two [of x], of 0 bs w']
          by (intro exI [of _ "Suc (Suc 0)"] exI [of _ e'] exI [of _ w']) (simp add: Writer_took_none)
      next
        case None
        then obtain w'' where "Writer_put off' m put w' = Ret w''" "Writer_took sent m bs (Writer_poke off [h0, x] w) w''"
          using ps by auto
        then show ?thesis
          using pk' None bs Writer_took_seq [OF two [of x], of m bs w'']
          by (intro exI [of _ "Suc (Suc m)"] exI [of _ None] exI [of _ w'']) simp
      qed
    qed
    consider (small) "n \<le> 125" | (mid) "125 < n" "n < 65536" | (big) "65536 \<le> n" by linarith
    then show ?thesis
    proof cases
      case small
      then show ?thesis
        using pk None two [of "of_nat n"]
        by (intro exI [of _ "Suc (Suc 0)"] exI [of _ None] exI [of _ "Writer_poke off [h0, of_nat n] w"])
          (simp add: Conn_WriteHeader_def frame_head_def frame_len_def h0_def)
    next
      case mid
      have hd: "hd = [h0, 126] @ be16 (of_nat n)"
        using mid by (simp add: hd_def frame_head_def frame_len_def h0_def )
      show ?thesis
        using long [of 2 "\<lambda>h. std_PutUint16 h (word_of_int (int n))" "be16 (of_nat n)" 126] pk None mid
        by (simp add: Conn_WriteHeader_def PutUint16_eq hd_def [symmetric] hd h0_def [symmetric])
    next
      case big
      have hd: "hd = [h0, 127] @ be64 (of_nat n)"
        using big by (simp add: hd_def frame_head_def frame_len_def h0_def )
      show ?thesis
        using long [of 8 "\<lambda>h. std_PutUint64 h (word_of_int (int n))" "be64 (of_nat n)" 127] pk None big
        by (simp add: Conn_WriteHeader_def PutUint64_eq hd_def [symmetric] hd h0_def [symmetric])
    qed
  qed
qed

lemma WriteBody_spec:
  assumes ok: "Writer_ok (ws_w c)"
  shows "\<exists>k e w. Conn_WriteBody wrt b c = Some (Ret (e, c\<lparr>ws_w := w\<rparr>)) \<and>
    Writer_took sent k b (ws_w c) w \<and> (e = None \<longrightarrow> k = length b)"
proof (cases "b = []")
  case True
  then show ?thesis
    using ok by (intro exI [of _ 0] exI [of _ None] exI [of _ "ws_w c"])
      (simp add: Conn_WriteBody_def Writer_took_def)
next
  case False
  obtain k e w where "Writer_Write wrt b (ws_w c) = Some (Ret (k, e, w))" "Writer_took sent k b (ws_w c) w"
    "e = None \<longrightarrow> k = length b"
    using Write_spec [OF ok, of b] by (elim exE conjE) (rule that)
  then show ?thesis
    using False by (intro exI [of _ k] exI [of _ e] exI [of _ w]) (simp add: Conn_WriteBody_def)
qed

text \<open>A written message is one unmasked final frame, or a prefix of it and an error.\<close>

lemma WriteMessage_spec:
  assumes ok: "Writer_ok (ws_w c)"
  shows "\<exists>k e w. Conn_WriteMessage wrt (int op) msg c = Some (Ret (e, c\<lparr>ws_w := w\<rparr>)) \<and>
    Writer_took sent k (ws_frame True op None msg) (ws_w c) w \<and>
    (e = None \<longrightarrow> k = length (ws_frame True op None msg))"
proof -
  let ?h = "frame_head True op None (length msg)"
  obtain k e w where hd: "Conn_WriteHeader wrt (int op) (int (length msg)) c = Ret (e, c\<lparr>ws_w := w\<rparr>)"
    and tk: "Writer_took sent k ?h (ws_w c) w" and full: "e = None \<longrightarrow> k = length ?h"
    using WriteHeader_spec [OF ok, of op "length msg"] by (elim exE conjE) (rule that)
  show ?thesis
  proof (cases e)
    case (Some er)
    then show ?thesis
      using hd Writer_took_append [OF tk]
      by (intro exI [of _ k] exI [of _ e] exI [of _ w]) (simp add: Conn_WriteMessage_def ws_frame_def)
  next
    case None
    obtain j e2 w2 where wb: "Conn_WriteBody wrt msg (c\<lparr>ws_w := w\<rparr>) = Some (Ret (e2, c\<lparr>ws_w := w\<rparr>\<lparr>ws_w := w2\<rparr>))"
      "Writer_took sent j msg (ws_w (c\<lparr>ws_w := w\<rparr>)) w2" "e2 = None \<longrightarrow> j = length msg"
      using WriteBody_spec [of "c\<lparr>ws_w := w\<rparr>" msg] Writer_took_ok [OF tk] by auto
    show ?thesis
      using hd None wb full Writer_took_seq [of sent ?h "ws_w c" w j msg w2] tk
      by (intro exI [of _ "length ?h + j"] exI [of _ e2] exI [of _ w2])
        (simp add: Conn_WriteMessage_def ws_frame_def)
  qed
qed

end

section \<open>What reading a frame returns\<close>

lemma and_128: "(x::byte) AND 128 = 0 \<longleftrightarrow> \<not> bit x 7"
  using and_exp_eq_0_iff_not_bit [of x 7] by simp

lemma and_127: "n < 128 \<Longrightarrow> (of_nat n :: byte) AND 127 = of_nat n"
  using take_bit_eq_mask [of 7 "of_nat n :: byte"]
  by (simp add: mask_eq_exp_minus_1 take_bit_of_nat unsigned_of_nat take_bit_nat_eq_self)

lemma not_bit_7: "n < 128 \<Longrightarrow> \<not> bit (of_nat n :: byte) 7"
proof -
  assume "n < 128"
  then have "bit (of_nat n :: byte) 7 = bit ((of_nat n :: byte) AND 127) 7" by (simp add: and_127)
  then show ?thesis by (simp add: bit_and_iff)
qed

lemma and_15: "op < 16 \<Longrightarrow> unat ((of_nat op :: byte) AND 15) = op"
  using take_bit_eq_mask [of 4 "of_nat op :: byte"]
  by (simp add: mask_eq_exp_minus_1 take_bit_of_nat unsigned_of_nat take_bit_nat_eq_self)

lemma and_112: "op < 16 \<Longrightarrow> (of_nat op :: byte) AND 112 = 0"
proof -
  assume "op < 16"
  then have "(of_nat op :: byte) = take_bit 4 (of_nat op)"
    by (simp add: take_bit_of_nat take_bit_nat_eq_self)
  then have "(of_nat op :: byte) AND 112 = (of_nat op AND 15) AND 112"
    by (simp add: take_bit_eq_mask mask_eq_exp_minus_1)
  then show ?thesis by (simp add: and.assoc)
qed

lemmas bit_defs = finBit_def rsv1Bit_def rsv2Bit_def rsv3Bit_def opBit_def maskBit_def lenBit_def

lemma first_byte:
  assumes "op < 16"
  shows "((if fin then finBit else 0) OR of_nat op) AND finBit \<noteq> 0 \<longleftrightarrow> fin"
    and "((if fin then finBit else 0) OR of_nat op) AND (rsv1Bit OR rsv2Bit OR rsv3Bit) = 0"
    and "unat (((if fin then finBit else 0) OR of_nat op) AND opBit) = op"
proof -
  have "\<not> bit (of_nat op :: byte) 7" using assms by (intro not_bit_7) simp
  then show "((if fin then finBit else 0) OR of_nat op) AND finBit \<noteq> 0 \<longleftrightarrow> fin"
    unfolding finBit_def and_128 by (simp add: bit_or_iff)
  show "((if fin then finBit else 0) OR of_nat op) AND (rsv1Bit OR rsv2Bit OR rsv3Bit) = 0"
    using and_112 [OF assms] by (simp add: bit_defs bit.conj_disj_distrib2)
  show "unat (((if fin then finBit else 0) OR of_nat op) AND opBit) = op"
    using and_15 [OF assms] by (simp add: bit_defs bit.conj_disj_distrib2)
qed

lemma second_byte:
  assumes "n < 128"
  shows "((if m then maskBit else 0) OR of_nat n) AND maskBit \<noteq> 0 \<longleftrightarrow> m"
    and "((if m then maskBit else 0) OR of_nat n) AND lenBit = of_nat n"
proof -
  show "((if m then maskBit else 0) OR of_nat n) AND maskBit \<noteq> 0 \<longleftrightarrow> m"
    using not_bit_7 [OF assms] unfolding maskBit_def and_128 by (simp add: bit_or_iff)
  show "((if m then maskBit else 0) OR of_nat n) AND lenBit = of_nat n"
    using and_127 [OF assms] by (simp add: bit_defs bit.conj_disj_distrib2)
qed

text \<open>Bytes the client has already taken may be overwritten: the stream in front does not change.\<close>

lemma Reader_at_overwrite:
  assumes at: "Reader_at future sok N str b" and le: "off + length p \<le> rd_r b"
  shows "Reader_at future sok N str (b\<lparr>rd_buf := copy_at (rd_buf b) off p\<rparr>)"
proof -
  have ok: "rd_r b \<le> rd_w b" "rd_w b \<le> length (rd_buf b)"
    using at by (auto simp: Reader_at_def Reader_ok_def)
  have "off + length p \<le> length (rd_buf b)" using ok le by simp
  then have "copy_at (rd_buf b) off p = take off (rd_buf b) @ p @ drop (off + length p) (rd_buf b)"
    by (rule copy_at_fits)
  then have "drop (rd_r b) (copy_at (rd_buf b) off p) = drop (rd_r b) (rd_buf b)"
    using le ok by (cases "p = []") (simp_all add: min_absorb1 min_absorb2)
  then have "seg (copy_at (rd_buf b) off p) (rd_r b) (rd_w b) = seg (rd_buf b) (rd_r b) (rd_w b)"
    by (simp add: seg_def)
  then show ?thesis
    using at le ok by (simp add: Reader_at_def Reader_ok_def Reader_unread_def Reader_drained_def)
qed

context live_reader
begin

lemma readFrame_len_at:
  assumes at: "Reader_at future sok N (tl (frame_len m n) @ rest) r" and N: "8 \<le> N" and n: "n < 2 ^ 63"
  shows "\<exists>r'. readFrame_len read (if n \<le> 125 then of_nat n else if n < 65536 then 126 else 127) r
      = Ret (int n, None, r') \<and> Reader_at future sok N rest r' \<and> rd_spare r' = rd_spare r"
proof -
  consider (small) "n \<le> 125" | (mid) "125 < n" "n < 65536" | (big) "65536 \<le> n" by linarith
  then show ?thesis
  proof cases
    case small
    then have l: "uint (of_nat n :: byte) = int n" by (simp add: unsigned_of_nat take_bit_nat_eq_self)
    have "(of_nat n :: byte) \<noteq> 126" "(of_nat n :: byte) \<noteq> 127" using l small by auto
    then show ?thesis
      using small at l by (intro exI [of _ r]) (simp add: readFrame_len_def frame_len_def)
  next
    case mid
    then have "Reader_at future sok N (be16 (of_nat n) @ rest) r" using at by (simp add: frame_len_def)
    from Pop_at [OF this, of 2] N obtain r' where
      "Reader_Pop read 2 r = Ret (be16 (of_nat n), None, r')" "Reader_at future sok N rest r'" "rd_spare r' = rd_spare r"
      by (auto simp: )
    moreover have "std_Uint16 (be16 (of_nat n)) = Ret (of_nat n)" using Uint16_be16 [of "of_nat n" "[]"] by simp
    moreover have "uint (of_nat n :: 16 word) = int n"
      using mid by (simp add: unsigned_of_nat take_bit_nat_eq_self)
    ultimately show ?thesis using mid by (simp add: readFrame_len_def)
  next
    case big
    then have "Reader_at future sok N (be64 (of_nat n) @ rest) r" using at by (simp add: frame_len_def)
    from Pop_at [OF this, of 8] N obtain r' where
      "Reader_Pop read 8 r = Ret (be64 (of_nat n), None, r')" "Reader_at future sok N rest r'" "rd_spare r' = rd_spare r"
      by (auto simp: )
    moreover have "std_Uint64 (be64 (of_nat n)) = Ret (of_nat n)" using Uint64_be64 [of "of_nat n" "[]"] by simp
    moreover have "sint (of_nat n :: 64 word) = int n"
      using n by (simp add: sint_uint unsigned_of_nat take_bit_nat_eq_self signed_take_bit_int_eq_self)
    ultimately show ?thesis using big by (simp add: readFrame_len_def)
  qed
qed

lemma readFrame_mask_at:
  assumes at: "Reader_at future sok N ((case key of None \<Rightarrow> [] | Some k \<Rightarrow> k) @ rest) r" and N: "4 \<le> N"
    and key: "\<And>k. key = Some k \<Longrightarrow> length k = 4" and mk: "\<And>k. mk = Some k \<Longrightarrow> length k = 4"
  shows "\<exists>r' mk'. readFrame_mask read (key \<noteq> None) mk r = Ret (mk', None, r') \<and>
    Reader_at future sok N rest r' \<and> rd_spare r' = rd_spare r \<and> mk' = (if key = None then mk else key)"
proof (cases key)
  case None
  then show ?thesis using at by (intro exI [of _ r] exI [of _ mk]) (simp add: readFrame_mask_def)
next
  case (Some k)
  have len: "length k = 4" using key Some by simp
  have at': "Reader_at future sok N (k @ rest) r" using at Some by simp
  from Pop_at [OF at', of 4] N len obtain r' where
    "Reader_Pop read 4 r = Ret (k, None, r')" "Reader_at future sok N rest r'" "rd_spare r' = rd_spare r" by auto
  moreover have "copy_at (case mk of None \<Rightarrow> replicate 4 0 | Some k0 \<Rightarrow> k0) 0 k = k"
    using len mk by (auto simp: copy_at_def split: option.split)
  ultimately show ?thesis using Some by (simp add: readFrame_mask_def)
qed

lemma readFrame_payload_at:
  assumes at: "Reader_at future sok N ((case key of None \<Rightarrow> p | Some k \<Rightarrow> xor_mask k 0 p) @ rest) r"
    and N: "length p \<le> N" and key: "\<And>k. key = Some k \<Longrightarrow> length k = 4 \<and> mk = key"
  shows "\<exists>r' sp. readFrame_payload read (key \<noteq> None) mk (int (length p)) r = Ret ((p, sp), None, r') \<and>
    Reader_at future sok N rest r' \<and> rd_spare r' = rd_spare r"
proof (cases "p = []")
  case True
  then show ?thesis using at by (intro exI [of _ r] exI [of _ "[]"])
      (auto simp: readFrame_payload_def split: option.splits)
next
  case False
  define d where "d = (case key of None \<Rightarrow> p | Some k \<Rightarrow> xor_mask k 0 p)"
  have ld: "length d = length p" by (simp add: d_def split: option.split)
  have at': "Reader_at future sok N (d @ rest) r" using at by (simp add: d_def)
  from Pop_at [OF at', of "int (length p)"] N ld obtain r' where
    pop: "Reader_Pop read (int (length p)) r = Ret (d, None, r')" and r': "Reader_at future sok N rest r'"
    and sp: "rd_spare r' = rd_spare r" and le: "length p \<le> rd_r r'" by auto
  show ?thesis
  proof (cases key)
    case None
    then show ?thesis using False pop r' sp by (simp add: readFrame_payload_def d_def)
  next
    case (Some k)
    have "maskBytes k 0 d = Ret (p, length p mod 4)"
      using key [OF Some] Some by (simp add: maskBytes_eq d_def)
    then show ?thesis
      using Some False pop key [OF Some] sp Reader_at_overwrite [OF r', of "rd_r r' - length p" p] le
      by (simp add: readFrame_payload_def)
  qed
qed

text \<open>
  A frame in front of the stream, in any of the formats, is read back whole and nothing of what
  follows is taken.
\<close>

lemma readFrame_at:
  assumes at: "Reader_at future sok N (ws_frame fin op key p @ rest) (ws_r c)"
    and N: "8 \<le> N" "length p \<le> N" "N < 2 ^ 63" and op: "op < 16"
    and key: "\<And>k. key = Some k \<Longrightarrow> length k = 4" and mk: "\<And>k. ws_maskKey c = Some k \<Longrightarrow> length k = 4"
  shows "\<exists>sp c'. Conn_readFrame read c = Ret (fin, op, (p, sp), None, c') \<and>
    Reader_at future sok N rest (ws_r c') \<and> ws_w c' = ws_w c \<and> rd_spare (ws_r c') = rd_spare (ws_r c) \<and>
    ws_maskKey c' = (if key = None then ws_maskKey c else key)"
proof -
  define n where "n = length p"
  define m where "m = (if key \<noteq> None then maskBit else 0)"
  define l where "l = (if n \<le> 125 then n else if n < 65536 then 126 else 127)"
  define body where "body = (case key of None \<Rightarrow> p | Some k \<Rightarrow> xor_mask k 0 p) @ rest"
  define b0 :: byte where "b0 = (if fin then finBit else 0) OR of_nat op"
  define b1 :: byte where "b1 = m OR of_nat l"
  have flen: "frame_len m n = b1 # tl (frame_len m n)"
    by (simp add: frame_len_def l_def b1_def)
  have str: "ws_frame fin op key p @ rest
      = b0 # b1 # (tl (frame_len m n) @ (case key of None \<Rightarrow> [] | Some k \<Rightarrow> k) @ body)"
    using flen by (cases key) (simp_all add: ws_frame_def frame_head_def body_def n_def m_def b0_def)
  obtain r1 where r1: "Reader_ReadByte read (ws_r c) = Ret (b0, None, r1)"
      "Reader_at future sok N (b1 # (tl (frame_len m n) @ (case key of None \<Rightarrow> [] | Some k \<Rightarrow> k) @ body)) r1"
      "rd_spare r1 = rd_spare (ws_r c)"
    using ReadByte_at [OF at [unfolded str]] N by auto
  obtain r2 where r2: "Reader_ReadByte read r1 = Ret (b1, None, r2)"
      "Reader_at future sok N (tl (frame_len m n) @ (case key of None \<Rightarrow> [] | Some k \<Rightarrow> k) @ body) r2"
      "rd_spare r2 = rd_spare r1"
    using ReadByte_at [OF r1(2)] N by auto
  have lw: "(if n \<le> 125 then of_nat n else if n < 65536 then 126 else 127) = (of_nat l :: byte)"
    by (simp add: l_def)
  obtain r3 where r3: "readFrame_len read (of_nat l) r2 = Ret (int n, None, r3)"
      "Reader_at future sok N ((case key of None \<Rightarrow> [] | Some k \<Rightarrow> k) @ body) r3" "rd_spare r3 = rd_spare r2"
    using readFrame_len_at [OF r2(2)] N n_def lw by auto
  obtain r4 mk' where r4: "readFrame_mask read (key \<noteq> None) (ws_maskKey c) r3 = Ret (mk', None, r4)"
      "Reader_at future sok N body r4" "rd_spare r4 = rd_spare r3" "mk' = (if key = None then ws_maskKey c else key)"
    using readFrame_mask_at [where key = key and mk = "ws_maskKey c", OF r3(2) _ key mk] N by auto
  obtain r5 sp where r5: "readFrame_payload read (key \<noteq> None) mk' (int n) r4 = Ret ((p, sp), None, r5)"
      "Reader_at future sok N rest r5" "rd_spare r5 = rd_spare r4"
    using readFrame_payload_at [OF r4(2) [unfolded body_def], of mk'] N key r4(4) n_def by auto
  have l128: "l < 128" by (simp add: l_def)
  have b1_bits: "(b1 AND maskBit \<noteq> 0) = (key \<noteq> None)" "b1 AND lenBit = of_nat l"
    using second_byte [OF l128, of "key \<noteq> None"] by (simp_all add: b1_def m_def)
  have b0_bits: "(b0 AND finBit \<noteq> 0) = fin" "b0 AND (rsv1Bit OR rsv2Bit OR rsv3Bit) = 0" "unat (b0 AND opBit) = op"
    using first_byte [OF op, of fin] by (simp_all add: b0_def)
  have "Conn_readFrame read c = Ret (fin, op, (p, sp), None, c\<lparr>ws_r := r5, ws_maskKey := mk'\<rparr>)"
    unfolding Conn_readFrame_def r1(1) obind.simps prod.case b0_bits Let_def r2(1) b1_bits r3(1) r4(1) r5(1)
    using r2(1) r3(1) r4(1) r5(1) b1_bits by simp
  then show ?thesis
    using r5 r4 r3 r2 r1 by (intro exI [of _ sp] exI [of _ "c\<lparr>ws_r := r5, ws_maskKey := mk'\<rparr>"]) simp
qed

end

section \<open>Reassembly of fragmented messages\<close>

text \<open>
  The frames of a message: the first carries the opcode, the others are continuation frames, the
  last has FIN set. Every fragment has its own mask key, or none.
\<close>

fun ws_fragments :: "nat \<Rightarrow> (byte list option \<times> byte list) list \<Rightarrow> byte list" where
  "ws_fragments op [] = []"
| "ws_fragments op [f] = ws_frame True op (fst f) (snd f)"
| "ws_fragments op (f # g # fs) = ws_frame False op (fst f) (snd f) @ ws_fragments continuationFrame (g # fs)"

definition fragment_ok :: "nat \<Rightarrow> byte list option \<times> byte list \<Rightarrow> bool" where
  "fragment_ok N f \<longleftrightarrow> length (snd f) \<le> N \<and> (case fst f of None \<Rightarrow> True | Some k \<Rightarrow> length k = 4)"

lemmas op_defs = BinaryMessage_def TextMessage_def continuationFrame_def

context live_reader
begin

lemma ReadMessage_loop_fragments:
  assumes "fs \<noteq> []" and "Reader_at future sok N (ws_fragments op fs @ rest) (ws_r c)"
    and "8 \<le> N" "N < 2 ^ 63" and "\<forall>f\<in>set fs. fragment_ok N f"
    and "op = BinaryMessage \<or> op = TextMessage \<or> op = continuationFrame"
    and "\<forall>k. ws_maskKey c = Some k \<longrightarrow> length k = 4"
    and "n + length fs \<le> continuationFrameMaxRead + 2"
    and "fst payload \<noteq> [] \<or> op \<noteq> continuationFrame \<and> (tl fs = [] \<or> snd (hd fs) \<noteq> [])"
  shows "\<exists>sp c'. ReadMessage_loop newcap read wrt payload finOp n c
      = Some (Ret (if op \<noteq> continuationFrame then op else finOp, (fst payload @ concat (map snd fs), sp), None, c')) \<and>
    Reader_at future sok N rest (ws_r c') \<and> ws_w c' = ws_w c"
  using assms
proof (induction fs arbitrary: payload finOp n c op)
  case (Cons f fs)
  let ?more = "case fs of [] \<Rightarrow> rest | _ \<Rightarrow> ws_fragments continuationFrame fs @ rest"
  have str: "ws_fragments op (f # fs) @ rest = ws_frame (fs = []) op (fst f) (snd f) @ ?more"
    by (cases fs) auto
  have fok: "\<And>k. fst f = Some k \<Longrightarrow> length k = 4" "length (snd f) \<le> N"
    using Cons.prems(5) by (auto simp: fragment_ok_def)
  have op16: "op < 16" using Cons.prems(6) by (auto simp: op_defs)
  obtain sp c1 where rf: "Conn_readFrame read c = Ret (fs = [], op, (snd f, sp), None, c1)"
    and at1: "Reader_at future sok N ?more (ws_r c1)" and w1: "ws_w c1 = ws_w c"
    and mk1: "ws_maskKey c1 = (if fst f = None then ws_maskKey c else fst f)"
    using readFrame_at [OF Cons.prems(2) [unfolded str] Cons.prems(3) fok(2) Cons.prems(4) op16 fok(1)]
      Cons.prems(7) by auto
  have mk: "\<forall>k. ws_maskKey c1 = Some k \<longrightarrow> length k = 4" using mk1 Cons.prems(7) fok(1) by auto
  let ?fin = "if op \<noteq> continuationFrame then op else finOp"
  show ?case
  proof (cases fs)
    case Nil
    then show ?thesis
      using rf at1 w1 Cons.prems(6,9)
      by (subst ReadMessage_loop.simps) (cases "go_append newcap payload (snd f)"; auto simp: Let_def go_append_def)
  next
    case (Cons g gs)
    have pl: "fst (go_append newcap payload (snd f)) \<noteq> []" using Cons.prems(9) \<open>fs = g # gs\<close> by auto
    have step: "ReadMessage_loop newcap read wrt payload finOp n c
        = ReadMessage_loop newcap read wrt (go_append newcap payload (snd f)) ?fin (n + 1) c1"
      using rf Cons.prems(6,8) \<open>fs = g # gs\<close>
      by (subst ReadMessage_loop.simps) (auto simp: Let_def)
    have len: "n + 1 + length fs \<le> continuationFrameMaxRead + 2" using Cons.prems(8) by simp
    have at1': "Reader_at future sok N (ws_fragments continuationFrame fs @ rest) (ws_r c1)"
      using at1 \<open>fs = g # gs\<close> by simp
    obtain sp' c' where "ReadMessage_loop newcap read wrt (go_append newcap payload (snd f)) ?fin (n + 1) c1
        = Some (Ret (?fin, (fst (go_append newcap payload (snd f)) @ concat (map snd fs), sp'), None, c'))"
      "Reader_at future sok N rest (ws_r c')" "ws_w c' = ws_w c1"
      using Cons.IH [of continuationFrame c1 "n + 1" "go_append newcap payload (snd f)" ?fin]
        at1' Cons.prems(3,4,5) mk len pl \<open>fs = g # gs\<close> by auto
    then show ?thesis using step w1 by (intro exI [of _ sp'] exI [of _ c']) simp
  qed
qed simp

end

section \<open>A connection in both directions\<close>

text \<open>The reader and the writer of a connection keep their contracts; so does the key its four bytes.\<close>

definition Conn_ok :: "('s \<Rightarrow> bool) \<Rightarrow> ('s, 't) Conn \<Rightarrow> bool" where
  "Conn_ok sok c \<longleftrightarrow> Reader_ok sok (ws_r c) \<and> 0 < length (rd_buf (ws_r c)) \<and> Writer_ok (ws_w c) \<and>
     (\<forall>k. ws_maskKey c = Some k \<longrightarrow> length k = 4)"

locale ws_conn = io_reader read future sok + io_writer wrt sent
  for read :: "'s io_read" and future :: "'s \<Rightarrow> byte list" and sok :: "'s \<Rightarrow> bool"
    and wrt :: "'t io_write" and sent :: "'t \<Rightarrow> byte list"
begin

lemma Pop_total:
  assumes ok: "Reader_ok sok r"
  shows "\<exists>d e r'. Reader_Pop read n r = Ret (d, e, r') \<and> Reader_ok sok r' \<and>
    length (rd_buf r') = length (rd_buf r) \<and> (e = None \<longrightarrow> 0 \<le> n \<and> length d = nat n \<and> nat n \<le> rd_r r')"
proof (cases "0 \<le> n \<and> n \<le> int (length (rd_buf r))")
  case True
  then show ?thesis using Pop_spec [OF ok, of n] by (elim conjE exE) (auto)
next
  case False
  then show ?thesis
    using ok Pop_bad_count(1) [of n r] Pop_bad_count(2) [of r n] by (cases "n < 0") auto
qed

lemma readFrame_len_total:
  assumes ok: "Reader_ok sok r"
  shows "\<exists>n e r'. readFrame_len read l r = Ret (n, e, r') \<and> Reader_ok sok r' \<and>
    length (rd_buf r') = length (rd_buf r)"
  using ok Pop_total [OF ok, of 2] Pop_total [OF ok, of 8]
  by (auto simp: readFrame_len_def std_Uint16_def std_Uint64_def)

lemma readFrame_mask_total:
  assumes ok: "Reader_ok sok r" and key: "\<forall>k. key = Some k \<longrightarrow> length k = 4"
  shows "\<exists>key' e r'. readFrame_mask read m key r = Ret (key', e, r') \<and> Reader_ok sok r' \<and>
    length (rd_buf r') = length (rd_buf r) \<and> (\<forall>k. key' = Some k \<longrightarrow> length k = 4) \<and>
    (e = None \<longrightarrow> m \<longrightarrow> key' \<noteq> None)"
  using ok key Pop_total [OF ok, of 4]
  by (auto simp: readFrame_mask_def split: option.split)

lemma readFrame_payload_total:
  assumes ok: "Reader_ok sok r" and key: "\<forall>k. key = Some k \<longrightarrow> length k = 4" "m \<longrightarrow> key \<noteq> None"
  shows "\<exists>p e r'. readFrame_payload read m key n r = Ret (p, e, r') \<and> Reader_ok sok r' \<and>
    length (rd_buf r') = length (rd_buf r)"
proof -
  obtain d e r' where pop: "Reader_Pop read n r = Ret (d, e, r')" "Reader_ok sok r'"
    "length (rd_buf r') = length (rd_buf r)" "e = None \<longrightarrow> 0 \<le> n \<and> length d = nat n \<and> nat n \<le> rd_r r'"
    using Pop_total [OF ok, of n] by (elim exE conjE) (rule that)
  have "rd_r r' \<le> length (rd_buf r')" using pop(2) by (simp add: Reader_ok_def)
  then have "length (copy_at (rd_buf r') (rd_r r' - nat n) q) = length (rd_buf r')" for q by simp
  then show ?thesis
    using ok pop key by (cases key) (auto simp: readFrame_payload_def maskBytes_eq Reader_ok_def Let_def)
qed

lemma readFrame_total:
  assumes ok: "Conn_ok sok c"
  shows "\<exists>fin op p e c'. Conn_readFrame read c = Ret (fin, op, p, e, c') \<and> Conn_ok sok c' \<and> ws_w c' = ws_w c"
proof -
  have c: "Reader_ok sok (ws_r c)" "0 < length (rd_buf (ws_r c))" "Writer_ok (ws_w c)"
    "\<forall>k. ws_maskKey c = Some k \<longrightarrow> length k = 4"
    using ok by (auto simp: Conn_ok_def)
  obtain b0 e0 r1 where s1: "Reader_ReadByte read (ws_r c) = Ret (b0, e0, r1)" "Reader_ok sok r1" "0 < length (rd_buf r1)"
    using ReadByte_spec [OF c(1,2)] c(2) by (elim exE conjE) (auto intro!: that simp del: length_greater_0_conv)
  obtain b1 e1 r2 where s2: "Reader_ReadByte read r1 = Ret (b1, e1, r2)" "Reader_ok sok r2" "0 < length (rd_buf r2)"
    using ReadByte_spec [OF s1(2,3)] s1(3) by (elim exE conjE) (auto intro!: that simp del: length_greater_0_conv)
  obtain n e2 r3 where s3: "readFrame_len read (b1 AND lenBit) r2 = Ret (n, e2, r3)" "Reader_ok sok r3" "0 < length (rd_buf r3)"
    using readFrame_len_total [OF s2(2), of "b1 AND lenBit"] s2(3)
    by (elim exE conjE) (rule that, assumption, assumption, simp)
  obtain key e3 r4 where s4: "readFrame_mask read (b1 AND maskBit \<noteq> 0) (ws_maskKey c) r3 = Ret (key, e3, r4)"
      "Reader_ok sok r4" "0 < length (rd_buf r4)" "\<forall>k. key = Some k \<longrightarrow> length k = 4"
      "e3 = None \<longrightarrow> b1 AND maskBit \<noteq> 0 \<longrightarrow> key \<noteq> None"
    using readFrame_mask_total [OF s3(2) c(4), of "b1 AND maskBit \<noteq> 0"] s3(3)
    by (elim exE conjE) (rule that, assumption, assumption, simp, assumption, assumption)
  show ?thesis
  proof (cases "e3 = None")
    case True
    obtain p e4 r5 where "readFrame_payload read (b1 AND maskBit \<noteq> 0) key n r4 = Ret (p, e4, r5)"
        "Reader_ok sok r5" "0 < length (rd_buf r5)"
      using readFrame_payload_total [OF s4(2,4) mp [OF s4(5) True], of n] s4(3)
      by (elim exE conjE) (rule that, assumption, assumption, simp)
    then show ?thesis using s1 s2 s3 s4 c True by (simp add: Conn_readFrame_def Let_def Conn_ok_def) blast
  next
    case False
    then show ?thesis using s1 s2 s3 s4 c by (simp add: Conn_readFrame_def Let_def Conn_ok_def) blast
  qed
qed

text \<open>
  Whatever the peer sends, \<open>ReadMessage\<close> returns: it does not panic, and it ends after at most
  \<open>continuationFrameMaxRead + 2\<close> frames.
\<close>

lemma ReadMessage_loop_total:
  assumes "Conn_ok sok c"
  shows "\<exists>op p e c'. ReadMessage_loop newcap read wrt payload finOp n c = Some (Ret (op, p, e, c')) \<and> Conn_ok sok c'"
  using assms
proof (induction "continuationFrameMaxRead + 1 - n" arbitrary: payload finOp n c rule: less_induct)
  case less
  obtain fin op part e c1 where rf: "Conn_readFrame read c = Ret (fin, op, part, e, c1)" and c1: "Conn_ok sok c1"
    using readFrame_total [OF less.prems] by blast
  have again: "\<exists>op p e c'. (if n > continuationFrameMaxRead
        then Some (Ret (opx, payload, Some (Websocket ErrMessageMaxRead), c2))
        else ReadMessage_loop newcap read wrt payload finOp (n + 1) c2) = Some (Ret (op, p, e, c')) \<and> Conn_ok sok c'"
    if "Conn_ok sok c2" for c2 payload finOp opx
    using less.hyps [of "n + 1" c2 payload finOp] that by (cases "n > continuationFrameMaxRead") auto
  obtain k e2 w where wm: "Conn_WriteMessage wrt (int PongMessage) (fst part) c1 = Some (Ret (e2, c1\<lparr>ws_w := w\<rparr>))"
    and "Writer_ok w"
    using WriteMessage_spec [of c1 PongMessage "fst part"] c1 Writer_took_ok by (fastforce simp: Conn_ok_def)
  then have c2: "Conn_ok sok (c1\<lparr>ws_w := w\<rparr>)" using c1 by (simp add: Conn_ok_def)
  show ?case
    using rf c1 wm c2 again [OF c1] again [OF c2]
    by (subst ReadMessage_loop.simps) (auto simp: Let_def)
qed

end

interpretation wsconn: ws_conn conn_read concat "\<lambda>_. True" conn_write co_log
  by unfold_locales

section \<open>Properties\<close>

text \<open>
  Fragmented messages. On a live reader \<open>ReadMessage\<close> puts a message back together from its
  fragments, masked or not, whatever their sizes within the buffer, as long as there are at most 102
  of them and the first is not empty: it returns the opcode of the first frame and the payloads in
  order, and takes nothing of what follows the last fragment.
\<close>

theorem ReadMessage_reassembles:
  assumes "live_reader read future sok" and "fs \<noteq> []"
    and "Reader_at future sok N (ws_fragments op fs @ rest) (ws_r c)" and "8 \<le> N" and "N < 2 ^ 63"
    and "\<forall>f\<in>set fs. fragment_ok N f" and "op = BinaryMessage \<or> op = TextMessage"
    and "\<forall>k. ws_maskKey c = Some k \<longrightarrow> length k = 4"
    and "length fs \<le> continuationFrameMaxRead + 2" and "tl fs = [] \<or> snd (hd fs) \<noteq> []"
  shows "\<exists>sp c'. Conn_ReadMessage newcap read wrt c
      = Some (Ret (op, (concat (map snd fs), sp), None, c')) \<and>
    Reader_at future sok N rest (ws_r c') \<and> ws_w c' = ws_w c"
proof -
  have "op \<noteq> continuationFrame" using assms(7) by (auto simp: op_defs)
  then show ?thesis
    using live_reader.ReadMessage_loop_fragments [OF assms(1-6) _ assms(8), of 0 "([], [])" newcap wrt 0]
      assms(7,9,10) by (auto simp: Conn_ReadMessage_def)
qed

theorem ReadMessage_reassembles_witness:
  "\<exists>sp c'. Conn_ReadMessage (\<lambda>_ n. n) conn_read conn_write
      (newConn (Reader_reset (replicate 8 0) []
         [[2, 130], [1, 2, 3, 4, 105, 107], [128, 1, 33], [77]])
       \<lparr>wr_err = None, wr_buf = [0], wr_n = 0, wr_wr = \<lparr>co_quota = 0, co_log = []\<rparr>\<rparr>)
      = Some (Ret (2, ([104, 105, 33], sp), None, c')) \<and> Reader_at concat (\<lambda>_. True) 8 [77] (ws_r c')"
proof -
  have frs: "ws_fragments 2 [(Some [1, 2, 3, 4], [104, 105]), (None, [33])] @ [77]
      = concat [[2, 130], [1, 2, 3, 4, 105, 107], [128, 1, 33], [77]]"
    by (simp add: ws_frame_def frame_head_def frame_len_def finBit_def maskBit_def continuationFrame_def)
  show ?thesis
    using ReadMessage_reassembles [OF conn.live_reader_axioms, where op = 2 and N = 8 and rest = "[77]"
        and fs = "[(Some [1, 2, 3, 4], [104, 105]), (None, [33])]" and newcap = "\<lambda>_ n. n" and wrt = conn_write
        and c = "newConn (Reader_reset (replicate 8 0) [] [[2, 130], [1, 2, 3, 4, 105, 107], [128, 1, 33], [77]])
          \<lparr>wr_err = None, wr_buf = [0], wr_n = 0, wr_wr = \<lparr>co_quota = 0, co_log = []\<rparr>\<rparr>"] frs
    by (simp add: newConn_def Reader_at_def Reader_reset_def Reader_ok_def Reader_drained_def Reader_unread_def
        fragment_ok_def BinaryMessage_def continuationFrameMaxRead_def) blast
qed

text \<open>
  C20 (no panic, no endless loop). Whatever bytes the peer sends, over any reader and writer that keep
  the contracts of \<open>io.Reader\<close> and \<open>io.Writer\<close>, \<open>ReadMessage\<close> returns a message or an error and leaves
  a well-formed connection.
\<close>

theorem ReadMessage_returns:
  assumes "ws_conn read future sok wrt sent" and "Conn_ok sok c"
  shows "\<exists>op p e c'. Conn_ReadMessage newcap read wrt c = Some (Ret (op, p, e, c')) \<and> Conn_ok sok c'"
  unfolding Conn_ReadMessage_def by (rule ws_conn.ReadMessage_loop_total [OF assms])

theorem ReadMessage_returns_witness:
  "\<exists>op p e c'. Conn_ReadMessage (\<lambda>_ n. n) conn_read conn_write
      (newConn (Reader_reset (replicate 16 0) [] [[255, 255]])
       \<lparr>wr_err = None, wr_buf = [], wr_n = 0, wr_wr = \<lparr>co_quota = 0, co_log = []\<rparr>\<rparr>) = Some (Ret (op, p, e, c'))"
  using ReadMessage_returns [OF wsconn.ws_conn_axioms, of "newConn (Reader_reset (replicate 16 0) [] [[255, 255]])
       \<lparr>wr_err = None, wr_buf = [], wr_n = 0, wr_wr = \<lparr>co_quota = 0, co_log = []\<rparr>\<rparr>" "\<lambda>_ n. n"]
  by (auto simp: newConn_def Conn_ok_def Reader_reset_def Reader_ok_def Writer_ok_def)

text \<open>
  Written messages. \<open>WriteMessage\<close> returns; without an error it has appended one unmasked final
  frame that carries the message, with one it has appended a prefix of that frame, and nothing else
  of the connection changes.
\<close>

theorem WriteMessage_frame:
  assumes "io_writer wrt sent" and "Writer_ok (ws_w c)"
  shows "\<exists>k e w. Conn_WriteMessage wrt (int op) msg c = Some (Ret (e, c\<lparr>ws_w := w\<rparr>)) \<and> Writer_ok w \<and>
    Writer_out sent w = Writer_out sent (ws_w c) @ take k (ws_frame True op None msg) \<and>
    (e = None \<longrightarrow> k = length (ws_frame True op None msg))"
  using io_writer.WriteMessage_spec [OF assms, of op msg] unfolding Writer_took_def
  by (elim exE conjE) (intro exI conjI; assumption)

theorem WriteMessage_frame_witness:
  "\<exists>k e w. Conn_WriteMessage conn_write (int TextMessage) [72, 105]
      (newConn (Reader_reset [] [] ([] :: byte list list))
       \<lparr>wr_err = None, wr_buf = [0, 0], wr_n = 0, wr_wr = \<lparr>co_quota = 100, co_log = []\<rparr>\<rparr>)
     = Some (Ret (e, newConn (Reader_reset [] [] []) w)) \<and> Writer_out co_log w = take k [129, 2, 72, 105]"
  using WriteMessage_frame [OF conn_out.io_writer_axioms, of "newConn (Reader_reset [] [] ([] :: byte list list))
       \<lparr>wr_err = None, wr_buf = [0, 0], wr_n = 0, wr_wr = \<lparr>co_quota = 100, co_log = []\<rparr>\<rparr>" TextMessage "[72, 105]"]
  by (auto simp: newConn_def Writer_ok_def Writer_out_def ws_frame_def frame_head_def frame_len_def
      finBit_def TextMessage_def)

end
