(* ===== verification/Protocol.thy ===== *)
theory Protocol
  imports Bytes_Writer Websocket_Conn
begin

text \<open>
  \<open>api/protocol\<close>: the \<open>Proto\<close> message, its operations, and its codec over TCP, WebSocket and the
  byte writer. \<open>Body\<close> is \<open>None\<close> for a nil slice.
\<close>

section \<open>Messages and constants\<close>

record Proto =
  Ver :: int32
  Op :: int32
  Seq :: int32
  Body :: "byte list option"

definition OpHandshake :: int32 where "OpHandshake = 0"
definition OpHandshakeReply :: int32 where "OpHandshakeReply = 1"
definition OpHeartbeat :: int32 where "OpHeartbeat = 2"
definition OpHeartbeatReply :: int32 where "OpHeartbeatReply = 3"
definition OpSendMsg :: int32 where "OpSendMsg = 4"
definition OpSendMsgReply :: int32 where "OpSendMsgReply = 5"
definition OpDisconnectReply :: int32 where "OpDisconnectReply = 6"
definition OpAuth :: int32 where "OpAuth = 7"
definition OpAuthReply :: int32 where "OpAuthReply = 8"
definition OpRaw :: int32 where "OpRaw = 9"
definition OpProtoReady :: int32 where "OpProtoReady = 10"
definition OpProtoFinish :: int32 where "OpProtoFinish = 11"
definition OpChangeRoom :: int32 where "OpChangeRoom = 12"
definition OpChangeRoomReply :: int32 where "OpChangeRoomReply = 13"
definition OpSub :: int32 where "OpSub = 14"
definition OpSubReply :: int32 where "OpSubReply = 15"
definition OpUnsub :: int32 where "OpUnsub = 16"
definition OpUnsubReply :: int32 where "OpUnsubReply = 17"

definition MaxBodySize :: int where "MaxBodySize = 4096"
definition packSize :: nat where "packSize = 4"
definition headerSize :: nat where "headerSize = 2"
definition verSize :: nat where "verSize = 2"
definition opSize :: nat where "opSize = 4"
definition seqSize :: nat where "seqSize = 4"
definition heartSize :: nat where "heartSize = 4"
definition rawHeaderSize :: nat where
  "rawHeaderSize = packSize + headerSize + verSize + opSize + seqSize"
definition maxPackSize :: int where "maxPackSize = MaxBodySize + int rawHeaderSize"
definition packOffset :: nat where "packOffset = 0"
definition headerOffset :: nat where "headerOffset = packOffset + packSize"
definition verOffset :: nat where "verOffset = headerOffset + headerSize"
definition opOffset :: nat where "opOffset = verOffset + verSize"
definition seqOffset :: nat where "seqOffset = opOffset + opSize"
definition heartOffset :: nat where "heartOffset = seqOffset + seqSize"

lemmas layout_defs = MaxBodySize_def packSize_def headerSize_def verSize_def opSize_def seqSize_def
  heartSize_def rawHeaderSize_def maxPackSize_def packOffset_def headerOffset_def verOffset_def
  opOffset_def seqOffset_def heartOffset_def

definition Proto_zero :: Proto where "Proto_zero = \<lparr>Ver = 0, Op = 0, Seq = 0, Body = None\<rparr>"
definition ProtoReady :: Proto where "ProtoReady = Proto_zero\<lparr>Op := OpProtoReady\<rparr>"
definition ProtoFinish :: Proto where "ProtoFinish = Proto_zero\<lparr>Op := OpProtoFinish\<rparr>"

text \<open>The bytes of a body; a nil slice has none.\<close>

definition body_bytes :: "Proto \<Rightarrow> byte list" where
  "body_bytes p = (case Body p of None \<Rightarrow> [] | Some b \<Rightarrow> b)"

section \<open>The header\<close>

text \<open>The five \<open>Put\<close> calls that every writing method makes on its window.\<close>

definition put_header :: "Proto \<Rightarrow> int32 \<Rightarrow> byte list \<Rightarrow> byte list outcome" where
  "put_header p packLen buf =
     obind (sub_put packOffset (\<lambda>t. BigEndian_PutInt32 t packLen) buf) (\<lambda>buf.
     obind (sub_put headerOffset (\<lambda>t. BigEndian_PutInt16 t (of_nat rawHeaderSize)) buf) (\<lambda>buf.
     obind (sub_put verOffset (\<lambda>t. BigEndian_PutInt16 t (ucast (Ver p))) buf) (\<lambda>buf.
     obind (sub_put opOffset (\<lambda>t. BigEndian_PutInt32 t (Op p)) buf) (\<lambda>buf.
     sub_put seqOffset (\<lambda>t. BigEndian_PutInt32 t (Seq p)) buf))))"

text \<open>The five reads: the lengths, and the message with its header fields set.\<close>

definition get_header :: "byte list \<Rightarrow> Proto \<Rightarrow> (int32 \<times> int16 \<times> Proto) outcome" where
  "get_header buf p =
     obind (BigEndian_Int32 (seg buf packOffset headerOffset)) (\<lambda>packLen.
     obind (BigEndian_Int16 (seg buf headerOffset verOffset)) (\<lambda>headerLen.
     obind (BigEndian_Int16 (seg buf verOffset opOffset)) (\<lambda>ver.
     obind (BigEndian_Int32 (seg buf opOffset seqOffset)) (\<lambda>op.
     obind (BigEndian_Int32 (drop seqOffset buf)) (\<lambda>seq.
       Ret (packLen, headerLen, p\<lparr>Ver := scast ver, Op := op, Seq := seq\<rparr>))))))"

section \<open>The codec\<close>

definition Proto_WriteTo :: "Proto \<Rightarrow> BytesWriter \<Rightarrow> BytesWriter outcome" where
  "Proto_WriteTo p b =
     (let packLen = of_nat rawHeaderSize + of_nat (length (body_bytes p));
          (off, b1) = BytesWriter_Peek rawHeaderSize b
      in obind (put_header p packLen (seg (bw_buf b1) off (off + rawHeaderSize))) (\<lambda>h.
           let b2 = bw_poke off h b1
           in Ret (case Body p of Some body \<Rightarrow> BytesWriter_Write body b2 | None \<Rightarrow> b2)))"

definition Proto_ReadTCP ::
    "'s io_read \<Rightarrow> 's Reader \<Rightarrow> Proto \<Rightarrow> (error option \<times> Proto \<times> 's Reader) outcome" where
  "Proto_ReadTCP read rr p =
     obind (Reader_Pop read (int rawHeaderSize) rr) (\<lambda>(buf, err, rr1).
     if err \<noteq> None then Ret (err, p, rr1)
     else
     obind (get_header buf p) (\<lambda>(packLen, headerLen, p1).
     if sint packLen > maxPackSize then Ret (Some (Protocol ErrProtoPackLen), p1, rr1)
     else if headerLen \<noteq> of_nat rawHeaderSize then Ret (Some (Protocol ErrProtoHeaderLen), p1, rr1)
     else
       let bodyLen = sint (packLen - scast headerLen) in
       if bodyLen > 0 then
         obind (Reader_Pop read bodyLen rr1) (\<lambda>(body, err, rr2).
           Ret (err, p1\<lparr>Body := (if err = None then Some body else None)\<rparr>, rr2))
       else Ret (None, p1\<lparr>Body := None\<rparr>, rr1)))"

definition Proto_WriteTCP :: "'t io_write \<Rightarrow> Proto \<Rightarrow> 't Writer \<Rightarrow> (error option \<times> 't Writer) run" where
  "Proto_WriteTCP wrt p wr =
     (if Op p = OpRaw
      then rbind (Writer_WriteRaw wrt (body_bytes p) wr) (\<lambda>(_, err, wr'). Some (Ret (err, wr')))
      else
        let packLen = of_nat rawHeaderSize + of_nat (length (body_bytes p)) in
        case Writer_Peek wrt (int rawHeaderSize) wr of (off, err, wr1) \<Rightarrow>
          if err \<noteq> None then Some (Ret (err, wr1))
          else rbind (Some (Writer_put off rawHeaderSize (put_header p packLen) wr1)) (\<lambda>wr2.
            case Body p of
              None \<Rightarrow> Some (Ret (None, wr2))
            | Some body \<Rightarrow>
                rbind (Writer_Write wrt body wr2) (\<lambda>(_, err, wr3). Some (Ret (err, wr3)))))"

text \<open>The header of a heartbeat reply and the four bytes behind it.\<close>

definition put_heart :: "Proto \<Rightarrow> int32 \<Rightarrow> byte list \<Rightarrow> byte list outcome" where
  "put_heart p online buf =
     obind (put_header p (of_nat (rawHeaderSize + heartSize)) buf)
       (sub_put heartOffset (\<lambda>t. BigEndian_PutInt32 t online))"

definition Proto_WriteTCPHeart ::
    "'t io_write \<Rightarrow> Proto \<Rightarrow> int32 \<Rightarrow> 't Writer \<Rightarrow> (error option \<times> 't Writer) outcome" where
  "Proto_WriteTCPHeart wrt p online wr =
     (let packLen = rawHeaderSize + heartSize in
      case Writer_Peek wrt (int packLen) wr of (off, err, wr1) \<Rightarrow>
        if err \<noteq> None then Ret (err, wr1)
        else obind (Writer_put off packLen (put_heart p online) wr1) (\<lambda>wr2. Ret (None, wr2)))"

text \<open>
  The slice \<open>buf[headerLen:packLen]\<close> is bounded by the capacity of \<open>buf\<close>, so the bytes behind the
  message are an argument of it.
\<close>

definition Proto_ReadWebsocket ::
    "(nat \<Rightarrow> nat \<Rightarrow> nat) \<Rightarrow> 's io_read \<Rightarrow> 't io_write \<Rightarrow> ('s, 't) Conn \<Rightarrow> Proto \<Rightarrow>
     (error option \<times> Proto \<times> ('s, 't) Conn) run" where
  "Proto_ReadWebsocket newcap read wrt ws p =
     rbind (Conn_ReadMessage newcap read wrt ws) (\<lambda>(_, (buf, spare), err, ws1).
     if err \<noteq> None then Some (Ret (err, p, ws1))
     else if length buf < rawHeaderSize then Some (Ret (Some (Protocol ErrProtoPackLen), p, ws1))
     else
     rbind (Some (get_header buf p)) (\<lambda>(packLen, headerLen, p1).
     if sint packLen < 0 \<or> sint packLen > maxPackSize
     then Some (Ret (Some (Protocol ErrProtoPackLen), p1, ws1))
     else if headerLen \<noteq> of_nat rawHeaderSize
     then Some (Ret (Some (Protocol ErrProtoHeaderLen), p1, ws1))
     else
       let bodyLen = sint (packLen - scast headerLen) in
       if bodyLen > 0 then
         rbind (Some (go_slice buf spare (unat headerLen) (unat packLen))) (\<lambda>body.
           Some (Ret (None, p1\<lparr>Body := Some body\<rparr>, ws1)))
       else Some (Ret (None, p1\<lparr>Body := None\<rparr>, ws1))))"

definition Proto_WriteWebsocket ::
    "'t io_write \<Rightarrow> Proto \<Rightarrow> ('s, 't) Conn \<Rightarrow> (error option \<times> ('s, 't) Conn) run" where
  "Proto_WriteWebsocket wrt p ws =
     (let packLen = rawHeaderSize + length (body_bytes p) in
      rbind (Some (Conn_WriteHeader wrt (int BinaryMessage) (int packLen) ws)) (\<lambda>(err, ws1).
      if err \<noteq> None then Some (Ret (err, ws1))
      else case Conn_Peek wrt (int rawHeaderSize) ws1 of (off, err, ws2) \<Rightarrow>
        if err \<noteq> None then Some (Ret (err, ws2))
        else rbind (Some (Writer_put off rawHeaderSize (put_header p (of_nat packLen)) (ws_w ws2))) (\<lambda>w.
          case Body p of
            None \<Rightarrow> Some (Ret (None, ws2\<lparr>ws_w := w\<rparr>))
          | Some body \<Rightarrow> Conn_WriteBody wrt body (ws2\<lparr>ws_w := w\<rparr>))))"

definition Proto_WriteWebsocketHeart ::
    "'t io_write \<Rightarrow> Proto \<Rightarrow> int32 \<Rightarrow> ('s, 't) Conn \<Rightarrow> (error option \<times> ('s, 't) Conn) outcome" where
  "Proto_WriteWebsocketHeart wrt p online wr =
     (let packLen = rawHeaderSize + heartSize in
      obind (Conn_WriteHeader wrt (int BinaryMessage) (int packLen) wr) (\<lambda>(err, wr1).
      if err \<noteq> None then Ret (err, wr1)
      else case Conn_Peek wrt (int packLen) wr1 of (off, err, wr2) \<Rightarrow>
        if err \<noteq> None then Ret (err, wr2)
        else obind (Writer_put off packLen (put_heart p online) (ws_w wr2)) (\<lambda>w.
          Ret (None, wr2\<lparr>ws_w := w\<rparr>))))"

section \<open>The wire format\<close>

definition proto_header :: "Proto \<Rightarrow> nat \<Rightarrow> byte list" where
  "proto_header p n = be32 (of_nat n) @ be16 16 @ be16 (ucast (Ver p)) @ be32 (Op p) @ be32 (Seq p)"

definition proto_frame :: "Proto \<Rightarrow> byte list" where
  "proto_frame p = proto_header p (16 + length (body_bytes p)) @ body_bytes p"

lemma length_proto_header [simp]: "length (proto_header p n) = 16"
  by (simp add: proto_header_def)

lemma length_proto_frame: "length (proto_frame p) = 16 + length (body_bytes p)"
  by (simp add: proto_frame_def)

lemma put_header_eq:
  "16 \<le> length buf \<Longrightarrow> put_header p (of_nat n) buf = Ret (proto_header p n @ drop 16 buf)"
  by (simp add: put_header_def layout_defs sub_put_Int32 sub_put_Int16 proto_header_def)

lemma put_heart_eq:
  "length buf = 20 \<Longrightarrow> put_heart p online buf = Ret (proto_header p 20 @ be32 online)"
  using put_header_eq [of buf p 20]
  by (simp add: put_heart_def layout_defs sub_put_Int32)

lemma get_header_eq:
  "get_header (proto_header p n @ rest) q
   = Ret (of_nat n, 16, q\<lparr>Ver := scast (ucast (Ver p) :: int16), Op := Op p, Seq := Seq p\<rparr>)"
  using Int16_be16 [of _ "[]"] Int32_be32 [of _ "[]"]
  by (simp add: get_header_def layout_defs proto_header_def seg_def)

text \<open>
  What a reader makes of a frame: the version is cut to 16 bits and sign-extended, and an empty
  body becomes nil.
\<close>

definition proto_canon :: "Proto \<Rightarrow> Proto" where
  "proto_canon p = p\<lparr>Ver := scast (ucast (Ver p) :: int16),
                     Body := (if body_bytes p = [] then None else Some (body_bytes p))\<rparr>"

lemma proto_canon_id:
  assumes "scast (ucast (Ver p) :: int16) = Ver p" and "Body p \<noteq> Some []"
  shows "proto_canon p = p"
  using assms by (cases p) (auto simp: proto_canon_def body_bytes_def split: option.split)

text \<open>The lengths of a frame whose body is within the limit, as the readers compute them.\<close>

lemma pack_len:
  assumes "n \<le> 4096"
  shows "sint (of_nat (16 + n) :: int32) = int (16 + n)" and "unat (of_nat (16 + n) :: int32) = 16 + n"
    and "sint ((of_nat (16 + n) :: int32) - scast (16 :: int16)) = int n"
proof -
  have small: "16 + n < 2 ^ 31" using assms by simp
  show s: "sint (of_nat (16 + n) :: int32) = int (16 + n)"
    using small by (simp only: sint_uint uint_nat unat_of_nat) (simp add: signed_take_bit_int_eq_self)
  show "unat (of_nat (16 + n) :: int32) = 16 + n"
    using small by (simp only: unat_of_nat) simp
  have "(of_nat (16 + n) :: int32) - scast (16 :: int16) = of_nat n" by simp
  moreover have "sint (of_nat n :: int32) = int n"
    using small by (simp only: sint_uint uint_nat unat_of_nat) (simp add: signed_take_bit_int_eq_self)
  ultimately show "sint ((of_nat (16 + n) :: int32) - scast (16 :: int16)) = int n" by simp
qed

section \<open>Writing a message\<close>

lemma WriteTo_spec:
  assumes ok: "BytesWriter_ok b"
  shows "\<exists>b'. Proto_WriteTo p b = Ret b' \<and> BytesWriter_ok b' \<and>
    BytesWriter_Buffer b' = BytesWriter_Buffer b @ proto_frame p"
proof -
  obtain off b1 where pk: "BytesWriter_Peek 16 b = (off, b1)" by (cases "BytesWriter_Peek 16 b") auto
  have b1: "BytesWriter_ok b1" "off + 16 = bw_n b1"
    using pk Peek_ok [OF ok pk] by (auto simp: BytesWriter_Peek_def Let_def)
  have len: "length (seg (bw_buf b1) off (off + 16)) = 16" using b1 by (auto simp: BytesWriter_ok_def)
  define b2 where "b2 = bw_poke off (proto_header p (16 + length (body_bytes p))) b1"
  have "put_header p (of_nat (16 + length (body_bytes p))) (seg (bw_buf b1) off (off + 16))
      = Ret (proto_header p (16 + length (body_bytes p)))"
    using put_header_eq [of "seg (bw_buf b1) off (off + 16)" p "16 + length (body_bytes p)"] len
    by (simp del: length_seg)
  then have eq: "Proto_WriteTo p b = Ret (case Body p of Some body \<Rightarrow> BytesWriter_Write body b2 | None \<Rightarrow> b2)"
    using pk by (cases "Body p") (simp_all add: Proto_WriteTo_def layout_defs b2_def)
  have b2: "BytesWriter_ok b2" "BytesWriter_Buffer b2 = BytesWriter_Buffer b @ proto_header p (16 + length (body_bytes p))"
    using b1 pk Buffer_Peek_poke [OF ok, of "proto_header p (16 + length (body_bytes p))" off b1]
    by (auto simp: b2_def BytesWriter_ok_def)
  show ?thesis
    using eq b2 Write_ok [OF b2(1)] Buffer_Write [OF b2(1)]
    by (cases "Body p") (auto simp: proto_frame_def body_bytes_def)
qed

context io_writer
begin

lemma WriteTCP_spec:
  assumes ok: "Writer_ok w"
  shows "\<exists>k e w'. Proto_WriteTCP wrt p w = Some (Ret (e, w')) \<and>
    Writer_took sent k (if Op p = OpRaw then body_bytes p else proto_frame p) w w' \<and>
    (e = None \<longrightarrow> k = length (if Op p = OpRaw then body_bytes p else proto_frame p))"
proof (cases "Op p = OpRaw")
  case True
  obtain k e w' where "Writer_WriteRaw wrt (body_bytes p) w = Some (Ret (k, e, w'))"
    "Writer_took sent k (body_bytes p) w w'" "e = None \<longrightarrow> k = length (body_bytes p) \<and> (wr_n w = 0 \<longrightarrow> wr_n w' = 0)"
    using WriteRaw_spec [OF ok, of "body_bytes p"] by (elim exE conjE) (rule that)
  then show ?thesis
    using True by (intro exI [of _ k] exI [of _ e] exI [of _ w']) (simp add: Proto_WriteTCP_def)
next
  case False
  let ?n = "16 + length (body_bytes p)" and ?h = "proto_header p (16 + length (body_bytes p))"
  obtain off e w1 where pk: "Writer_Peek wrt (int 16) w = (off, e, w1)"
    by (cases "Writer_Peek wrt (int 16) w") auto
  have "if e = None
      then \<exists>w2. Writer_put off 16 (put_header p (of_nat ?n)) w1 = Ret w2 \<and> Writer_took sent 16 ?h w w2
      else Writer_took sent 0 [] w w1"
    by (rule Peek_put_spec [OF ok _ _ pk]) (use put_header_eq [of _ p ?n] in auto)
  then consider er where "e = Some er" "Writer_took sent 0 [] w w1"
    | w2 where "e = None" "Writer_put off 16 (put_header p (of_nat ?n)) w1 = Ret w2" "Writer_took sent 16 ?h w w2"
    by (auto split: if_splits)
  then show ?thesis
  proof cases
    case 1
    then show ?thesis
      using False pk Writer_took_none [OF 1(2), of "proto_frame p"]
      by (intro exI [of _ 0] exI [of _ e] exI [of _ w1]) (simp add: Proto_WriteTCP_def layout_defs)
  next
    case (2 w2)
    obtain k e' w3 where wr: "Writer_Write wrt (body_bytes p) w2 = Some (Ret (k, e', w3))"
      "Writer_took sent k (body_bytes p) w2 w3" "e' = None \<longrightarrow> k = length (body_bytes p)"
      using Write_spec [OF Writer_took_ok [OF 2(3)], of "body_bytes p"] by (elim exE conjE) (rule that)
    have took: "Writer_took sent (16 + k) (proto_frame p) w w3"
      using Writer_took_seq [of sent ?h w w2 k "body_bytes p" w3] 2(3) wr(2) by (simp add: proto_frame_def)
    show ?thesis
    proof (cases "Body p")
      case None
      then have "body_bytes p = []" by (simp add: body_bytes_def)
      then show ?thesis
        using False pk 2 None
        by (intro exI [of _ 16] exI [of _ None] exI [of _ w2]) (simp add: Proto_WriteTCP_def layout_defs proto_frame_def)
    next
      case (Some body)
      then have "body_bytes p = body" by (simp add: body_bytes_def)
      then show ?thesis
        using False pk 2(1,2) Some wr took
        by (intro exI [of _ "16 + k"] exI [of _ e'] exI [of _ w3])
          (simp add: Proto_WriteTCP_def layout_defs length_proto_frame)
    qed
  qed
qed

lemma WriteTCPHeart_spec:
  assumes ok: "Writer_ok w"
  shows "\<exists>k e w'. Proto_WriteTCPHeart wrt p online w = Ret (e, w') \<and>
    Writer_took sent k (proto_frame (p\<lparr>Body := Some (be32 online)\<rparr>)) w w' \<and> (e = None \<longrightarrow> k = 20)"
proof -
  let ?f = "proto_header p 20 @ be32 online"
  have f: "proto_frame (p\<lparr>Body := Some (be32 online)\<rparr>) = ?f"
    by (simp add: proto_frame_def body_bytes_def proto_header_def)
  obtain off e w1 where pk: "Writer_Peek wrt (int 20) w = (off, e, w1)"
    by (cases "Writer_Peek wrt (int 20) w") auto
  have "if e = None then \<exists>w2. Writer_put off 20 (put_heart p online) w1 = Ret w2 \<and> Writer_took sent 20 ?f w w2
      else Writer_took sent 0 [] w w1"
    by (rule Peek_put_spec [OF ok _ _ pk]) (use put_heart_eq in auto)
  then consider er where "e = Some er" "Writer_took sent 0 [] w w1"
    | w2 where "e = None" "Writer_put off 20 (put_heart p online) w1 = Ret w2" "Writer_took sent 20 ?f w w2"
    by (auto split: if_splits)
  then show ?thesis
  proof cases
    case 1
    then show ?thesis
      using pk Writer_took_none [OF 1(2), of ?f]
      by (intro exI [of _ 0] exI [of _ e] exI [of _ w1]) (simp add: Proto_WriteTCPHeart_def layout_defs f)
  next
    case (2 w2)
    then show ?thesis
      using pk by (intro exI [of _ 20] exI [of _ None] exI [of _ w2]) (simp add: Proto_WriteTCPHeart_def layout_defs f)
  qed
qed

text \<open>A WebSocket header, then a window of \<open>m\<close> bytes filled by \<open>put\<close>.\<close>

lemma WriteHeader_put_spec:
  assumes ok: "Writer_ok (ws_w c)" and put: "\<forall>h. length h = m \<longrightarrow> put h = Ret bs" and bs: "length bs = m"
    and hd: "Conn_WriteHeader wrt (int op) (int n) c = Ret (e, c1)"
    and pk: "Conn_Peek wrt (int m) c1 = (off, e', c2)"
  shows "e = None \<Longrightarrow> e' = None \<Longrightarrow> \<exists>w. Writer_put off m put (ws_w c2) = Ret w \<and> c2\<lparr>ws_w := w\<rparr> = c\<lparr>ws_w := w\<rparr> \<and>
      Writer_took sent (length (frame_head True op None n) + m) (frame_head True op None n @ bs) (ws_w c) w"
    and "e = None \<Longrightarrow> e' \<noteq> None \<Longrightarrow> c2 = c\<lparr>ws_w := ws_w c2\<rparr> \<and>
      Writer_took sent (length (frame_head True op None n)) (frame_head True op None n) (ws_w c) (ws_w c2)"
    and "e \<noteq> None \<Longrightarrow> \<exists>k. c1 = c\<lparr>ws_w := ws_w c1\<rparr> \<and> Writer_took sent k (frame_head True op None n) (ws_w c) (ws_w c1)"
proof -
  let ?h = "frame_head True op None n"
  obtain k w1 where c1: "c1 = c\<lparr>ws_w := w1\<rparr>" and tk: "Writer_took sent k ?h (ws_w c) w1" and full: "e = None \<longrightarrow> k = length ?h"
    using WriteHeader_spec [OF ok, of op n] hd by auto
  show "e \<noteq> None \<Longrightarrow> \<exists>k. c1 = c\<lparr>ws_w := ws_w c1\<rparr> \<and> Writer_took sent k ?h (ws_w c) (ws_w c1)"
    using c1 tk by auto
  obtain w2 where pw: "Writer_Peek wrt (int m) w1 = (off, e', w2)" and c2: "c2 = c\<lparr>ws_w := w2\<rparr>"
    using pk c1 by (auto simp: Conn_Peek_def split: prod.splits)
  have ps: "if e' = None then \<exists>w. Writer_put off m put w2 = Ret w \<and> Writer_took sent m bs w1 w
      else Writer_took sent 0 [] w1 w2"
    by (rule Peek_put_spec [OF Writer_took_ok [OF tk] _ bs pw]) (simp add: put)
  show "\<exists>w. Writer_put off m put (ws_w c2) = Ret w \<and> c2\<lparr>ws_w := w\<rparr> = c\<lparr>ws_w := w\<rparr> \<and>
      Writer_took sent (length ?h + m) (?h @ bs) (ws_w c) w" if "e = None" "e' = None"
    using ps that full tk c2 Writer_took_seq [of sent ?h "ws_w c" w1 m bs] by auto
  show "c2 = c\<lparr>ws_w := ws_w c2\<rparr> \<and> Writer_took sent (length ?h) ?h (ws_w c) (ws_w c2)" if "e = None" "e' \<noteq> None"
    using ps that full tk c2 Writer_took_seq [of sent ?h "ws_w c" w1 0 "[]" w2] by auto
qed

lemma WriteWebsocket_spec:
  assumes ok: "Writer_ok (ws_w c)"
  shows "\<exists>k e w. Proto_WriteWebsocket wrt p c = Some (Ret (e, c\<lparr>ws_w := w\<rparr>)) \<and>
    Writer_took sent k (ws_frame True BinaryMessage None (proto_frame p)) (ws_w c) w \<and>
    (e = None \<longrightarrow> k = length (ws_frame True BinaryMessage None (proto_frame p)))"
proof -
  let ?n = "16 + length (body_bytes p)"
  let ?h = "frame_head True BinaryMessage None ?n" and ?p = "proto_header p ?n"
  have fr: "ws_frame True BinaryMessage None (proto_frame p) = ?h @ ?p @ body_bytes p"
    by (simp add: ws_frame_def length_proto_frame) (simp add: proto_frame_def)
  obtain e c1 where hd: "Conn_WriteHeader wrt (int BinaryMessage) (int ?n) c = Ret (e, c1)"
    using WriteHeader_spec [OF ok, of BinaryMessage ?n] by blast
  obtain off e' c2 where pk: "Conn_Peek wrt (int 16) c1 = (off, e', c2)" by (cases "Conn_Peek wrt (int 16) c1") auto
  have put: "\<forall>h. length h = 16 \<longrightarrow> put_header p (of_nat ?n) h = Ret ?p"
    using put_header_eq [of _ p ?n] by simp
  note hp = WriteHeader_put_spec [OF ok put length_proto_header hd pk]
  consider (e1) "e \<noteq> None" | (e2) "e = None" "e' \<noteq> None" | (ok) "e = None" "e' = None" by blast
  then show ?thesis
  proof cases
    case e1
    then obtain k where "c1 = c\<lparr>ws_w := ws_w c1\<rparr>" "Writer_took sent k ?h (ws_w c) (ws_w c1)" using hp(3) by auto
    then show ?thesis
      using hd e1 Writer_took_append [of sent k ?h "ws_w c" "ws_w c1" "?p @ body_bytes p"]
      by (intro exI [of _ k] exI [of _ e] exI [of _ "ws_w c1"]) (auto simp: Proto_WriteWebsocket_def layout_defs fr)
  next
    case e2
    then show ?thesis
      using hd pk hp(2) Writer_took_append [of sent "length ?h" ?h "ws_w c" "ws_w c2" "?p @ body_bytes p"]
      by (intro exI [of _ "length ?h"] exI [of _ e'] exI [of _ "ws_w c2"])
        (auto simp: Proto_WriteWebsocket_def layout_defs fr)
  next
    case ok
    obtain w where w: "Writer_put off 16 (put_header p (of_nat ?n)) (ws_w c2) = Ret w" "c2\<lparr>ws_w := w\<rparr> = c\<lparr>ws_w := w\<rparr>"
      "Writer_took sent (length ?h + 16) (?h @ ?p) (ws_w c) w"
      using hp(1) ok by blast
    obtain k e3 w3 where wb: "Conn_WriteBody wrt (body_bytes p) (c\<lparr>ws_w := w\<rparr>) = Some (Ret (e3, c\<lparr>ws_w := w3\<rparr>))"
      "Writer_took sent k (body_bytes p) w w3" "e3 = None \<longrightarrow> k = length (body_bytes p)"
      using WriteBody_spec [of "c\<lparr>ws_w := w\<rparr>" "body_bytes p"] Writer_took_ok [OF w(3)] by auto
    have run: "Proto_WriteWebsocket wrt p c = Conn_WriteBody wrt (body_bytes p) (c\<lparr>ws_w := w\<rparr>)"
      using hd pk ok w(1,2) by (cases "Body p")
        (simp_all add: Proto_WriteWebsocket_def layout_defs body_bytes_def Conn_WriteBody_def)
    show ?thesis
      using run wb Writer_took_seq [of sent "?h @ ?p" "ws_w c" w k "body_bytes p" w3] w(3)
      by (intro exI [of _ "length ?h + 16 + k"] exI [of _ e3] exI [of _ w3]) (simp add: fr)
  qed
qed

lemma WriteWebsocketHeart_spec:
  assumes ok: "Writer_ok (ws_w c)"
  shows "\<exists>k e w. Proto_WriteWebsocketHeart wrt p online c = Ret (e, c\<lparr>ws_w := w\<rparr>) \<and>
    Writer_took sent k (ws_frame True BinaryMessage None (proto_frame (p\<lparr>Body := Some (be32 online)\<rparr>))) (ws_w c) w \<and>
    (e = None \<longrightarrow> k = length (ws_frame True BinaryMessage None (proto_frame (p\<lparr>Body := Some (be32 online)\<rparr>))))"
proof -
  let ?h = "frame_head True BinaryMessage None 20" and ?p = "proto_header p 20 @ be32 online"
  have fr: "ws_frame True BinaryMessage None (proto_frame (p\<lparr>Body := Some (be32 online)\<rparr>)) = ?h @ ?p"
    by (simp add: ws_frame_def length_proto_frame body_bytes_def) (simp add: proto_frame_def proto_header_def body_bytes_def)
  obtain e c1 where hd: "Conn_WriteHeader wrt (int BinaryMessage) (int 20) c = Ret (e, c1)"
    using WriteHeader_spec [OF ok, of BinaryMessage 20] by blast
  obtain off e' c2 where pk: "Conn_Peek wrt (int 20) c1 = (off, e', c2)" by (cases "Conn_Peek wrt (int 20) c1") auto
  have put: "\<forall>h. length h = 20 \<longrightarrow> put_heart p online h = Ret ?p" using put_heart_eq by simp
  have len: "length ?p = 20" by simp
  note hp = WriteHeader_put_spec [OF ok put len hd pk]
  consider (e1) "e \<noteq> None" | (e2) "e = None" "e' \<noteq> None" | (ok) "e = None" "e' = None" by blast
  then show ?thesis
  proof cases
    case e1
    then obtain k where "c1 = c\<lparr>ws_w := ws_w c1\<rparr>" "Writer_took sent k ?h (ws_w c) (ws_w c1)" using hp(3) by auto
    then show ?thesis
      using hd e1 Writer_took_append [of sent k ?h "ws_w c" "ws_w c1" ?p]
      by (intro exI [of _ k] exI [of _ e] exI [of _ "ws_w c1"]) (auto simp: Proto_WriteWebsocketHeart_def layout_defs fr)
  next
    case e2
    then show ?thesis
      using hd pk hp(2) Writer_took_append [of sent "length ?h" ?h "ws_w c" "ws_w c2" ?p]
      by (intro exI [of _ "length ?h"] exI [of _ e'] exI [of _ "ws_w c2"])
        (auto simp: Proto_WriteWebsocketHeart_def layout_defs fr)
  next
    case ok
    then obtain w where "Writer_put off 20 (put_heart p online) (ws_w c2) = Ret w" "c2\<lparr>ws_w := w\<rparr> = c\<lparr>ws_w := w\<rparr>"
      "Writer_took sent (length ?h + 20) (?h @ ?p) (ws_w c) w"
      using hp(1) by blast
    then show ?thesis
      using hd pk ok by (intro exI [of _ "length ?h + 20"] exI [of _ None] exI [of _ w])
        (simp add: Proto_WriteWebsocketHeart_def layout_defs fr)
  qed
qed

end

section \<open>Reading a message\<close>

context live_reader
begin

lemma ReadTCP_at:
  assumes at: "Reader_at future sok N (proto_frame p @ rest) r" and N: "4096 \<le> N"
    and body: "length (body_bytes p) \<le> 4096"
  shows "\<exists>r'. Proto_ReadTCP read r q = Ret (None, proto_canon p, r') \<and> Reader_at future sok N rest r'"
proof -
  let ?n = "length (body_bytes p)"
  have str: "Reader_at future sok N (proto_header p (16 + ?n) @ (body_bytes p @ rest)) r"
    using at by (simp add: proto_frame_def)
  obtain r1 where pop: "Reader_Pop read 16 r = Ret (proto_header p (16 + ?n), None, r1)"
      and r1: "Reader_at future sok N (body_bytes p @ rest) r1"
    using Pop_at [OF str, of 16] N by auto
  have hdr: "get_header (proto_header p (16 + ?n)) q
      = Ret (of_nat (16 + ?n), 16, q\<lparr>Ver := scast (ucast (Ver p) :: int16), Op := Op p, Seq := Seq p\<rparr>)"
    using get_header_eq [of p "16 + ?n" "[]"] by simp
  note pl = pack_len [OF body]
  obtain r2 where pop2: "Reader_Pop read (int ?n) r1 = Ret (body_bytes p, None, r2)"
      and r2: "Reader_at future sok N rest r2"
    using Pop_at [OF r1, of "int ?n"] N body by auto
  show ?thesis
  proof (cases "body_bytes p = []")
    case True
    then show ?thesis
      using pop hdr pl r1 
      by (intro exI [of _ r1]) (simp add: Proto_ReadTCP_def layout_defs proto_canon_def)
  next
    case False
    then show ?thesis
      using pop hdr pl pop2 r2 body
      by (intro exI [of _ r2]) (simp add: Proto_ReadTCP_def layout_defs proto_canon_def)
  qed
qed

lemma ReadWebsocket_at:
  assumes fr: "fs \<noteq> []" "concat (map snd fs) = proto_frame p"
    and at: "Reader_at future sok N (ws_fragments op fs @ rest) (ws_r c)"
    and N: "8 \<le> N" "N < 2 ^ 63" and fok: "\<forall>f\<in>set fs. fragment_ok N f" and op: "op = BinaryMessage \<or> op = TextMessage"
    and mk: "\<forall>k. ws_maskKey c = Some k \<longrightarrow> length k = 4"
    and cnt: "length fs \<le> continuationFrameMaxRead + 2" and hd: "tl fs = [] \<or> snd (hd fs) \<noteq> []"
    and body: "length (body_bytes p) \<le> 4096"
  shows "\<exists>c'. Proto_ReadWebsocket newcap read wrt c q = Some (Ret (None, proto_canon p, c')) \<and>
    Reader_at future sok N rest (ws_r c') \<and> ws_w c' = ws_w c"
proof -
  let ?n = "length (body_bytes p)"
  have opn: "op \<noteq> continuationFrame" using op by (auto simp: op_defs)
  obtain sp c' where rm: "Conn_ReadMessage newcap read wrt c = Some (Ret (op, (proto_frame p, sp), None, c'))"
    and c': "Reader_at future sok N rest (ws_r c')" "ws_w c' = ws_w c"
    using ReadMessage_loop_fragments [OF fr(1) at N fok _ mk, of 0 "([], [])" newcap wrt 0] op opn cnt hd fr(2)
    by (auto simp: Conn_ReadMessage_def)
  have hdr: "get_header (proto_frame p) q
      = Ret (of_nat (16 + ?n), 16, q\<lparr>Ver := scast (ucast (Ver p) :: int16), Op := Op p, Seq := Seq p\<rparr>)"
    using get_header_eq [of p "16 + ?n" "body_bytes p"] by (simp add: proto_frame_def)
  have sl: "go_slice (proto_frame p) sp 16 (16 + ?n) = Ret (body_bytes p)"
    by (simp add: length_proto_frame) (simp add: proto_frame_def seg_def)
  note pl = pack_len [OF body]
  show ?thesis
    using rm c' hdr sl pl body
    by (intro exI [of _ c'])
      (auto simp: Proto_ReadWebsocket_def layout_defs proto_canon_def Let_def length_proto_frame)
qed

end

text \<open>The header of any sixteen bytes can be read; only the body of the message is kept.\<close>

lemma get_header_total:
  "16 \<le> length buf \<Longrightarrow> \<exists>pl hl v op sq. get_header buf p = Ret (pl, hl, p\<lparr>Ver := v, Op := op, Seq := sq\<rparr>)"
  by (auto simp: get_header_def layout_defs BigEndian_Int16_def BigEndian_Int32_def)

text \<open>
  The subtraction of the header length wraps only for the sixteen most negative packet lengths, and
  then gives one of the sixteen largest values.
\<close>

lemma signed_sub_16:
  assumes pl: "sint (pl :: int32) \<le> 4112" and nowrap: "sint (pl - scast (16 :: int16)) < 2 ^ 31 - 16"
  shows "sint (pl - scast (16 :: int16)) \<le> 4096"
proof -
  have lo: "- (2 ^ 31) \<le> sint pl" using sint_greater_eq [of pl] by simp
  have eq: "sint (pl - scast (16 :: int16)) = (sint pl - 16 + 2 ^ 31) mod 2 ^ 32 - 2 ^ 31"
    by (simp add: sint_word_diff signed_take_bit_eq_take_bit_shift take_bit_eq_mod)
  show ?thesis
  proof (cases "sint pl - 16 + 2 ^ 31 < 0")
    case True
    then have "(sint pl - 16 + 2 ^ 31) mod 2 ^ 32 = sint pl - 16 + 2 ^ 31 + 2 ^ 32"
      using lo mod_pos_pos_trivial [of "sint pl - 16 + 2 ^ 31 + 2 ^ 32" "2 ^ 32"]
      by (simp only: mod_add_self2) simp
    then show ?thesis using eq nowrap lo by simp
  next
    case False
    then have "(sint pl - 16 + 2 ^ 31) mod 2 ^ 32 = sint pl - 16 + 2 ^ 31" using pl by (intro mod_pos_pos_trivial) auto
    then show ?thesis using eq pl by simp
  qed
qed

context ws_conn
begin

text \<open>
  Whatever the peer sends, \<open>ReadTCP\<close> returns without a panic, and a body it accepts is within the
  limit.
\<close>

lemma ReadTCP_total:
  assumes ok: "Reader_ok sok r" and N: "16 \<le> length (rd_buf r)" "length (rd_buf r) < 2 ^ 31 - 16"
  shows "\<exists>e p' r'. Proto_ReadTCP read r p = Ret (e, p', r') \<and> Reader_ok sok r' \<and>
    length (rd_buf r') = length (rd_buf r) \<and>
    (e = None \<longrightarrow> length (body_bytes p') \<le> 4096 \<and>
       (\<exists>h. length h = 16 \<and> Reader_unread future r = h @ body_bytes p' @ Reader_unread future r'))"
proof -
  obtain d e r1 where pop: "Reader_Pop read 16 r = Ret (d, e, r1)" and r1: "Reader_ok sok r1"
    and un1: "Reader_unread future r = d @ Reader_unread future r1"
    and ld: "length d = (if e = None then nat 16 else 0)" and len1: "length (rd_buf r1) = length (rd_buf r)"
    using Pop_spec [OF ok, of 16] N by auto
  show ?thesis
  proof (cases "e = None")
    case False
    then show ?thesis using pop r1 len1 by (auto simp: Proto_ReadTCP_def layout_defs)
  next
    case True
    obtain pl hl v op sq where hdr: "get_header d p = Ret (pl, hl, p\<lparr>Ver := v, Op := op, Seq := sq\<rparr>)"
      using get_header_total [of d p] True ld by auto
    define bl where "bl = sint (pl - scast (16 :: int16))"
    consider (bad) "sint pl > 4112 \<or> hl \<noteq> 16" | (nobody) "sint pl \<le> 4112" "hl = 16" "bl \<le> 0"
      | (body) "sint pl \<le> 4112" "hl = 16" "0 < bl" by linarith
    then show ?thesis
    proof cases
      case bad
      then show ?thesis using pop hdr True r1 len1 by (auto simp: Proto_ReadTCP_def layout_defs)
    next
      case nobody
      then show ?thesis
        using pop hdr True r1 len1 ld un1 by (auto simp: Proto_ReadTCP_def layout_defs bl_def body_bytes_def)
    next
      case body
      obtain d2 e2 r2 where pop2: "Reader_Pop read bl r1 = Ret (d2, e2, r2)" "Reader_ok sok r2"
          "length (rd_buf r2) = length (rd_buf r1)" "e2 = None \<longrightarrow> 0 \<le> bl \<and> length d2 = nat bl \<and> nat bl \<le> rd_r r2"
        using Pop_total [OF r1, of bl] by (elim exE conjE) (rule that)
      have fits: "e2 = None \<Longrightarrow> bl \<le> int (length (rd_buf r1))"
        using pop2(1) Pop_bad_count(2) [of r1 bl] by (cases "bl \<le> int (length (rd_buf r1))") auto
      have un2: "e2 = None \<Longrightarrow> Reader_unread future r1 = d2 @ Reader_unread future r2"
        using Pop_spec [OF r1, of bl] fits body pop2(1) by auto
      have max: "e2 = None \<Longrightarrow> bl \<le> 4096"
        using signed_sub_16 [of pl] body fits N len1 by (simp add: bl_def)
      have "sint (pl - 16) = bl" by (simp add: bl_def)
      then have "Proto_ReadTCP read r p
          = Ret (e2, p\<lparr>Ver := v, Op := op, Seq := sq, Body := if e2 = None then Some d2 else None\<rparr>, r2)"
        using pop hdr True body pop2(1) by (simp add: Proto_ReadTCP_def layout_defs)
      then show ?thesis
        using True pop2 len1 un1 un2 ld max by (cases e2) (auto simp: body_bytes_def)
    qed
  qed
qed

end

section \<open>Properties\<close>

text \<open>Messages written one after the other, and messages read until the first error.\<close>

fun WriteTCP_all :: "'t io_write \<Rightarrow> Proto list \<Rightarrow> 't Writer \<Rightarrow> (error option \<times> 't Writer) run" where
  "WriteTCP_all wrt [] w = Some (Ret (Writer_Flush wrt w))"
| "WriteTCP_all wrt (p # ps) w =
     rbind (Proto_WriteTCP wrt p w) (\<lambda>(e, w').
       if e \<noteq> None then Some (Ret (e, w')) else WriteTCP_all wrt ps w')"

fun ReadTCP_many :: "'s io_read \<Rightarrow> nat \<Rightarrow> 's Reader \<Rightarrow> (error option \<times> Proto list \<times> 's Reader) outcome" where
  "ReadTCP_many read 0 r = Ret (None, [], r)"
| "ReadTCP_many read (Suc n) r =
     obind (Proto_ReadTCP read r Proto_zero) (\<lambda>(e, p, r').
       if e \<noteq> None then Ret (e, [], r')
       else obind (ReadTCP_many read n r') (\<lambda>(e, ps, r''). Ret (e, p # ps, r'')))"

lemma WriteTCP_all_spec:
  assumes io: "io_writer wrt sent" and ok: "Writer_ok w" and raw: "\<forall>p\<in>set ps. Op p \<noteq> OpRaw"
  shows "\<exists>e w'. WriteTCP_all wrt ps w = Some (Ret (e, w')) \<and> Writer_ok w' \<and>
    (e = None \<longrightarrow> sent (wr_wr w') = Writer_out sent w @ concat (map proto_frame ps))"
  using ok raw
proof (induction ps arbitrary: w)
  case Nil
  obtain e w' where fl: "Writer_flush wrt w = (e, w')" by (cases "Writer_flush wrt w") auto
  note fs = io_writer.flush_spec [OF io Nil.prems(1) fl]
  show ?case
    using fl fs(2,4) by (intro exI [of _ e] exI [of _ w']) (simp add: Writer_Flush_def)
next
  case (Cons p ps)
  have np: "Op p \<noteq> OpRaw" using Cons.prems(2) by simp
  obtain k e w1 where wr: "Proto_WriteTCP wrt p w = Some (Ret (e, w1))"
    and tk: "Writer_took sent k (proto_frame p) w w1" and full: "e = None \<longrightarrow> k = length (proto_frame p)"
    using io_writer.WriteTCP_spec [OF io Cons.prems(1), of p] np by auto
  show ?case
  proof (cases e)
    case (Some er)
    then show ?thesis using wr Writer_took_ok [OF tk] by simp
  next
    case None
    obtain e' w' where "WriteTCP_all wrt ps w1 = Some (Ret (e', w'))" "Writer_ok w'"
      "e' = None \<longrightarrow> sent (wr_wr w') = Writer_out sent w1 @ concat (map proto_frame ps)"
      using Cons.IH [OF Writer_took_ok [OF tk]] Cons.prems(2) by auto
    then show ?thesis using wr None tk full by (simp add: Writer_took_def)
  qed
qed

lemma ReadTCP_many_frames:
  assumes "live_reader read future sok" and "4096 \<le> N"
    and "\<forall>p\<in>set ps. length (body_bytes p) \<le> 4096"
    and "Reader_at future sok N (concat (map proto_frame ps) @ rest) r"
  shows "\<exists>r'. ReadTCP_many read (length ps) r = Ret (None, map proto_canon ps, r') \<and>
    Reader_at future sok N rest r'"
  using assms(3,4)
proof (induction ps arbitrary: r)
  case (Cons p ps)
  obtain r1 where r1: "Proto_ReadTCP read r Proto_zero = Ret (None, proto_canon p, r1)"
    "Reader_at future sok N (concat (map proto_frame ps) @ rest) r1"
    using live_reader.ReadTCP_at [OF assms(1) _ assms(2), of p "concat (map proto_frame ps) @ rest" r] Cons.prems
    by auto
  then show ?case using Cons.IH [OF _ r1(2)] Cons.prems(1) by auto
qed simp

text \<open>
  ReadTCP round trip. On any reader that delivers its stream, in whatever pieces, \<open>ReadTCP\<close>
  called as often as frames are in front reads exactly the messages that were framed, in order,
  and leaves the reader in front of the bytes that follow.
\<close>

theorem ReadTCP_frames:
  assumes "live_reader read future sok" and "4096 \<le> N"
    and "\<forall>p\<in>set ps. length (body_bytes p) \<le> 4096"
    and "Reader_at future sok N (concat (map proto_frame ps) @ rest) r"
  shows "\<exists>r'. ReadTCP_many read (length ps) r = Ret (None, map proto_canon ps, r') \<and>
    Reader_at future sok N rest r'"
  by (rule ReadTCP_many_frames [OF assms])

theorem ReadTCP_frames_witness:
  "\<exists>r'. ReadTCP_many conn_read (Suc (Suc 0)) (Reader_reset (replicate 4096 0) []
      (map (\<lambda>b. [b]) (proto_frame \<lparr>Ver = 1, Op = 4, Seq = 7, Body = Some [65, 66]\<rparr> @
         proto_frame \<lparr>Ver = 1, Op = 2, Seq = 8, Body = None\<rparr>)))
    = Ret (None, [\<lparr>Ver = 1, Op = 4, Seq = 7, Body = Some [65, 66]\<rparr>, \<lparr>Ver = 1, Op = 2, Seq = 8, Body = None\<rparr>], r')"
  using ReadTCP_frames [OF conn.live_reader_axioms, of 4096
      "[\<lparr>Ver = 1, Op = 4, Seq = 7, Body = Some [65, 66]\<rparr>, \<lparr>Ver = 1, Op = 2, Seq = 8, Body = None\<rparr>]" "[]"
      "Reader_reset (replicate 4096 0) []
      (map (\<lambda>b. [b]) (proto_frame \<lparr>Ver = 1, Op = 4, Seq = 7, Body = Some [65, 66]\<rparr> @
         proto_frame \<lparr>Ver = 1, Op = 2, Seq = 8, Body = None\<rparr>))"]
  by (auto simp: Reader_at_def Reader_reset_def Reader_ok_def Reader_drained_def Reader_unread_def body_bytes_def
      proto_canon_def concat_map_singleton simp del: map_append)

text \<open>
  C2 (TCP end to end). Messages (none of them raw) written with \<open>WriteTCP\<close> and flushed without an
  error on one side arrive on the other side of the connection, in order and equal up to the
  canonical form, however the network cuts the bytes into reads, and nothing else arrives.
\<close>

theorem TCP_end_to_end:
  assumes "io_writer wrt sent" and "live_reader read future sok"
    and "Writer_ok w" and "Writer_out sent w = []" and "\<forall>p\<in>set ps. Op p \<noteq> OpRaw"
    and "\<forall>p\<in>set ps. length (body_bytes p) \<le> 4096" and "WriteTCP_all wrt ps w = Some (Ret (None, w'))"
    and "4096 \<le> N" and "Reader_at future sok N (sent (wr_wr w')) r"
  shows "\<exists>r'. ReadTCP_many read (length ps) r = Ret (None, map proto_canon ps, r') \<and> Reader_at future sok N [] r'"
proof -
  have "sent (wr_wr w') = concat (map proto_frame ps) @ []"
    using WriteTCP_all_spec [OF assms(1,3,5)] assms(4,7) by auto
  then show ?thesis
    using ReadTCP_many_frames [OF assms(2,8,6), of "[]" r] assms(9) by simp
qed

theorem TCP_end_to_end_witness:
  "\<exists>w' r'. WriteTCP_all conn_write [\<lparr>Ver = 1, Op = 4, Seq = 7, Body = Some [65]\<rparr>]
      \<lparr>wr_err = None, wr_buf = replicate 16 0, wr_n = 0, wr_wr = \<lparr>co_quota = 100, co_log = []\<rparr>\<rparr> = Some (Ret (None, w')) \<and>
    ReadTCP_many conn_read 1 (Reader_reset (replicate 4096 0) [] [take 3 (co_log (wr_wr w')), drop 3 (co_log (wr_wr w'))])
      = Ret (None, [\<lparr>Ver = 1, Op = 4, Seq = 7, Body = Some [65]\<rparr>], r')"
proof -
  let ?p = "\<lparr>Ver = 1, Op = 4, Seq = 7, Body = Some [65]\<rparr>"
  let ?w = "\<lparr>wr_err = None, wr_buf = replicate 16 0, wr_n = 0, wr_wr = \<lparr>co_quota = 100, co_log = []\<rparr>\<rparr> :: conn_out Writer"
  have "(case WriteTCP_all conn_write [?p] ?w of Some (Ret (e, _)) \<Rightarrow> e = None | _ \<Rightarrow> False)" by code_simp
  then obtain w' where w': "WriteTCP_all conn_write [?p] ?w = Some (Ret (None, w'))"
    by (auto split: option.splits outcome.splits)
  show ?thesis
    using w' TCP_end_to_end [OF conn_out.io_writer_axioms conn.live_reader_axioms _ _ _ _ w', of 4096
        "Reader_reset (replicate 4096 0) [] [take 3 (co_log (wr_wr w')), drop 3 (co_log (wr_wr w'))]"]
    by (auto simp: Reader_at_def Reader_reset_def Reader_ok_def Reader_drained_def Reader_unread_def body_bytes_def
        proto_canon_def Writer_ok_def Writer_out_def OpRaw_def)
qed

text \<open>
  C8 (ReadTCP is total and bounded). Whatever the peer sends, \<open>ReadTCP\<close> returns without a panic on a
  buffer of at least 16 bytes; when it accepts a message, it has taken exactly the 16 bytes of the
  header and the body off the stream, and the body is at most \<open>MaxBodySize\<close> bytes long, also for the
  packet lengths where the 32-bit subtraction wraps.
\<close>

theorem ReadTCP_bounded:
  assumes "ws_conn read future sok wrt sent" and "Reader_ok sok r"
    and "16 \<le> length (rd_buf r)" and "length (rd_buf r) < 2 ^ 31 - 16"
  shows "\<exists>e p' r'. Proto_ReadTCP read r p = Ret (e, p', r') \<and> Reader_ok sok r' \<and>
    length (rd_buf r') = length (rd_buf r) \<and>
    (e = None \<longrightarrow> int (length (body_bytes p')) \<le> MaxBodySize \<and>
       (\<exists>h. length h = 16 \<and> Reader_unread future r = h @ body_bytes p' @ Reader_unread future r'))"
proof -
  have M: "int n \<le> MaxBodySize \<longleftrightarrow> n \<le> 4096" for n by (simp add: MaxBodySize_def)
  show ?thesis unfolding M by (rule ws_conn.ReadTCP_total [OF assms])
qed

theorem ReadTCP_bounded_witness:
  "\<exists>e p' r'. Proto_ReadTCP conn_read (Reader_reset (replicate 32 0) [] [be32 (2 ^ 31), be16 16, replicate 10 0]) Proto_zero
      = Ret (e, p', r') \<and> (e = None \<longrightarrow> int (length (body_bytes p')) \<le> MaxBodySize)"
  using ReadTCP_bounded [OF wsconn.ws_conn_axioms,
      of "Reader_reset (replicate 32 0) [] [be32 (2 ^ 31), be16 16, replicate 10 0]" Proto_zero]
  by (auto simp: Reader_reset_def Reader_ok_def)

text \<open>
  WriteTCP. \<open>WriteTCP\<close> returns; a message that is not raw is appended as its frame, a raw one as its
  bare body, or a prefix of these on an error.
\<close>

theorem WriteTCP_frame:
  assumes "io_writer wrt sent" and "Writer_ok w"
  shows "\<exists>k e w'. Proto_WriteTCP wrt p w = Some (Ret (e, w')) \<and> Writer_ok w' \<and>
    Writer_out sent w' = Writer_out sent w @ take k (if Op p = OpRaw then body_bytes p else proto_frame p) \<and>
    (e = None \<longrightarrow> k = length (if Op p = OpRaw then body_bytes p else proto_frame p))"
  using io_writer.WriteTCP_spec [OF assms, of p] unfolding Writer_took_def
  by (elim exE conjE) (intro exI conjI; assumption)

theorem WriteTCP_frame_witness:
  "\<exists>k e w'. Proto_WriteTCP conn_write \<lparr>Ver = 1, Op = 9, Seq = 0, Body = Some [1, 2, 3]\<rparr>
      \<lparr>wr_err = None, wr_buf = replicate 16 0, wr_n = 0, wr_wr = \<lparr>co_quota = 100, co_log = []\<rparr>\<rparr> = Some (Ret (e, w')) \<and>
    Writer_out co_log w' = take k [1, 2, 3]"
  using WriteTCP_frame [OF conn_out.io_writer_axioms,
      of "\<lparr>wr_err = None, wr_buf = replicate 16 0, wr_n = 0, wr_wr = \<lparr>co_quota = 100, co_log = []\<rparr>\<rparr>"
         "\<lparr>Ver = 1, Op = 9, Seq = 0, Body = Some [1, 2, 3]\<rparr>"]
  by (auto simp: Writer_ok_def Writer_out_def OpRaw_def body_bytes_def)

text \<open>
  Heartbeat replies: \<open>WriteTCPHeart\<close> appends the frame of the message whose body is the online
  count in four big-endian bytes.
\<close>

lemma WriteTCPHeart_frame:
  assumes "io_writer wrt sent" and "Writer_ok w"
  shows "\<exists>k e w'. Proto_WriteTCPHeart wrt p online w = Ret (e, w') \<and> Writer_ok w' \<and>
    Writer_out sent w' = Writer_out sent w @ take k (proto_frame (p\<lparr>Body := Some (be32 online)\<rparr>)) \<and> (e = None \<longrightarrow> k = 20)"
  using io_writer.WriteTCPHeart_spec [OF assms, of p online] unfolding Writer_took_def
  by (elim exE conjE) (intro exI conjI; assumption)

lemma WriteTCPHeart_frame_witness:
  "\<exists>k e w'. Proto_WriteTCPHeart conn_write \<lparr>Ver = 1, Op = 3, Seq = 0, Body = None\<rparr> 5
      \<lparr>wr_err = None, wr_buf = replicate 32 0, wr_n = 0, wr_wr = \<lparr>co_quota = 100, co_log = []\<rparr>\<rparr> = Ret (e, w') \<and>
    Writer_out co_log w' = take k (proto_frame \<lparr>Ver = 1, Op = 3, Seq = 0, Body = Some (be32 5)\<rparr>)"
  using WriteTCPHeart_frame [OF conn_out.io_writer_axioms,
      of "\<lparr>wr_err = None, wr_buf = replicate 32 0, wr_n = 0, wr_wr = \<lparr>co_quota = 100, co_log = []\<rparr>\<rparr>"
         "\<lparr>Ver = 1, Op = 3, Seq = 0, Body = None\<rparr>" 5]
  by (auto simp: Writer_ok_def Writer_out_def)

text \<open>
  Merging frames: \<open>WriteTo\<close> appends exactly the frame of the message to the byte writer, growing
  it as needed, and never panics.
\<close>

lemma WriteTo_frame:
  assumes "BytesWriter_ok b"
  shows "\<exists>b'. Proto_WriteTo p b = Ret b' \<and> BytesWriter_ok b' \<and>
    BytesWriter_Buffer b' = BytesWriter_Buffer b @ proto_frame p"
  by (rule WriteTo_spec [OF assms])

lemma WriteTo_frame_witness:
  "\<exists>b'. Proto_WriteTo \<lparr>Ver = 1, Op = 5, Seq = 2, Body = Some [9]\<rparr> (NewWriterSize 3) = Ret b' \<and>
    BytesWriter_Buffer b' = [0, 0, 0, 17, 0, 16, 0, 1, 0, 0, 0, 5, 0, 0, 0, 2, 9]"
  using WriteTo_frame [of "NewWriterSize 3" "\<lparr>Ver = 1, Op = 5, Seq = 2, Body = Some [9]\<rparr>"]
  by (auto simp: proto_frame_def proto_header_def body_bytes_def be32_def be16_def)

text \<open>
  C19 (ReadWebsocket round trip). A message sent over a WebSocket, in any number of fragments up to
  102, masked or not, is read back equal up to the canonical form.
\<close>

theorem ReadWebsocket_frame:
  assumes "live_reader read future sok" and "fs \<noteq> []" and "concat (map snd fs) = proto_frame p"
    and "Reader_at future sok N (ws_fragments op fs @ rest) (ws_r c)" and "8 \<le> N" and "N < 2 ^ 63"
    and "\<forall>f\<in>set fs. fragment_ok N f" and "op = BinaryMessage \<or> op = TextMessage"
    and "\<forall>k. ws_maskKey c = Some k \<longrightarrow> length k = 4"
    and "length fs \<le> continuationFrameMaxRead + 2" and "tl fs = [] \<or> snd (hd fs) \<noteq> []"
    and "length (body_bytes p) \<le> 4096"
  shows "\<exists>c'. Proto_ReadWebsocket newcap read wrt c q = Some (Ret (None, proto_canon p, c')) \<and>
    Reader_at future sok N rest (ws_r c') \<and> ws_w c' = ws_w c"
  by (rule live_reader.ReadWebsocket_at [OF assms])

theorem ReadWebsocket_frame_witness:
  "\<exists>c'. Proto_ReadWebsocket (\<lambda>_ n. n) conn_read conn_write
      (newConn (Reader_reset (replicate 64 0) []
         [ws_frame True BinaryMessage (Some [1, 2, 3, 4]) (proto_frame \<lparr>Ver = 1, Op = 4, Seq = 7, Body = Some [65]\<rparr>)])
       \<lparr>wr_err = None, wr_buf = [], wr_n = 0, wr_wr = \<lparr>co_quota = 0, co_log = []\<rparr>\<rparr>) Proto_zero
    = Some (Ret (None, \<lparr>Ver = 1, Op = 4, Seq = 7, Body = Some [65]\<rparr>, c'))"
  using ReadWebsocket_frame [OF conn.live_reader_axioms, where rest = "[]" and N = 64 and op = BinaryMessage
      and p = "\<lparr>Ver = 1, Op = 4, Seq = 7, Body = Some [65]\<rparr>"
      and fs = "[(Some [1, 2, 3, 4], proto_frame \<lparr>Ver = 1, Op = 4, Seq = 7, Body = Some [65]\<rparr>)]"
      and c = "newConn (Reader_reset (replicate 64 0) []
         [ws_frame True BinaryMessage (Some [1, 2, 3, 4]) (proto_frame \<lparr>Ver = 1, Op = 4, Seq = 7, Body = Some [65]\<rparr>)])
       \<lparr>wr_err = None, wr_buf = [], wr_n = 0, wr_wr = \<lparr>co_quota = 0, co_log = []\<rparr>\<rparr>"
      and newcap = "\<lambda>_ n. n" and wrt = conn_write and q = Proto_zero]
  by (auto simp: newConn_def Reader_at_def Reader_reset_def Reader_ok_def Reader_drained_def Reader_unread_def
      fragment_ok_def body_bytes_def proto_canon_def length_proto_frame continuationFrameMaxRead_def)

text \<open>
  WriteWebsocket. \<open>WriteWebsocket\<close> sends a message as one final binary frame whose payload is the
  frame of the message, or a prefix of it and an error; the rest of the connection is untouched.
\<close>

theorem WriteWebsocket_frame:
  assumes "io_writer wrt sent" and "Writer_ok (ws_w c)"
  shows "\<exists>k e w. Proto_WriteWebsocket wrt p c = Some (Ret (e, c\<lparr>ws_w := w\<rparr>)) \<and> Writer_ok w \<and>
    Writer_out sent w = Writer_out sent (ws_w c) @ take k (ws_frame True BinaryMessage None (proto_frame p)) \<and>
    (e = None \<longrightarrow> k = length (ws_frame True BinaryMessage None (proto_frame p)))"
  using io_writer.WriteWebsocket_spec [OF assms, of p] unfolding Writer_took_def
  by (elim exE conjE) (intro exI conjI; assumption)

theorem WriteWebsocket_frame_witness:
  "\<exists>k e w. Proto_WriteWebsocket conn_write \<lparr>Ver = 1, Op = 5, Seq = 2, Body = Some [9]\<rparr>
      (newConn (Reader_reset [] [] ([] :: byte list list))
       \<lparr>wr_err = None, wr_buf = replicate 16 0, wr_n = 0, wr_wr = \<lparr>co_quota = 100, co_log = []\<rparr>\<rparr>)
     = Some (Ret (e, newConn (Reader_reset [] [] []) w)) \<and>
    Writer_out co_log w = take k (ws_frame True BinaryMessage None (proto_frame \<lparr>Ver = 1, Op = 5, Seq = 2, Body = Some [9]\<rparr>))"
  using WriteWebsocket_frame [OF conn_out.io_writer_axioms, of "newConn (Reader_reset [] [] ([] :: byte list list))
       \<lparr>wr_err = None, wr_buf = replicate 16 0, wr_n = 0, wr_wr = \<lparr>co_quota = 100, co_log = []\<rparr>\<rparr>"
       "\<lparr>Ver = 1, Op = 5, Seq = 2, Body = Some [9]\<rparr>"]
  by (auto simp: newConn_def Writer_ok_def Writer_out_def)


end
