(* ===== verification/Ring.thy ===== *)
theory Ring
  imports Protocol
begin

text \<open>
  \<open>internal/comet/ring.go\<close>: the ring of messages between the goroutine that reads a connection and the
  one that writes it. The two counters are 64-bit words that run on and wrap; the slot is the counter
  masked to a power of two. \<open>Get\<close> and \<open>Set\<close> return a pointer into the array: the index of the slot.
  The debug log lines of \<open>GetAdv\<close> and \<open>SetAdv\<close> change no state and are left out.
\<close>

section \<open>State and operations\<close>

record Ring =
  rg_rp :: uint64
  rg_num :: uint64
  rg_mask :: uint64
  rg_wp :: uint64
  rg_data :: "Proto list"

text \<open>The loop \<open>for num&(num-1) != 0 { num &= num - 1 }\<close>.\<close>

function clear_bits :: "uint64 \<Rightarrow> uint64" where
  "clear_bits num = (if num AND (num - 1) \<noteq> 0 then clear_bits (num AND (num - 1)) else num)"
  by pat_completeness auto
termination
proof (relation "measure unat")
  fix num :: uint64
  assume "num AND (num - 1) \<noteq> 0"
  then have "num \<noteq> 0" by auto
  then have "num - 1 < num" by (simp add: word_less_nat_alt unat_minus_one unat_gt_0)
  then have "num AND (num - 1) < num" using word_and_le1 [of num "num - 1"] by (rule le_less_trans [rotated])
  then show "(num AND (num - 1), num) \<in> measure unat" by (simp add: word_less_nat_alt)
qed simp

declare clear_bits.simps [simp del]

definition Ring_init :: "uint64 \<Rightarrow> Ring \<Rightarrow> Ring" where
  "Ring_init num r =
     (let n = (if num AND (num - 1) \<noteq> 0 then push_bit 1 (clear_bits num) else num)
      in r\<lparr>rg_data := replicate (unat n) Proto_zero, rg_num := n, rg_mask := n - 1\<rparr>)"

definition Ring_zero :: Ring where
  "Ring_zero = \<lparr>rg_rp = 0, rg_num = 0, rg_mask = 0, rg_wp = 0, rg_data = []\<rparr>"

definition NewRing :: "int \<Rightarrow> Ring" where
  "NewRing num = Ring_init (word_of_int num) Ring_zero"

definition Ring_Init :: "int \<Rightarrow> Ring \<Rightarrow> Ring" where
  "Ring_Init num r = Ring_init (word_of_int num) r"

definition Ring_Get :: "Ring \<Rightarrow> (error + nat) outcome" where
  "Ring_Get r =
     (if rg_rp r = rg_wp r then Ret (Inl (Comet ErrRingEmpty))
      else let i = unat (rg_rp r AND rg_mask r)
           in if i < length (rg_data r) then Ret (Inr i) else Panic IndexOutOfRange)"

definition Ring_GetAdv :: "Ring \<Rightarrow> Ring" where
  "Ring_GetAdv r = r\<lparr>rg_rp := rg_rp r + 1\<rparr>"

definition Ring_Set :: "Ring \<Rightarrow> (error + nat) outcome" where
  "Ring_Set r =
     (if rg_wp r - rg_rp r \<ge> rg_num r then Ret (Inl (Comet ErrRingFull))
      else let i = unat (rg_wp r AND rg_mask r)
           in if i < length (rg_data r) then Ret (Inr i) else Panic IndexOutOfRange)"

definition Ring_SetAdv :: "Ring \<Rightarrow> Ring" where
  "Ring_SetAdv r = r\<lparr>rg_wp := rg_wp r + 1\<rparr>"

definition Ring_Reset :: "Ring \<Rightarrow> Ring" where
  "Ring_Reset r = r\<lparr>rg_rp := 0, rg_wp := 0\<rparr>"

text \<open>A read and a write through a slot pointer.\<close>

definition Ring_read :: "nat \<Rightarrow> Ring \<Rightarrow> Proto" where
  "Ring_read i r = rg_data r ! i"

definition Ring_write :: "nat \<Rightarrow> Proto \<Rightarrow> Ring \<Rightarrow> Ring" where
  "Ring_write i p r = r\<lparr>rg_data := (rg_data r)[i := p]\<rparr>"

section \<open>The size is rounded up to a power of two\<close>

lemma bit_unat: "bit (unat (y :: uint64)) n \<longleftrightarrow> bit y n"
  by (simp add: bit_unsigned_iff)

lemma bit_top:
  fixes y :: uint64
  assumes "unat y < 2 ^ Suc l"
  shows "bit y l \<longleftrightarrow> 2 ^ l \<le> unat y"
proof -
  have "bit y l \<longleftrightarrow> odd (unat y div 2 ^ l)" by (simp only: bit_unat [symmetric] bit_nat_def)
  moreover have "unat y div 2 ^ l < 2" using assms by (simp add: less_mult_imp_div_less mult.commute)
  moreover have "unat y div 2 ^ l \<noteq> 0 \<longleftrightarrow> 2 ^ l \<le> unat y" by (auto simp: div_eq_0_iff)
  ultimately show ?thesis by (metis One_nat_def even_zero less_2_cases odd_one)
qed

lemma and_pred_pow2:
  assumes "unat (x :: uint64) = 2 ^ l"
  shows "x AND (x - 1) = 0"
proof (rule bit_eqI)
  fix n
  have x0: "x \<noteq> 0" using assms by auto
  have "bit x n \<longleftrightarrow> n = l" using assms by (simp flip: bit_unat) (auto simp: bit_exp_iff)
  moreover have "\<not> bit (x - 1) l" proof -
    have "unat (x - 1) = 2 ^ l - 1" using assms x0 by (simp add: unat_minus_one)
    moreover have "2 ^ l - 1 < (2 :: nat) ^ l" "2 ^ l - 1 < (2 :: nat) ^ Suc l"
      unfolding power_Suc using zero_less_power [of "2 :: nat" l] by linarith+
    ultimately show ?thesis using bit_top [of "x - 1" l] by simp
  qed
  ultimately show "bit (x AND (x - 1)) n = bit 0 n" by (auto simp: bit_and_iff)
qed

lemma and_pred_top:
  assumes "2 ^ l < unat (x :: uint64)" and "unat x < 2 ^ Suc l"
  shows "2 ^ l \<le> unat (x AND (x - 1))" and "unat (x AND (x - 1)) < 2 ^ Suc l"
proof -
  have x0: "x \<noteq> 0" using assms by auto
  have p: "unat (x - 1) = unat x - 1" using x0 by (simp add: unat_minus_one)
  show lt: "unat (x AND (x - 1)) < 2 ^ Suc l"
    using word_and_le2 [of x "x - 1"] assms(2) by (simp add: word_le_nat_alt)
  have "bit x l" "bit (x - 1) l" using bit_top [of x l] bit_top [of "x - 1" l] assms p by auto
  then have "bit (x AND (x - 1)) l" by (simp add: bit_and_iff)
  then show "2 ^ l \<le> unat (x AND (x - 1))" using bit_top [OF lt] by simp
qed

lemma clear_bits_top:
  assumes "2 ^ l \<le> unat x" and "unat x < 2 ^ Suc l"
  shows "unat (clear_bits x) = 2 ^ l"
  using assms
proof (induction x rule: clear_bits.induct)
  case (1 x)
  show ?case
  proof (cases "unat x = 2 ^ l")
    case True
    then show ?thesis using and_pred_pow2 [OF True] by (simp add: clear_bits.simps [of x])
  next
    case False
    then have "2 ^ l < unat x" using "1.prems" by simp
    note tp = and_pred_top [OF this "1.prems"(2)]
    have "x AND (x - 1) \<noteq> 0" using tp(1) by auto
    then show ?thesis using "1.IH" tp by (simp add: clear_bits.simps [of x])
  qed
qed

lemma pow2_of_and_pred:
  assumes "x AND (x - 1) = 0" and "(x :: uint64) \<noteq> 0"
  shows "\<exists>l<64. unat x = 2 ^ l"
proof -
  have "0 < unat x" using assms(2) by (simp add: unat_gt_0)
  then obtain l where l: "2 ^ l \<le> unat x" "unat x < 2 ^ Suc l"
    using ex_power_ivl1 [of 2 "unat x"] by auto
  have "unat x = 2 ^ l"
  proof (rule ccontr)
    assume "unat x \<noteq> 2 ^ l"
    then have "2 ^ l < unat x" using l by simp
    from and_pred_top(1) [OF this l(2)] show False using assms(1) by simp
  qed
  moreover have "unat x < 2 ^ 64" using unsigned_less [of x, where 'a = nat] by simp
  ultimately show ?thesis by (metis power_less_imp_less_exp one_less_numeral_iff semiring_norm(76))
qed

text \<open>The number of slots is the least power of two that is not smaller than the number asked for.\<close>

lemma Ring_init_size:
  assumes "0 < unat num" and "unat num \<le> 2 ^ 63"
  shows "\<exists>l<64. unat (rg_num (Ring_init num r)) = 2 ^ l \<and> unat num \<le> 2 ^ l \<and> 2 ^ l < 2 * unat num"
proof (cases "num AND (num - 1) = 0")
  case True
  moreover have "num \<noteq> 0" using assms by auto
  ultimately obtain l where "l < 64" "unat num = 2 ^ l" using pow2_of_and_pred by blast
  then show ?thesis using True by (intro exI [of _ l]) (simp add: Ring_init_def)
next
  case False
  obtain l where l: "2 ^ l \<le> unat num" "unat num < 2 ^ Suc l"
    using ex_power_ivl1 [of 2 "unat num"] assms(1) by auto
  have ne: "unat num \<noteq> 2 ^ l" using and_pred_pow2 [of num l] False by auto
  have "2 ^ l < (2 :: nat) ^ 63" using l(1) ne assms(2) by linarith
  then have l63: "l < 63" by (metis power_less_imp_less_exp one_less_numeral_iff semiring_norm(76))
  have "unat (push_bit 1 (clear_bits num)) = 2 ^ Suc l"
  proof -
    have "unat (clear_bits num) = 2 ^ l" using clear_bits_top [OF l] .
    moreover have "(2 :: nat) ^ Suc l < 2 ^ 64" using l63 by (intro power_strict_increasing) auto
    ultimately show ?thesis
      by (simp add: push_bit_eq_mult unat_word_ariths)
  qed
  then show ?thesis using l ne l63 False by (intro exI [of _ "Suc l"]) (auto simp: Ring_init_def Let_def)
qed

section \<open>A queue\<close>

text \<open>
  The contract of a bounded first-in first-out queue: \<open>contents\<close> is the list of what is in it, \<open>put\<close>
  refuses exactly when \<open>cap\<close> elements are in it, \<open>get\<close> exactly when it is empty.
\<close>

locale bounded_queue =
  fixes ok :: "'q \<Rightarrow> bool" and contents :: "'q \<Rightarrow> 'a list" and cap :: "'q \<Rightarrow> nat"
    and put :: "'a \<Rightarrow> 'q \<Rightarrow> 'q option" and get :: "'q \<Rightarrow> ('a \<times> 'q) option"
  assumes put_full: "ok q \<Longrightarrow> put x q = None \<longleftrightarrow> length (contents q) = cap q"
    and put_some: "ok q \<Longrightarrow> put x q = Some q' \<Longrightarrow> ok q' \<and> contents q' = contents q @ [x] \<and> cap q' = cap q"
    and get_empty: "ok q \<Longrightarrow> get q = None \<longleftrightarrow> contents q = []"
    and get_some: "ok q \<Longrightarrow> get q = Some (x, q') \<Longrightarrow> ok q' \<and> contents q = x # contents q' \<and> cap q' = cap q"
    and bounded: "ok q \<Longrightarrow> length (contents q) \<le> cap q"

text \<open>A history of puts and gets: what was accepted and what came out.\<close>

datatype 'a queue_op = QPut 'a | QGet

fun queue_run :: "('a \<Rightarrow> 'q \<Rightarrow> 'q option) \<Rightarrow> ('q \<Rightarrow> ('a \<times> 'q) option) \<Rightarrow> 'a queue_op list \<Rightarrow> 'q \<Rightarrow> 'a list \<times> 'a list \<times> 'q" where
  "queue_run put get [] q = ([], [], q)"
| "queue_run put get (QPut x # ops) q =
     (case put x q of
        None \<Rightarrow> queue_run put get ops q
      | Some q' \<Rightarrow> (case queue_run put get ops q' of (ins, outs, q'') \<Rightarrow> (x # ins, outs, q'')))"
| "queue_run put get (QGet # ops) q =
     (case get q of
        None \<Rightarrow> queue_run put get ops q
      | Some (x, q') \<Rightarrow> (case queue_run put get ops q' of (ins, outs, q'') \<Rightarrow> (ins, x # outs, q'')))"

context bounded_queue
begin

lemma fifo:
  assumes "ok q" and "queue_run put get ops q = (ins, outs, q')"
  shows "ok q' \<and> contents q @ ins = outs @ contents q' \<and> cap q' = cap q"
  using assms
proof (induction ops arbitrary: q ins outs)
  case (Cons op ops)
  show ?case
  proof (cases op)
    case (QPut x)
    then show ?thesis
      using Cons.prems Cons.IH put_some [OF Cons.prems(1)]
      by (auto split: option.splits prod.splits) (metis append.assoc append_Cons append_Nil)+
  next
    case QGet
    then show ?thesis
      using Cons.prems Cons.IH get_some [OF Cons.prems(1)]
      by (auto split: option.splits prod.splits)
  qed
qed simp

end

section \<open>The ring is one\<close>

text \<open>
  The counters differ by at most the number of slots, which is a power of two; this is modulo
  \<open>2 ^ 64\<close>, so the counters may wrap.
\<close>

definition Ring_ok :: "Ring \<Rightarrow> bool" where
  "Ring_ok r \<longleftrightarrow> (\<exists>l<64. rg_num r = 2 ^ l \<and> rg_mask r = 2 ^ l - 1 \<and> length (rg_data r) = 2 ^ l \<and>
     unat (rg_wp r - rg_rp r) \<le> 2 ^ l)"

definition Ring_slot :: "Ring \<Rightarrow> nat \<Rightarrow> nat" where
  "Ring_slot r i = unat ((rg_rp r + of_nat i) AND rg_mask r)"

definition Ring_contents :: "Ring \<Rightarrow> Proto list" where
  "Ring_contents r = map (\<lambda>i. rg_data r ! Ring_slot r i) [0..<unat (rg_wp r - rg_rp r)]"

text \<open>What the reading goroutine does to enqueue a message, and the writing one to dequeue it.\<close>

definition Ring_put :: "Proto \<Rightarrow> Ring \<Rightarrow> Ring option" where
  "Ring_put p r = (case Ring_Set r of Ret (Inr i) \<Rightarrow> Some (Ring_SetAdv (Ring_write i p r)) | _ \<Rightarrow> None)"

definition Ring_take :: "Ring \<Rightarrow> (Proto \<times> Ring) option" where
  "Ring_take r = (case Ring_Get r of Ret (Inr i) \<Rightarrow> Some (Ring_read i r, Ring_GetAdv r) | _ \<Rightarrow> None)"

lemma and_mask_mod: "l < 64 \<Longrightarrow> unat ((x :: uint64) AND (2 ^ l - 1)) = unat x mod 2 ^ l"
proof -
  have "unat (x AND (2 ^ l - 1)) = unat (take_bit l x)"
    by (simp only: mask_eq_exp_minus_1 [symmetric] take_bit_eq_mask)
  also have "\<dots> = take_bit l (unat x)" by (simp only: unsigned_take_bit_eq)
  finally show ?thesis by (simp add: take_bit_eq_mod)
qed

lemma slot_mod:
  assumes "l < 64" and "rg_mask r = 2 ^ l - 1"
  shows "Ring_slot r i = (unat (rg_rp r) + i) mod 2 ^ l"
proof -
  have dv: "(2 :: nat) ^ l dvd 2 ^ 64" using assms(1) by (intro le_imp_power_dvd) simp
  have "unat (rg_rp r + of_nat i) = (unat (rg_rp r) + i) mod 2 ^ 64"
    by (simp add: unat_word_ariths unat_of_nat mod_add_right_eq)
  then show ?thesis
    using assms dv by (simp add: Ring_slot_def and_mask_mod mod_mod_cancel)
qed

text \<open>Fewer than \<open>2 ^ l\<close> consecutive counters have different slots.\<close>

lemma slot_inj:
  assumes "(a + i) mod (2 :: nat) ^ l = (a + j) mod 2 ^ l" and "i < 2 ^ l" and "j < 2 ^ l"
  shows "i = j"
proof -
  have le: "x = y" if "(a + x) mod (2 :: nat) ^ l = (a + y) mod 2 ^ l" "x \<le> y" "y < 2 ^ l" for x y
  proof -
    have "2 ^ l dvd (a + y) - (a + x)" using that(1,2) mod_eq_dvd_iff_nat [of "a + x" "a + y" "2 ^ l"] by simp
    then show ?thesis using that(2,3) by (auto dest: dvd_imp_le)
  qed
  show ?thesis using le [of i j] le [of j i] assms by (cases "i \<le> j") auto
qed

lemma count_succ:
  fixes w r :: uint64
  assumes "unat (w - r) < 2 ^ l" and "l < 64"
  shows "unat (w + 1 - r) = Suc (unat (w - r))"
proof -
  have "(2 :: nat) ^ l < 2 ^ 64" using assms(2) by (intro power_strict_increasing) auto
  then have "unat (w - r) + 1 < 2 ^ 64" using assms(1) by simp
  then have "unat ((w - r) + 1) = Suc (unat (w - r))" by (simp only: unat_word_ariths(1)) simp
  moreover have "w + 1 - r = (w - r) + 1" by simp
  ultimately show ?thesis by (simp only:)
qed

lemma count_pred:
  fixes w r :: uint64
  assumes "w \<noteq> r"
  shows "unat (w - (r + 1)) = unat (w - r) - 1"
proof -
  have "w - (r + 1) = (w - r) - 1" by simp
  moreover have "unat ((w - r) - 1) = unat (w - r) - 1" using assms by (intro unat_minus_one) simp
  ultimately show ?thesis by (simp only:)
qed

lemma Ring_pow: "l < 64 \<Longrightarrow> unat (2 ^ l :: uint64) = 2 ^ l"
proof -
  assume "l < 64"
  then have "(2 :: nat) ^ l < 2 ^ 64" by (intro power_strict_increasing) auto
  then have "unat (of_nat (2 ^ l) :: uint64) = 2 ^ l" by (simp only: unat_of_nat) simp
  then show ?thesis by simp
qed

lemma Ring_Set_cases:
  assumes ok: "Ring_ok r"
  shows "Ring_Set r = (if length (Ring_contents r) = length (rg_data r) then Ret (Inl (Comet ErrRingFull))
    else Ret (Inr (Ring_slot r (length (Ring_contents r)))))"
    and "length (Ring_contents r) \<noteq> length (rg_data r) \<Longrightarrow> Ring_slot r (length (Ring_contents r)) < length (rg_data r)"
proof -
  obtain l where l: "l < 64" "rg_num r = 2 ^ l" "rg_mask r = 2 ^ l - 1" "length (rg_data r) = 2 ^ l"
    "unat (rg_wp r - rg_rp r) \<le> 2 ^ l" using ok by (auto simp: Ring_ok_def)
  have slot: "unat (rg_wp r AND rg_mask r) = Ring_slot r (length (Ring_contents r))"
    by (simp add: Ring_slot_def Ring_contents_def)
  have lt: "Ring_slot r n < 2 ^ l" for n using slot_mod [OF l(1,3)] by simp
  show "Ring_Set r = (if length (Ring_contents r) = length (rg_data r) then Ret (Inl (Comet ErrRingFull))
    else Ret (Inr (Ring_slot r (length (Ring_contents r)))))"
    using l lt slot Ring_pow [OF l(1)]
    by (auto simp: Ring_Set_def Ring_contents_def Let_def word_le_nat_alt)
  show "Ring_slot r (length (Ring_contents r)) < length (rg_data r)" using lt l(4) by simp
qed

lemma Ring_Get_cases:
  assumes ok: "Ring_ok r"
  shows "Ring_Get r = (if Ring_contents r = [] then Ret (Inl (Comet ErrRingEmpty)) else Ret (Inr (Ring_slot r 0)))"
    and "Ring_contents r \<noteq> [] \<Longrightarrow> Ring_read (Ring_slot r 0) r = hd (Ring_contents r)"
proof -
  obtain l where l: "l < 64" "rg_mask r = 2 ^ l - 1" "length (rg_data r) = 2 ^ l" using ok by (auto simp: Ring_ok_def)
  have lt: "Ring_slot r n < 2 ^ l" for n using slot_mod [OF l(1,2)] by simp
  have emp: "Ring_contents r = [] \<longleftrightarrow> rg_rp r = rg_wp r" by (auto simp: Ring_contents_def unat_eq_0)
  show "Ring_Get r = (if Ring_contents r = [] then Ret (Inl (Comet ErrRingEmpty)) else Ret (Inr (Ring_slot r 0)))"
    using lt [of 0] l(3) emp by (simp add: Ring_Get_def Let_def Ring_slot_def)
  show "Ring_contents r \<noteq> [] \<Longrightarrow> Ring_read (Ring_slot r 0) r = hd (Ring_contents r)"
    by (simp add: Ring_contents_def Ring_read_def hd_map upt_conv_Cons)
qed

text \<open>Writing to the slot that \<open>Set\<close> returned touches none of the messages in the ring.\<close>

lemma Ring_put_contents:
  fixes p :: Proto
  assumes ok: "Ring_ok r" and nf: "length (Ring_contents r) \<noteq> length (rg_data r)"
  defines "r' \<equiv> Ring_SetAdv (Ring_write (Ring_slot r (length (Ring_contents r))) p r)"
  shows "Ring_ok r'" and "Ring_contents r' = Ring_contents r @ [p]" and "length (rg_data r') = length (rg_data r)"
proof -
  let ?n = "unat (rg_wp r - rg_rp r)"
  obtain l where l: "l < 64" "rg_num r = 2 ^ l" "rg_mask r = 2 ^ l - 1" "length (rg_data r) = 2 ^ l"
    "?n \<le> 2 ^ l" using ok by (auto simp: Ring_ok_def)
  have n: "?n < 2 ^ l" "length (Ring_contents r) = ?n" using nf l by (simp_all add: Ring_contents_def)
  have cnt: "unat (rg_wp r' - rg_rp r') = Suc ?n"
    using count_succ [OF n(1) l(1)] by (simp add: r'_def Ring_SetAdv_def Ring_write_def)
  show "length (rg_data r') = length (rg_data r)" by (simp add: r'_def Ring_SetAdv_def Ring_write_def)
  show "Ring_ok r'"
    unfolding Ring_ok_def using l n(1) cnt by (intro exI [of _ l]) (simp add: r'_def Ring_SetAdv_def Ring_write_def)
  have slot: "Ring_slot r' i = Ring_slot r i" for i by (simp add: Ring_slot_def r'_def Ring_SetAdv_def Ring_write_def)
  have ne: "Ring_slot r i \<noteq> Ring_slot r ?n" if "i < ?n" for i
    using slot_inj [of "unat (rg_rp r)" i l ?n] slot_mod [OF l(1,3)] that n(1) by auto
  have "Ring_slot r ?n < length (rg_data r)" using slot_mod [OF l(1,3)] l(4) by simp
  then have nth: "rg_data r' ! Ring_slot r i = (if i = ?n then p else rg_data r ! Ring_slot r i)" if "i \<le> ?n" for i
    using that ne [of i] n(2) by (cases "i = ?n") (auto simp: r'_def Ring_SetAdv_def Ring_write_def nth_list_update)
  show "Ring_contents r' = Ring_contents r @ [p]"
    using nth by (simp add: Ring_contents_def cnt slot)
qed

lemma Ring_take_contents:
  assumes ok: "Ring_ok r" and ne: "Ring_contents r \<noteq> []"
  shows "Ring_ok (Ring_GetAdv r)" and "Ring_contents (Ring_GetAdv r) = tl (Ring_contents r)"
proof -
  let ?n = "unat (rg_wp r - rg_rp r)"
  have wr: "rg_wp r \<noteq> rg_rp r" using ne by (auto simp: Ring_contents_def)
  have cnt: "unat (rg_wp r - (rg_rp r + 1)) = ?n - 1" using count_pred [OF wr] .
  have n: "0 < ?n" using wr by (simp add: unat_gt_0)
  show "Ring_ok (Ring_GetAdv r)" using ok cnt unfolding Ring_ok_def
    by (auto simp: Ring_GetAdv_def)
  have slot: "Ring_slot (Ring_GetAdv r) i = Ring_slot r (Suc i)" for i
    by (simp add: Ring_slot_def Ring_GetAdv_def add.assoc)
  have "[0..<?n] = 0 # map Suc [0..<?n - 1]" using n by (simp add: upt_conv_Cons map_Suc_upt)
  then show "Ring_contents (Ring_GetAdv r) = tl (Ring_contents r)"
    using cnt by (simp add: Ring_contents_def slot o_def) (simp add: Ring_GetAdv_def)
qed

text \<open>Writes to a slot that is not in use, and to the slot that \<open>Get\<close> returned before \<open>GetAdv\<close>.\<close>

lemma Ring_write_unused:
  assumes ok: "Ring_ok r" and i: "\<forall>j<length (Ring_contents r). Ring_slot r j \<noteq> i"
  shows "Ring_ok (Ring_write i p r) \<and> Ring_contents (Ring_write i p r) = Ring_contents r"
proof -
  have "Ring_slot (Ring_write i p r) j = Ring_slot r j" for j by (simp add: Ring_slot_def Ring_write_def)
  then have "Ring_contents (Ring_write i p r) = Ring_contents r"
    using i by (simp add: Ring_contents_def) (auto simp: Ring_write_def)
  then show ?thesis using ok by (auto simp: Ring_ok_def Ring_write_def)
qed

lemma Ring_slot_apart:
  assumes ok: "Ring_ok r" and "i < j" and "j < length (rg_data r)"
  shows "Ring_slot r i \<noteq> Ring_slot r j"
proof -
  obtain l where l: "l < 64" "rg_mask r = 2 ^ l - 1" "length (rg_data r) = 2 ^ l" using ok by (auto simp: Ring_ok_def)
  then show ?thesis using slot_inj [of "unat (rg_rp r)" i l j] slot_mod [OF l(1,2)] assms(2,3) by auto
qed

lemma Ring_contents_le: "Ring_ok r \<Longrightarrow> length (Ring_contents r) \<le> length (rg_data r)"
  by (auto simp: Ring_ok_def Ring_contents_def)

lemma ring_data_pos: "Ring_ok r \<Longrightarrow> 0 < length (rg_data r)" by (auto simp: Ring_ok_def)

lemma Ring_Set_write:
  assumes ok: "Ring_ok r" and i: "Ring_Set r = Ret (Inr i)"
  shows "Ring_ok (Ring_write i p r) \<and> Ring_contents (Ring_write i p r) = Ring_contents r \<and> Ring_Set (Ring_write i p r) = Ret (Inr i)"
proof -
  have n: "length (Ring_contents r) \<noteq> length (rg_data r)" "i = Ring_slot r (length (Ring_contents r))"
    using i Ring_Set_cases(1) [OF ok] by (auto split: if_splits)
  have "\<forall>j<length (Ring_contents r). Ring_slot r j \<noteq> i"
    using Ring_slot_apart [OF ok] n Ring_contents_le [OF ok] by auto
  then have "Ring_ok (Ring_write i p r)" "Ring_contents (Ring_write i p r) = Ring_contents r" using Ring_write_unused [OF ok] by auto
  moreover have "Ring_Set (Ring_write i p r) = Ring_Set r" by (simp add: Ring_Set_def Ring_write_def)
  ultimately show ?thesis using i by simp
qed

lemma Ring_take_write:
  assumes ok: "Ring_ok r" and ne: "Ring_contents r \<noteq> []"
  shows "Ring_ok (Ring_GetAdv (Ring_write (Ring_slot r 0) q r)) \<and> Ring_contents (Ring_GetAdv (Ring_write (Ring_slot r 0) q r)) = tl (Ring_contents r)"
proof -
  note t = Ring_take_contents [OF ok ne]
  have sl: "Ring_slot (Ring_GetAdv r) j = Ring_slot r (Suc j)" for j by (simp add: Ring_slot_def Ring_GetAdv_def add.assoc)
  have "\<forall>j<length (Ring_contents (Ring_GetAdv r)). Ring_slot (Ring_GetAdv r) j \<noteq> Ring_slot r 0"
  proof (intro allI impI)
    fix j assume "j < length (Ring_contents (Ring_GetAdv r))"
    then have "Suc j < length (rg_data r)" using t(2) Ring_contents_le [OF ok] by simp
    then show "Ring_slot (Ring_GetAdv r) j \<noteq> Ring_slot r 0" using Ring_slot_apart [OF ok, of 0 "Suc j"] sl by simp
  qed
  then have "Ring_ok (Ring_write (Ring_slot r 0) q (Ring_GetAdv r)) \<and> Ring_contents (Ring_write (Ring_slot r 0) q (Ring_GetAdv r)) = tl (Ring_contents r)"
    using Ring_write_unused [OF t(1)] t(2) by simp
  moreover have "Ring_write (Ring_slot r 0) q (Ring_GetAdv r) = Ring_GetAdv (Ring_write (Ring_slot r 0) q r)"
    by (simp add: Ring_write_def Ring_GetAdv_def)
  ultimately show ?thesis by simp
qed

interpretation ring: bounded_queue Ring_ok Ring_contents "\<lambda>r. length (rg_data r)" Ring_put Ring_take
proof
  fix r assume ok: "Ring_ok r"
  show "length (Ring_contents r) \<le> length (rg_data r)"
    using ok by (auto simp: Ring_ok_def Ring_contents_def)
  show "(Ring_put x r = None) = (length (Ring_contents r) = length (rg_data r))" for x
    using Ring_Set_cases(1) [OF ok] by (simp add: Ring_put_def)
  show "Ring_ok r' \<and> Ring_contents r' = Ring_contents r @ [x] \<and> length (rg_data r') = length (rg_data r)"
    if "Ring_put x r = Some r'" for x r'
    using that Ring_Set_cases(1) [OF ok] Ring_put_contents [OF ok, of x]
    by (auto simp: Ring_put_def split: if_splits)
  show "(Ring_take r = None) = (Ring_contents r = [])"
    using Ring_Get_cases(1) [OF ok] by (simp add: Ring_take_def)
  show "Ring_ok r' \<and> Ring_contents r = x # Ring_contents r' \<and> length (rg_data r') = length (rg_data r)"
    if "Ring_take r = Some (x, r')" for x r'
  proof -
    have ne: "Ring_contents r \<noteq> []" and x: "x = hd (Ring_contents r)" and r': "r' = Ring_GetAdv r"
      using that Ring_Get_cases [OF ok] by (auto simp: Ring_take_def split: if_splits)
    then show ?thesis using Ring_take_contents [OF ok ne] by (simp add: Ring_GetAdv_def)
  qed
qed

lemma NewRing_ok:
  assumes "0 < num" and "num \<le> 2 ^ 63"
  shows "Ring_ok (NewRing num)" and "Ring_contents (NewRing num) = []"
proof -
  have u: "unat (word_of_int num :: uint64) = nat num"
    using assms by (simp add: unsigned_of_int take_bit_int_eq_self)
  obtain l where l: "l < 64" "unat (rg_num (NewRing num)) = 2 ^ l"
    using Ring_init_size [of "word_of_int num" Ring_zero] u assms by (auto simp: NewRing_def nat_le_iff)
  have n: "rg_num (NewRing num) = 2 ^ l" using l Ring_pow [OF l(1)] by (simp add: word_unat_eq_iff)
  then show "Ring_ok (NewRing num)"
    using l unfolding Ring_ok_def
    by (intro exI [of _ l]) (auto simp: NewRing_def Ring_init_def Ring_zero_def Let_def)
  show "Ring_contents (NewRing num) = []"
    by (simp add: NewRing_def Ring_init_def Ring_zero_def Let_def Ring_contents_def)
qed

section \<open>Properties\<close>

text \<open>
  C9 (the ring is a bounded FIFO). From a well-formed ring, wherever its counters stand (also when
  they wrap around), after any sequence of writes (\<open>Set\<close>, fill the slot, \<open>SetAdv\<close>) and reads (\<open>Get\<close>,
  \<open>GetAdv\<close>), the messages read are the messages that were in the ring followed by those accepted, in
  order and without gaps, and the rest is still in the ring; no slot index is out of range.
\<close>

theorem ring_fifo:
  assumes "Ring_ok r" and "queue_run Ring_put Ring_take ops r = (ins, outs, r')"
  shows "Ring_ok r' \<and> Ring_contents r @ ins = outs @ Ring_contents r' \<and> length (rg_data r') = length (rg_data r)"
  by (rule ring.fifo [OF assms])

theorem ring_fifo_witness:
  "\<exists>ins outs r'. queue_run Ring_put Ring_take [QPut ProtoReady, QPut ProtoFinish, QGet, QPut Proto_zero]
      ((NewRing 2)\<lparr>rg_rp := -1, rg_wp := -1\<rparr>) = (ins, outs, r') \<and> ins = outs @ Ring_contents r'"
proof -
  let ?r = "(NewRing 2)\<lparr>rg_rp := -1, rg_wp := -1\<rparr>"
  obtain ins outs r' where q: "queue_run Ring_put Ring_take [QPut ProtoReady, QPut ProtoFinish, QGet, QPut Proto_zero] ?r = (ins, outs, r')"
    by (metis prod_cases3)
  have "Ring_ok ?r" using NewRing_ok(1) [of 2] unfolding Ring_ok_def by auto
  moreover have "Ring_contents ?r = []" by (simp add: Ring_contents_def)
  ultimately show ?thesis using ring_fifo [OF _ q] q by simp
qed

text \<open>
  Full and empty. \<open>Set\<close> fails with \<open>ErrRingFull\<close> exactly when every slot holds a message that was not
  read, \<open>Get\<close> with \<open>ErrRingEmpty\<close> exactly when there is none; otherwise the slot \<open>Set\<close> returns is not one
  of a message in the ring, and the one \<open>Get\<close> returns holds the oldest message. Neither panics.
\<close>

theorem ring_full_empty:
  assumes "Ring_ok r"
  shows "(Ring_Set r = Ret (Inl (Comet ErrRingFull)) \<longleftrightarrow> length (Ring_contents r) = length (rg_data r)) \<and>
    (Ring_Get r = Ret (Inl (Comet ErrRingEmpty)) \<longleftrightarrow> Ring_contents r = []) \<and>
    (\<forall>i. Ring_Set r = Ret (Inr i) \<longrightarrow> i \<notin> Ring_slot r ` {..<length (Ring_contents r)} \<and> i < length (rg_data r)) \<and>
    (\<forall>i. Ring_Get r = Ret (Inr i) \<longrightarrow> Ring_read i r = hd (Ring_contents r)) \<and>
    (\<forall>p. Ring_Set r \<noteq> Panic p \<and> Ring_Get r \<noteq> Panic p)"
proof -
  have "i \<notin> Ring_slot r ` {..<length (Ring_contents r)} \<and> i < length (rg_data r)" if "Ring_Set r = Ret (Inr i)" for i
  proof -
    obtain l where l: "l < 64" "rg_mask r = 2 ^ l - 1" "length (rg_data r) = 2 ^ l" using assms by (auto simp: Ring_ok_def)
    have nf: "length (Ring_contents r) \<noteq> length (rg_data r)" and i: "i = Ring_slot r (length (Ring_contents r))"
      using that Ring_Set_cases(1) [OF assms] by (auto split: if_splits)
    have "length (Ring_contents r) < 2 ^ l" using ring.bounded [OF assms] nf l(3) by simp
    then have ne: "Ring_slot r j \<noteq> i" if "j < length (Ring_contents r)" for j
      using slot_inj [of "unat (rg_rp r)" j l "length (Ring_contents r)"] slot_mod [OF l(1,2)] that i by auto
    have "i \<notin> Ring_slot r ` {..<length (Ring_contents r)}"
    proof
      assume "i \<in> Ring_slot r ` {..<length (Ring_contents r)}"
      then obtain j where "j < length (Ring_contents r)" "i = Ring_slot r j" by auto
      then show False using ne by blast
    qed
    then show ?thesis using Ring_Set_cases(2) [OF assms nf] i by simp
  qed
  then show ?thesis
    using Ring_Set_cases(1) [OF assms] Ring_Get_cases [OF assms] by (auto split: if_splits)
qed

theorem ring_full_empty_witness:
  "Ring_Get (NewRing 5) = Ret (Inl (Comet ErrRingEmpty)) \<longleftrightarrow> Ring_contents (NewRing 5) = []"
  using ring_full_empty [OF NewRing_ok(1) [of 5]] by simp

text \<open>
  Size of the ring. \<open>Init\<close> rounds the number of slots up to the least power of two.
\<close>

theorem ring_size:
  assumes "0 < num" and "num \<le> 2 ^ 63"
  shows "\<exists>l<64. length (rg_data (NewRing num)) = 2 ^ l \<and> num \<le> 2 ^ l \<and> 2 ^ l < 2 * num"
proof -
  have u: "unat (word_of_int num :: uint64) = nat num"
    using assms by (simp add: unsigned_of_int take_bit_int_eq_self)
  obtain l where "l < 64" "unat (rg_num (NewRing num)) = 2 ^ l" "nat num \<le> 2 ^ l" "2 ^ l < 2 * nat num"
    using Ring_init_size [of "word_of_int num" Ring_zero] u assms by (auto simp: NewRing_def nat_le_iff)
  moreover have "length (rg_data (NewRing num)) = unat (rg_num (NewRing num))"
    by (simp add: NewRing_def Ring_init_def Let_def)
  moreover have "(2 :: int) ^ l < 2 * num" using assms(1) zless_nat_conj [of "2 ^ l" "2 * num"] calculation(4)
    by (simp add: nat_mult_distrib nat_power_eq)
  ultimately show ?thesis by (intro exI [of _ l]) (auto simp: nat_le_iff)
qed

theorem ring_size_witness: "\<exists>l<64. length (rg_data (NewRing 5)) = 2 ^ l \<and> 5 \<le> (2 ^ l :: int) \<and> 2 ^ l < (2 * 5 :: int)"
  using ring_size [of 5] by simp

end
