(* ===== verification/Channel.thy ===== *)
theory Channel
  imports Ring
begin

text \<open>
  \<open>internal/comet/channel.go\<close>: the state of one client connection. Channels live in a store and refer
  to their room and to their neighbours in it by address. The Go channel \<open>signal\<close> is a list of at most
  \<open>ch_cap\<close> elements; its elements are pointers, and the code compares them with \<open>ProtoReady\<close> and
  \<open>ProtoFinish\<close>, so a signal is one of these two or a pushed message. A send that blocks is \<open>None\<close> (a
  receiver waiting at an unbuffered channel is not modelled: the server configures a capacity). The
  buffered reader and writer of the connection are the states of \<open>Bufio_Reader\<close> and \<open>Bufio_Writer\<close>.
\<close>

section \<open>State\<close>

datatype signal = SigReady | SigFinish | SigMsg Proto

record Channel =
  ch_Room :: ptr
  ch_CliProto :: Ring
  ch_signal :: "signal list"
  ch_cap :: nat
  ch_Next :: ptr
  ch_Prev :: ptr
  ch_Mid :: int64
  ch_Key :: string
  ch_IP :: string
  ch_watchOps :: "int32 list"

definition NewChannel :: "int \<Rightarrow> nat \<Rightarrow> Channel" where
  "NewChannel cli svr =
     \<lparr>ch_Room = None, ch_CliProto = Ring_Init cli Ring_zero, ch_signal = [], ch_cap = svr,
      ch_Next = None, ch_Prev = None, ch_Mid = 0, ch_Key = [], ch_IP = [], ch_watchOps = []\<rparr>"

section \<open>Operations\<close>

text \<open>The set of watched operations is a list without repetition.\<close>

definition Channel_Watch :: "int32 list \<Rightarrow> Channel \<Rightarrow> Channel" where
  "Channel_Watch accepts c = c\<lparr>ch_watchOps := fold List.insert accepts (ch_watchOps c)\<rparr>"

definition Channel_UnWatch :: "int32 list \<Rightarrow> Channel \<Rightarrow> Channel" where
  "Channel_UnWatch accepts c = c\<lparr>ch_watchOps := fold removeAll accepts (ch_watchOps c)\<rparr>"

definition Channel_NeedPush :: "int32 \<Rightarrow> Channel \<Rightarrow> bool" where
  "Channel_NeedPush op c \<longleftrightarrow> op \<in> set (ch_watchOps c)"

text \<open>A send that can proceed.\<close>

definition chan_send :: "signal \<Rightarrow> Channel \<Rightarrow> Channel option" where
  "chan_send s c = (if length (ch_signal c) < ch_cap c then Some (c\<lparr>ch_signal := ch_signal c @ [s]\<rparr>) else None)"

definition Channel_Push :: "Proto \<Rightarrow> Channel \<Rightarrow> error option \<times> Channel" where
  "Channel_Push p c =
     (case chan_send (SigMsg p) c of
        Some c' \<Rightarrow> (None, c')
      | None \<Rightarrow> (Some (Comet ErrSignalFullMsgDropped), c))"

definition Channel_Ready :: "Channel \<Rightarrow> (signal \<times> Channel) option" where
  "Channel_Ready c = (case ch_signal c of [] \<Rightarrow> None | s # ss \<Rightarrow> Some (s, c\<lparr>ch_signal := ss\<rparr>))"

definition Channel_Signal :: "Channel \<Rightarrow> Channel option" where
  "Channel_Signal c = chan_send SigReady c"

definition Channel_Close :: "Channel \<Rightarrow> Channel option" where
  "Channel_Close c = chan_send SigFinish c"

section \<open>Behaviour\<close>

definition Channel_ok :: "Channel \<Rightarrow> bool" where
  "Channel_ok c \<longleftrightarrow> length (ch_signal c) \<le> ch_cap c \<and> distinct (ch_watchOps c)"

interpretation sigq: bounded_queue Channel_ok ch_signal ch_cap chan_send Channel_Ready
  by unfold_locales (auto simp: Channel_ok_def chan_send_def Channel_Ready_def split: if_splits list.splits)

lemma set_Watch: "set (ch_watchOps (Channel_Watch ops c)) = set (ch_watchOps c) \<union> set ops"
proof -
  have "set (fold List.insert ops ws) = set ws \<union> set ops" for ws
    by (induction ops arbitrary: ws) auto
  then show ?thesis by (simp add: Channel_Watch_def)
qed

lemma set_UnWatch: "set (ch_watchOps (Channel_UnWatch ops c)) = set (ch_watchOps c) - set ops"
proof -
  have "set (fold removeAll ops ws) = set ws - set ops" for ws
    by (induction ops arbitrary: ws) auto
  then show ?thesis by (simp add: Channel_UnWatch_def)
qed

lemma Watch_ok: "Channel_ok c \<Longrightarrow> Channel_ok (Channel_Watch ops c) \<and> Channel_ok (Channel_UnWatch ops c)"
proof -
  have "distinct ws \<Longrightarrow> distinct (fold List.insert ops ws)" "distinct ws \<Longrightarrow> distinct (fold removeAll ops ws)" for ws
    by (induction ops arbitrary: ws) (auto simp: distinct_removeAll)
  then show "Channel_ok c \<Longrightarrow> Channel_ok (Channel_Watch ops c) \<and> Channel_ok (Channel_UnWatch ops c)"
    by (simp add: Channel_ok_def Channel_Watch_def Channel_UnWatch_def)
qed

lemma Push_ok: "Channel_ok c \<Longrightarrow> Channel_ok (snd (Channel_Push p c))"
  by (auto simp: Channel_Push_def chan_send_def Channel_ok_def)

lemma Push_fields [simp]:
  "ch_Room (snd (Channel_Push p c)) = ch_Room c" "ch_Next (snd (Channel_Push p c)) = ch_Next c"
  "ch_Prev (snd (Channel_Push p c)) = ch_Prev c" "ch_Key (snd (Channel_Push p c)) = ch_Key c"
  "ch_IP (snd (Channel_Push p c)) = ch_IP c" "ch_watchOps (snd (Channel_Push p c)) = ch_watchOps c"
  "ch_cap (snd (Channel_Push p c)) = ch_cap c"
  by (simp_all add: Channel_Push_def chan_send_def)

text \<open>What a push does to the queue: the message is appended, or dropped when the queue is full.\<close>

lemma Push_signal:
  "ch_signal (snd (Channel_Push p c)) =
     (if length (ch_signal c) < ch_cap c then ch_signal c @ [SigMsg p] else ch_signal c)"
  by (simp add: Channel_Push_def chan_send_def)

end
