(* ===== verification/Room.thy ===== *)
theory Room
  imports Channel
begin

text \<open>
  \<open>internal/comet/room.go\<close>: a room is a doubly linked list of channels, threaded through their \<open>Next\<close> and
  \<open>Prev\<close> fields. The store holds the channels and the rooms of a comet process. The loops over the
  list follow the pointers: a cyclic list would never end (\<open>None\<close>).
\<close>

section \<open>State\<close>

record Room =
  rm_ID :: string
  rm_next :: ptr
  rm_drop :: bool
  rm_Online :: int32
  rm_AllOnline :: int32

record Store =
  st_ch :: "Channel list"
  st_rm :: "Room list"

definition ch_at :: "Store \<Rightarrow> addr \<Rightarrow> Channel" where "ch_at s a = st_ch s ! a"
definition rm_at :: "Store \<Rightarrow> addr \<Rightarrow> Room" where "rm_at s a = st_rm s ! a"

definition ch_set :: "addr \<Rightarrow> (Channel \<Rightarrow> Channel) \<Rightarrow> Store \<Rightarrow> Store" where
  "ch_set a f s = s\<lparr>st_ch := (st_ch s)[a := f (st_ch s ! a)]\<rparr>"

definition rm_set :: "addr \<Rightarrow> (Room \<Rightarrow> Room) \<Rightarrow> Store \<Rightarrow> Store" where
  "rm_set a f s = s\<lparr>st_rm := (st_rm s)[a := f (st_rm s ! a)]\<rparr>"

definition ch_set_opt :: "ptr \<Rightarrow> (Channel \<Rightarrow> Channel) \<Rightarrow> Store \<Rightarrow> Store" where
  "ch_set_opt p f s = (case p of None \<Rightarrow> s | Some a \<Rightarrow> ch_set a f s)"

text \<open>\<open>new(Room)\<close> with its fields set: the address of the new room.\<close>

definition NewRoom :: "string \<Rightarrow> Store \<Rightarrow> addr \<times> Store" where
  "NewRoom rid s =
     (length (st_rm s),
      s\<lparr>st_rm := st_rm s @ [\<lparr>rm_ID = rid, rm_next = None, rm_drop = False, rm_Online = 0, rm_AllOnline = 0\<rparr>]\<rparr>)"

section \<open>Operations\<close>

definition Room_Put :: "addr \<Rightarrow> addr \<Rightarrow> Store \<Rightarrow> error option \<times> Store" where
  "Room_Put r ch s =
     (if \<not> rm_drop (rm_at s r) then
        let s1 = ch_set_opt (rm_next (rm_at s r)) (\<lambda>c. c\<lparr>ch_Prev := Some ch\<rparr>) s;
            s2 = ch_set ch (\<lambda>c. c\<lparr>ch_Next := rm_next (rm_at s1 r), ch_Prev := None\<rparr>) s1
        in (None, rm_set r (\<lambda>m. m\<lparr>rm_next := Some ch, rm_Online := rm_Online m + 1\<rparr>) s2)
      else (Some (Comet ErrRoomDroped), s))"

definition Room_Del :: "addr \<Rightarrow> addr \<Rightarrow> Store \<Rightarrow> bool \<times> Store" where
  "Room_Del r ch s =
     (let s1 = ch_set_opt (ch_Next (ch_at s ch)) (\<lambda>c. c\<lparr>ch_Prev := ch_Prev (ch_at s ch)\<rparr>) s;
          s2 = (case ch_Prev (ch_at s1 ch) of
                  Some q \<Rightarrow> ch_set q (\<lambda>c. c\<lparr>ch_Next := ch_Next (ch_at s1 ch)\<rparr>) s1
                | None \<Rightarrow> rm_set r (\<lambda>m. m\<lparr>rm_next := ch_Next (ch_at s1 ch)\<rparr>) s1);
          s3 = ch_set ch (\<lambda>c. c\<lparr>ch_Next := None, ch_Prev := None\<rparr>) s2;
          s4 = rm_set r (\<lambda>m. m\<lparr>rm_Online := rm_Online m - 1, rm_drop := (rm_Online m - 1 = 0)\<rparr>) s3
      in (rm_drop (rm_at s4 r), s4))"

partial_function (option) Room_Push_loop :: "Proto \<Rightarrow> ptr \<Rightarrow> Store \<Rightarrow> Store option" where
  "Room_Push_loop p ch s =
     (case ch of
        None \<Rightarrow> Some s
      | Some a \<Rightarrow> (let s1 = ch_set a (\<lambda>c. snd (Channel_Push p c)) s
                   in Room_Push_loop p (ch_Next (ch_at s1 a)) s1))"

definition Room_Push :: "addr \<Rightarrow> Proto \<Rightarrow> Store \<Rightarrow> Store option" where
  "Room_Push r p s = Room_Push_loop p (rm_next (rm_at s r)) s"

partial_function (option) Room_Close_loop :: "ptr \<Rightarrow> Store \<Rightarrow> Store option" where
  "Room_Close_loop ch s =
     (case ch of
        None \<Rightarrow> Some s
      | Some a \<Rightarrow>
          (case Channel_Close (ch_at s a) of
             None \<Rightarrow> None
           | Some c \<Rightarrow> (let s1 = ch_set a (\<lambda>_. c) s in Room_Close_loop (ch_Next (ch_at s1 a)) s1)))"

definition Room_Close :: "addr \<Rightarrow> Store \<Rightarrow> Store option" where
  "Room_Close r s = Room_Close_loop (rm_next (rm_at s r)) s"

definition Room_OnlineNum :: "addr \<Rightarrow> Store \<Rightarrow> int32" where
  "Room_OnlineNum r s =
     (if sint (rm_AllOnline (rm_at s r)) > 0 then rm_AllOnline (rm_at s r) else rm_Online (rm_at s r))"

declare Room_Push_loop.simps [code] Room_Close_loop.simps [code]

section \<open>Reads after writes\<close>

lemma at_set:
  "a < length (st_ch s) \<Longrightarrow> ch_at (ch_set a f s) b = (if b = a then f (ch_at s a) else ch_at s b)"
  "r < length (st_rm s) \<Longrightarrow> rm_at (rm_set r g s) q = (if q = r then g (rm_at s r) else rm_at s q)"
  "ch_at (rm_set r g s) b = ch_at s b" "rm_at (ch_set a f s) q = rm_at s q"
  "rm_at (ch_set_opt p f s) q = rm_at s q"
  by (auto simp: ch_at_def rm_at_def ch_set_def rm_set_def ch_set_opt_def nth_list_update split: option.split)

lemma at_set_opt:
  "(\<And>a. p = Some a \<Longrightarrow> a < length (st_ch s)) \<Longrightarrow>
   ch_at (ch_set_opt p f s) b = (if p = Some b then f (ch_at s b) else ch_at s b)"
  by (cases p) (auto simp: ch_set_opt_def at_set)

lemma set_lengths [simp]:
  "length (st_ch (ch_set a f s)) = length (st_ch s)" "length (st_rm (ch_set a f s)) = length (st_rm s)"
  "length (st_ch (rm_set r g s)) = length (st_ch s)" "length (st_rm (rm_set r g s)) = length (st_rm s)"
  "length (st_ch (ch_set_opt p f s)) = length (st_ch s)" "length (st_rm (ch_set_opt p f s)) = length (st_rm s)"
  by (auto simp: ch_set_def rm_set_def ch_set_opt_def split: option.split)

section \<open>The list of a room\<close>

text \<open>
  \<open>dseg s q p xs e\<close>: from \<open>p\<close>, the \<open>Next\<close> fields visit \<open>xs\<close> and lead to \<open>e\<close>, and each \<open>Prev\<close> points back, the
  first to \<open>q\<close>.
\<close>

fun dseg :: "Store \<Rightarrow> ptr \<Rightarrow> ptr \<Rightarrow> addr list \<Rightarrow> ptr \<Rightarrow> bool" where
  "dseg s q p [] e \<longleftrightarrow> p = e"
| "dseg s q p (x # xs) e \<longleftrightarrow> p = Some x \<and> ch_Prev (ch_at s x) = q \<and> dseg s (Some x) (ch_Next (ch_at s x)) xs e"

abbreviation dll :: "Store \<Rightarrow> ptr \<Rightarrow> addr list \<Rightarrow> bool" where
  "dll s p xs \<equiv> dseg s None p xs None"

text \<open>
  The room \<open>r\<close> has the members \<open>xs\<close>: they are its list, it counts them, and it is not marked as dropped
  while it has any.
\<close>

definition Room_ok :: "Store \<Rightarrow> addr \<Rightarrow> addr list \<Rightarrow> bool" where
  "Room_ok s r xs \<longleftrightarrow> r < length (st_rm s) \<and> dll s (rm_next (rm_at s r)) xs \<and> distinct xs \<and>
     (\<forall>x\<in>set xs. x < length (st_ch s)) \<and> rm_Online (rm_at s r) = of_nat (length xs) \<and> length xs < 2 ^ 31 \<and>
     (rm_drop (rm_at s r) \<longrightarrow> xs = [])"

lemma dseg_cong:
  "(\<And>x. x \<in> set xs \<Longrightarrow> ch_Next (ch_at s' x) = ch_Next (ch_at s x) \<and> ch_Prev (ch_at s' x) = ch_Prev (ch_at s x)) \<Longrightarrow>
   dseg s' q p xs e = dseg s q p xs e"
  by (induction xs arbitrary: q p) auto

lemma dseg_append:
  "dseg s q p (xs @ ys) e \<longleftrightarrow>
   (\<exists>m. dseg s q p xs m \<and> dseg s (if xs = [] then q else Some (last xs)) m ys e)"
  by (induction xs arbitrary: q p) auto

text \<open>Changing where a segment leads to, and what its first cell points back to.\<close>

lemma dseg_new_end:
  assumes "dseg s q p xs m" and "\<And>x. x \<in> set xs \<Longrightarrow> ch_Prev (ch_at s' x) = ch_Prev (ch_at s x)"
    and "\<And>x. x \<in> set xs \<Longrightarrow> ch_Next (ch_at s' x) = (if x = last xs then m' else ch_Next (ch_at s x))"
    and "distinct xs"
  shows "dseg s' q (if xs = [] then m' else p) xs m'"
  using assms
proof (induction xs arbitrary: q p)
  case (Cons x xs)
  show ?case
  proof (cases "xs = []")
    case True
    then show ?thesis using Cons.prems by simp
  next
    case False
    then have "x \<noteq> last xs" using Cons.prems(4) by auto
    moreover have "dseg s' (Some x) (if xs = [] then m' else ch_Next (ch_at s x)) xs m'"
      using Cons.IH [of "Some x" "ch_Next (ch_at s x)"] Cons.prems False by auto
    ultimately show ?thesis using Cons.prems False by auto
  qed
qed simp

lemma dseg_new_start:
  assumes "dseg s q p xs e" and "\<And>x. x \<in> set xs \<Longrightarrow> ch_Next (ch_at s' x) = ch_Next (ch_at s x)"
    and "\<And>x. x \<in> set xs \<Longrightarrow> ch_Prev (ch_at s' x) = (if x = hd xs then q' else ch_Prev (ch_at s x))"
    and "distinct xs"
  shows "dseg s' q' p xs e"
proof (cases xs)
  case (Cons x ys)
  have "dseg s' (Some x) (ch_Next (ch_at s x)) ys e = dseg s (Some x) (ch_Next (ch_at s x)) ys e"
    using assms Cons by (intro dseg_cong) auto
  then show ?thesis using assms Cons by auto
qed (use assms in simp)

section \<open>The operations on the list\<close>

text \<open>What an operation on a room leaves alone: the link fields of other channels, the other rooms.\<close>

definition room_frame :: "addr \<Rightarrow> addr set \<Rightarrow> Store \<Rightarrow> Store \<Rightarrow> bool" where
  "room_frame r X s s' \<longleftrightarrow> length (st_ch s') = length (st_ch s) \<and> length (st_rm s') = length (st_rm s) \<and>
     (\<forall>x. x \<notin> X \<longrightarrow> ch_at s' x = ch_at s x) \<and> (\<forall>q. q \<noteq> r \<longrightarrow> rm_at s' q = rm_at s q) \<and>
     (\<forall>x. ch_Room (ch_at s' x) = ch_Room (ch_at s x) \<and> ch_signal (ch_at s' x) = ch_signal (ch_at s x) \<and>
        ch_Key (ch_at s' x) = ch_Key (ch_at s x) \<and> ch_IP (ch_at s' x) = ch_IP (ch_at s x) \<and>
        ch_cap (ch_at s' x) = ch_cap (ch_at s x)) \<and>
     rm_ID (rm_at s' r) = rm_ID (rm_at s r)"

lemma Room_Put_spec:
  assumes ok: "Room_ok s r xs" and ch: "ch < length (st_ch s)" "ch \<notin> set xs" and nd: "\<not> rm_drop (rm_at s r)"
    and bound: "length xs + 1 < 2 ^ 31"
  shows "\<exists>s'. Room_Put r ch s = (None, s') \<and> Room_ok s' r (ch # xs) \<and> room_frame r (insert ch (set xs)) s s' \<and>
    \<not> rm_drop (rm_at s' r)"
proof -
  define n where "n = rm_next (rm_at s r)"
  define s1 where "s1 = ch_set_opt n (\<lambda>c. c\<lparr>ch_Prev := Some ch\<rparr>) s"
  define s2 where "s2 = ch_set ch (\<lambda>c. c\<lparr>ch_Next := n, ch_Prev := None\<rparr>) s1"
  define s' where "s' = rm_set r (\<lambda>m. m\<lparr>rm_next := Some ch, rm_Online := rm_Online m + 1\<rparr>) s2"
  have k: "r < length (st_rm s)" "dll s n xs" "distinct xs" "\<forall>x\<in>set xs. x < length (st_ch s)"
    "rm_Online (rm_at s r) = of_nat (length xs)" using ok by (auto simp: Room_ok_def n_def)
  have run: "Room_Put r ch s = (None, s')"
    using nd by (simp add: Room_Put_def Let_def s'_def s2_def s1_def n_def at_set)
  have hd: "n = Some a \<Longrightarrow> xs \<noteq> [] \<and> a = hd xs" for a using k(2) by (cases xs) auto
  have lt: "n = Some a \<Longrightarrow> a < length (st_ch s)" for a using hd k(4) by (metis hd_in_set)
  have c1: "ch_at s1 x = (if n = Some x then (ch_at s x)\<lparr>ch_Prev := Some ch\<rparr> else ch_at s x)" for x
    using at_set_opt [of n s "\<lambda>c. c\<lparr>ch_Prev := Some ch\<rparr>" x] lt by (simp add: s1_def)
  have c: "ch_at s' x = (if x = ch then (ch_at s1 x)\<lparr>ch_Next := n, ch_Prev := None\<rparr> else ch_at s1 x)" for x
    using ch(1) by (simp add: s'_def s2_def at_set s1_def)
  have m: "rm_at s' q = (if q = r then (rm_at s r)\<lparr>rm_next := Some ch, rm_Online := rm_Online (rm_at s r) + 1\<rparr> else rm_at s q)" for q
    using k(1) by (simp add: s'_def s2_def s1_def at_set)
  have nh: "n \<noteq> Some ch" using hd [of ch] ch(2) by auto
  have "dseg s' (Some ch) n xs None"
  proof (rule dseg_new_start [OF k(2)])
    fix x assume x: "x \<in> set xs"
    then have "x \<noteq> ch" using ch(2) by auto
    then show "ch_Next (ch_at s' x) = ch_Next (ch_at s x)" by (simp add: c c1)
    have "n = Some x \<longleftrightarrow> x = hd xs" using hd [of x] k(2) x by (cases xs) auto
    then show "ch_Prev (ch_at s' x) = (if x = hd xs then Some ch else ch_Prev (ch_at s x))" using \<open>x \<noteq> ch\<close> by (simp add: c c1)
  qed (rule k(3))
  then have "dll s' (Some ch) (ch # xs)" by (simp add: c)
  then have "Room_ok s' r (ch # xs)"
    using k ch bound nd by (simp add: Room_ok_def m) (simp add: s'_def s2_def s1_def)
  moreover have "room_frame r (insert ch (set xs)) s s'"
  proof -
    have "ch_at s' x = ch_at s x" if "x \<notin> insert ch (set xs)" for x
    proof -
      have "n \<noteq> Some x" using hd [of x] that by auto
      then show ?thesis using that by (simp add: c c1)
    qed
    moreover have "length (st_ch s') = length (st_ch s)" "length (st_rm s') = length (st_rm s)"
      by (simp_all add: s'_def s2_def s1_def)
    moreover have "ch_Room (ch_at s' x) = ch_Room (ch_at s x) \<and> ch_signal (ch_at s' x) = ch_signal (ch_at s x) \<and>
        ch_Key (ch_at s' x) = ch_Key (ch_at s x) \<and> ch_IP (ch_at s' x) = ch_IP (ch_at s x) \<and>
        ch_cap (ch_at s' x) = ch_cap (ch_at s x)" for x by (simp add: c c1)
    ultimately show ?thesis unfolding room_frame_def by (simp add: m)
  qed
  ultimately show ?thesis using run nd m by (intro exI [of _ s']) simp
qed

lemma of_nat_eq_0_small: "n < 2 ^ 31 \<Longrightarrow> (of_nat n :: int32) = 0 \<longleftrightarrow> n = 0"
proof -
  assume n: "n < 2 ^ 31"
  have "unat (of_nat n :: int32) = n" using n by (simp only: unat_of_nat) simp
  moreover have "(of_nat n :: int32) = 0 \<longleftrightarrow> unat (of_nat n :: int32) = 0" by (simp add: unat_eq_0)
  ultimately show ?thesis by simp
qed

text \<open>The store after \<open>Del\<close>, in one step: the neighbours of the channel point to each other.\<close>

lemma Room_Del_run:
  assumes ch: "ch < length (st_ch s)" and r: "r < length (st_rm s)"
    and nx: "\<forall>a. ch_Next (ch_at s ch) = Some a \<longrightarrow> a < length (st_ch s) \<and> a \<noteq> ch"
    and pv: "\<forall>a. ch_Prev (ch_at s ch) = Some a \<longrightarrow> a < length (st_ch s) \<and> a \<noteq> ch"
    and np: "\<forall>a. ch_Next (ch_at s ch) = Some a \<longrightarrow> ch_Prev (ch_at s ch) \<noteq> Some a"
  shows "\<exists>s'. Room_Del r ch s = (rm_Online (rm_at s r) - 1 = 0, s') \<and>
    length (st_ch s') = length (st_ch s) \<and> length (st_rm s') = length (st_rm s) \<and>
    (\<forall>x. ch_at s' x = (if x = ch then (ch_at s x)\<lparr>ch_Next := None, ch_Prev := None\<rparr>
       else if ch_Next (ch_at s ch) = Some x then (ch_at s x)\<lparr>ch_Prev := ch_Prev (ch_at s ch)\<rparr>
       else if ch_Prev (ch_at s ch) = Some x then (ch_at s x)\<lparr>ch_Next := ch_Next (ch_at s ch)\<rparr> else ch_at s x)) \<and>
    (\<forall>q. rm_at s' q = (if q = r then (rm_at s r)\<lparr>rm_next := (if ch_Prev (ch_at s ch) = None then ch_Next (ch_at s ch) else rm_next (rm_at s r)),
        rm_Online := rm_Online (rm_at s r) - 1, rm_drop := (rm_Online (rm_at s r) - 1 = 0)\<rparr> else rm_at s q))"
proof -
  define n where "n = ch_Next (ch_at s ch)"
  define p where "p = ch_Prev (ch_at s ch)"
  define s1 where "s1 = ch_set_opt n (\<lambda>c. c\<lparr>ch_Prev := p\<rparr>) s"
  define s2 where "s2 = (case p of Some q \<Rightarrow> ch_set q (\<lambda>c. c\<lparr>ch_Next := n\<rparr>) s1 | None \<Rightarrow> rm_set r (\<lambda>m. m\<lparr>rm_next := n\<rparr>) s1)"
  define s3 where "s3 = ch_set ch (\<lambda>c. c\<lparr>ch_Next := None, ch_Prev := None\<rparr>) s2"
  define s4 where "s4 = rm_set r (\<lambda>m. m\<lparr>rm_Online := rm_Online m - 1, rm_drop := (rm_Online m - 1 = 0)\<rparr>) s3"
  have c1: "ch_at s1 x = (if n = Some x then (ch_at s x)\<lparr>ch_Prev := p\<rparr> else ch_at s x)" for x
    using at_set_opt [of n s "\<lambda>c. c\<lparr>ch_Prev := p\<rparr>" x] nx by (simp add: s1_def n_def)
  have own: "ch_Next (ch_at s1 ch) = n" "ch_Prev (ch_at s1 ch) = p" using nx by (auto simp: c1 n_def p_def)
  have len2: "length (st_ch s2) = length (st_ch s)" "length (st_rm s2) = length (st_rm s)"
    by (auto simp: s2_def s1_def split: option.split)
  have c2: "ch_at s2 x = (if p = Some x then (ch_at s1 x)\<lparr>ch_Next := n\<rparr> else ch_at s1 x)" for x
    using pv by (cases p) (auto simp: s2_def at_set s1_def p_def)
  have m2: "rm_at s2 q = (if q = r then (rm_at s r)\<lparr>rm_next := (if p = None then n else rm_next (rm_at s r))\<rparr> else rm_at s q)" for q
    using r by (cases p) (auto simp: s2_def at_set s1_def)
  have "Room_Del r ch s = (rm_drop (rm_at s4 r), s4)"
    unfolding Room_Del_def Let_def n_def [symmetric] p_def [symmetric] s1_def [symmetric] own s2_def [symmetric]
      s3_def [symmetric] s4_def [symmetric] by (rule refl)
  moreover have "rm_at s4 q = (if q = r then (rm_at s r)\<lparr>rm_next := (if p = None then n else rm_next (rm_at s r)),
        rm_Online := rm_Online (rm_at s r) - 1, rm_drop := (rm_Online (rm_at s r) - 1 = 0)\<rparr> else rm_at s q)" for q
    using r by (simp add: s4_def s3_def at_set m2 len2)
  moreover have "ch_at s4 x = (if x = ch then (ch_at s x)\<lparr>ch_Next := None, ch_Prev := None\<rparr>
       else if n = Some x then (ch_at s x)\<lparr>ch_Prev := p\<rparr>
       else if p = Some x then (ch_at s x)\<lparr>ch_Next := n\<rparr> else ch_at s x)" for x
    using ch nx pv np by (auto simp: s4_def s3_def at_set len2 c2 c1 n_def p_def)
  moreover have "length (st_ch s4) = length (st_ch s)" "length (st_rm s4) = length (st_rm s)"
    by (simp_all add: s4_def s3_def len2)
  ultimately show ?thesis unfolding n_def p_def by (intro exI [of _ s4]) simp
qed

lemma dseg_head: "dseg s q p xs None \<Longrightarrow> p = (if xs = [] then None else Some (hd xs))"
  by (cases xs) auto

lemma Room_Del_spec:
  assumes ok: "Room_ok s r xs" and ch: "ch \<in> set xs"
  shows "\<exists>s'. Room_Del r ch s = (xs = [ch], s') \<and> Room_ok s' r (remove1 ch xs) \<and> room_frame r (set xs) s s' \<and>
    (rm_drop (rm_at s' r) \<longleftrightarrow> remove1 ch xs = [])"
proof -
  obtain ys zs where xs: "xs = ys @ ch # zs" using ch by (meson split_list)
  define n where "n = ch_Next (ch_at s ch)"
  define p where "p = ch_Prev (ch_at s ch)"
  have k: "r < length (st_rm s)" "dll s (rm_next (rm_at s r)) xs" "distinct xs" "\<forall>x\<in>set xs. x < length (st_ch s)"
    "rm_Online (rm_at s r) = of_nat (length xs)" "length xs < 2 ^ 31" using ok by (auto simp: Room_ok_def)
  have d: "dseg s None (rm_next (rm_at s r)) ys (Some ch)" "dseg s (Some ch) n zs None"
    and p: "p = (if ys = [] then None else Some (last ys))"
    using k(2) by (auto simp: xs dseg_append n_def p_def)
  have n: "n = (if zs = [] then None else Some (hd zs))" using dseg_head [OF d(2)] .
  have r1: "remove1 ch xs = ys @ zs" using k(3) by (simp add: xs remove1_append)
  have nin: "n = Some a \<Longrightarrow> a \<in> set zs" "p = Some a \<Longrightarrow> a \<in> set ys" for a using n p by (auto split: if_splits)
  have disj: "ch \<notin> set ys" "ch \<notin> set zs" "set ys \<inter> set zs = {}" using k(3) by (auto simp: xs)
  have cond: "\<forall>a. n = Some a \<longrightarrow> a < length (st_ch s) \<and> a \<noteq> ch" "\<forall>a. p = Some a \<longrightarrow> a < length (st_ch s) \<and> a \<noteq> ch"
    "\<forall>a. n = Some a \<longrightarrow> p \<noteq> Some a"
    using nin disj k(4) by (fastforce simp: xs)+
  have lt: "ch < length (st_ch s)" using k(4) ch by simp
  obtain s' where run: "Room_Del r ch s = (rm_Online (rm_at s r) - 1 = 0, s')"
    and len: "length (st_ch s') = length (st_ch s)" "length (st_rm s') = length (st_rm s)"
    and c: "\<forall>x. ch_at s' x = (if x = ch then (ch_at s x)\<lparr>ch_Next := None, ch_Prev := None\<rparr>
       else if n = Some x then (ch_at s x)\<lparr>ch_Prev := p\<rparr> else if p = Some x then (ch_at s x)\<lparr>ch_Next := n\<rparr> else ch_at s x)"
    and m: "\<forall>q. rm_at s' q = (if q = r then (rm_at s r)\<lparr>rm_next := (if p = None then n else rm_next (rm_at s r)),
        rm_Online := rm_Online (rm_at s r) - 1, rm_drop := (rm_Online (rm_at s r) - 1 = 0)\<rparr> else rm_at s q)"
    using Room_Del_run [OF lt k(1) cond [unfolded n_def p_def], folded n_def p_def] by (elim exE conjE) (rule that)
  have on: "rm_Online (rm_at s r) - 1 = of_nat (length (ys @ zs))" using k(5) by (simp add: xs)
  have zero: "rm_Online (rm_at s r) - 1 = 0 \<longleftrightarrow> ys @ zs = []"
  proof -
    have "length (ys @ zs) < 2 ^ 31" using k(6) by (simp add: xs)
    then show ?thesis unfolding on using of_nat_eq_0_small [of "length (ys @ zs)"] by (simp del: of_nat_add length_append)
  qed
  have "dseg s' None (if ys = [] then n else rm_next (rm_at s r)) ys n"
  proof (rule dseg_new_end [OF d(1)])
    fix x assume x: "x \<in> set ys"
    then have nx: "x \<noteq> ch" "n \<noteq> Some x" using disj nin by auto
    then show "ch_Prev (ch_at s' x) = ch_Prev (ch_at s x)" using c by simp
    have "p = Some x \<longleftrightarrow> x = last ys" using p x by auto
    then show "ch_Next (ch_at s' x) = (if x = last ys then n else ch_Next (ch_at s x))" using c nx by simp
  qed (use k(3) in \<open>simp add: xs\<close>)
  moreover have "dseg s' p n zs None"
  proof (rule dseg_new_start [OF d(2)])
    fix x assume x: "x \<in> set zs"
    then have nx: "x \<noteq> ch" "p \<noteq> Some x" using disj nin by auto
    then show "ch_Next (ch_at s' x) = ch_Next (ch_at s x)" using c by simp
    have "n = Some x \<longleftrightarrow> x = hd zs" using n x by auto
    then show "ch_Prev (ch_at s' x) = (if x = hd zs then p else ch_Prev (ch_at s x))" using c nx by simp
  qed (use k(3) in \<open>simp add: xs\<close>)
  ultimately have "dll s' (rm_next (rm_at s' r)) (ys @ zs)"
    unfolding dseg_append using m p by (intro exI [of _ n]) auto
  moreover have "rm_Online (rm_at s' r) = of_nat (length (ys @ zs))" "rm_drop (rm_at s' r) \<longleftrightarrow> ys @ zs = []"
    using m on zero by simp_all
  ultimately have "Room_ok s' r (ys @ zs)" using k len by (auto simp: Room_ok_def xs)
  moreover have "room_frame r (set xs) s s'"
  proof -
    have "ch_at s' x = ch_at s x" if "x \<notin> set xs" for x
    proof -
      have "x \<noteq> ch" "n \<noteq> Some x" "p \<noteq> Some x" using that nin [of x] by (auto simp: xs)
      then show ?thesis using c by simp
    qed
    moreover have "ch_Room (ch_at s' x) = ch_Room (ch_at s x) \<and> ch_signal (ch_at s' x) = ch_signal (ch_at s x) \<and>
        ch_Key (ch_at s' x) = ch_Key (ch_at s x) \<and> ch_IP (ch_at s' x) = ch_IP (ch_at s x) \<and>
        ch_cap (ch_at s' x) = ch_cap (ch_at s x)" for x using c by simp
    ultimately show ?thesis unfolding room_frame_def using m len by simp
  qed
  moreover have "xs = [ch] \<longleftrightarrow> ys @ zs = []" by (auto simp: xs append_eq_Cons_conv)
  ultimately show ?thesis using run zero \<open>rm_drop (rm_at s' r) \<longleftrightarrow> ys @ zs = []\<close> by (intro exI [of _ s']) (simp add: r1)
qed

section \<open>Walking the list\<close>

lemma Room_Push_loop_spec:
  assumes "dseg s q a xs None" and "distinct xs" and "\<forall>x\<in>set xs. x < length (st_ch s)"
  shows "\<exists>s'. Room_Push_loop p a s = Some s' \<and> st_rm s' = st_rm s \<and> length (st_ch s') = length (st_ch s) \<and>
    (\<forall>x. ch_at s' x = (if x \<in> set xs then snd (Channel_Push p (ch_at s x)) else ch_at s x))"
  using assms
proof (induction xs arbitrary: s q a)
  case Nil
  then show ?case by (simp add: Room_Push_loop.simps)
next
  case (Cons y xs)
  define s1 where "s1 = ch_set y (\<lambda>c. snd (Channel_Push p c)) s"
  have c1: "ch_at s1 x = (if x = y then snd (Channel_Push p (ch_at s x)) else ch_at s x)" for x
    using Cons.prems(3) by (simp add: s1_def at_set)
  have "dseg s1 (Some y) (ch_Next (ch_at s y)) xs None"
    using Cons.prems(1) dseg_cong [of xs s1 s] by (simp add: c1)
  from Cons.IH [OF this] obtain s' where s': "Room_Push_loop p (ch_Next (ch_at s y)) s1 = Some s'"
    "st_rm s' = st_rm s1" "length (st_ch s') = length (st_ch s1)"
    "\<forall>x. ch_at s' x = (if x \<in> set xs then snd (Channel_Push p (ch_at s1 x)) else ch_at s1 x)"
    using Cons.prems(2,3) by (auto simp: s1_def)
  have "Room_Push_loop p a s = Some s'"
    using Cons.prems(1) s'(1) by (subst Room_Push_loop.simps) (simp add: s1_def [symmetric] c1)
  moreover have "st_rm s1 = st_rm s" "length (st_ch s1) = length (st_ch s)" by (simp_all add: s1_def ch_set_def)
  ultimately show ?case using s' Cons.prems(2) by (intro exI [of _ s']) (auto simp: c1)
qed

lemma Room_Push_spec:
  assumes "Room_ok s r xs"
  shows "\<exists>s'. Room_Push r p s = Some s' \<and> st_rm s' = st_rm s \<and> length (st_ch s') = length (st_ch s) \<and>
    (\<forall>x. ch_at s' x = (if x \<in> set xs then snd (Channel_Push p (ch_at s x)) else ch_at s x))"
  using Room_Push_loop_spec [of s None "rm_next (rm_at s r)" xs p] assms by (simp add: Room_Push_def Room_ok_def)

lemma Close_run: "Channel_Close c = (if length (ch_signal c) < ch_cap c then Some (c\<lparr>ch_signal := ch_signal c @ [SigFinish]\<rparr>) else None)"
  by (simp add: Channel_Close_def chan_send_def)

lemma Room_Close_loop_spec:
  assumes "dseg s q a xs None" and "distinct xs" and "\<forall>x\<in>set xs. x < length (st_ch s)"
  shows "if \<forall>x\<in>set xs. length (ch_signal (ch_at s x)) < ch_cap (ch_at s x)
    then \<exists>s'. Room_Close_loop a s = Some s' \<and> st_rm s' = st_rm s \<and> length (st_ch s') = length (st_ch s) \<and>
      (\<forall>x. ch_at s' x = (if x \<in> set xs then (ch_at s x)\<lparr>ch_signal := ch_signal (ch_at s x) @ [SigFinish]\<rparr> else ch_at s x))
    else Room_Close_loop a s = None"
  using assms
proof (induction xs arbitrary: s q a)
  case Nil
  then show ?case by (simp add: Room_Close_loop.simps)
next
  case (Cons y xs)
  show ?case
  proof (cases "length (ch_signal (ch_at s y)) < ch_cap (ch_at s y)")
    case False
    then have "Room_Close_loop a s = None"
      using Cons.prems(1) by (subst Room_Close_loop.simps) (simp add: Close_run)
    then show ?thesis using False by simp
  next
    case True
    define s1 where "s1 = ch_set y (\<lambda>_. (ch_at s y)\<lparr>ch_signal := ch_signal (ch_at s y) @ [SigFinish]\<rparr>) s"
    have c1: "ch_at s1 x = (if x = y then (ch_at s x)\<lparr>ch_signal := ch_signal (ch_at s x) @ [SigFinish]\<rparr> else ch_at s x)" for x
      using Cons.prems(3) by (simp add: s1_def at_set)
    have l1: "st_rm s1 = st_rm s" "length (st_ch s1) = length (st_ch s)" by (simp_all add: s1_def ch_set_def)
    have d1: "dseg s1 (Some y) (ch_Next (ch_at s y)) xs None"
      using Cons.prems(1) dseg_cong [of xs s1 s] by (simp add: c1)
    have run: "Room_Close_loop a s = Room_Close_loop (ch_Next (ch_at s y)) s1"
      using Cons.prems(1) True by (subst Room_Close_loop.simps) (simp add: Close_run s1_def [symmetric] c1)
    have y: "y \<notin> set xs" using Cons.prems(2) by simp
    have same: "(\<forall>x\<in>set xs. length (ch_signal (ch_at s1 x)) < ch_cap (ch_at s1 x)) \<longleftrightarrow>
        (\<forall>x\<in>set (y # xs). length (ch_signal (ch_at s x)) < ch_cap (ch_at s x))"
    proof -
      have "ch_at s1 x = ch_at s x" if "x \<in> set xs" for x using that y by (auto simp: c1)
      then show ?thesis using True by simp
    qed
    have upd: "(if x \<in> set xs then (ch_at s1 x)\<lparr>ch_signal := ch_signal (ch_at s1 x) @ [SigFinish]\<rparr> else ch_at s1 x) =
        (if x \<in> set (y # xs) then (ch_at s x)\<lparr>ch_signal := ch_signal (ch_at s x) @ [SigFinish]\<rparr> else ch_at s x)" for x
      using y by (auto simp: c1)
    show ?thesis
      using Cons.IH [OF d1] Cons.prems(2,3) unfolding same upd l1 run by simp
  qed
qed

lemma Room_Close_spec:
  assumes "Room_ok s r xs"
  shows "if \<forall>x\<in>set xs. length (ch_signal (ch_at s x)) < ch_cap (ch_at s x)
    then \<exists>s'. Room_Close r s = Some s' \<and> st_rm s' = st_rm s \<and> length (st_ch s') = length (st_ch s) \<and>
      (\<forall>x. ch_at s' x = (if x \<in> set xs then (ch_at s x)\<lparr>ch_signal := ch_signal (ch_at s x) @ [SigFinish]\<rparr> else ch_at s x))
    else Room_Close r s = None"
  using Room_Close_loop_spec [of s None "rm_next (rm_at s r)" xs] assms by (simp add: Room_Close_def Room_ok_def)

section \<open>Properties\<close>

text \<open>
  The abstract room: its members, newest first, and whether it was dropped. Clients put a channel that
  is in no room and delete a channel that is in this one (\<open>None\<close> otherwise).
\<close>

datatype room_op = RPut addr | RDel addr

fun room_run :: "addr \<Rightarrow> room_op list \<Rightarrow> Store \<Rightarrow> Store" where
  "room_run r [] s = s"
| "room_run r (RPut ch # ops) s = room_run r ops (snd (Room_Put r ch s))"
| "room_run r (RDel ch # ops) s = room_run r ops (snd (Room_Del r ch s))"

fun room_spec :: "nat \<Rightarrow> room_op list \<Rightarrow> addr list \<times> bool \<Rightarrow> (addr list \<times> bool) option" where
  "room_spec n [] (xs, d) = Some (xs, d)"
| "room_spec n (RPut ch # ops) (xs, d) =
     (if ch \<in> set xs \<or> n \<le> ch then None else room_spec n ops (if d then (xs, d) else (ch # xs, d)))"
| "room_spec n (RDel ch # ops) (xs, d) =
     (if ch \<in> set xs then room_spec n ops (remove1 ch xs, remove1 ch xs = []) else None)"

text \<open>
  C16 (a room is a list of its members). Any sequence of \<open>Put\<close> and \<open>Del\<close> on the doubly linked list has the
  effect of consing to and removing from a list of members; the room counts them, and refuses new
  members from the moment its last member left.
\<close>

theorem room_refines_list:
  assumes "Room_ok s r xs" and "room_spec (length (st_ch s)) ops (xs, rm_drop (rm_at s r)) = Some (xs', d')"
    and "length xs + length ops < 2 ^ 31"
  shows "Room_ok (room_run r ops s) r xs' \<and> rm_drop (rm_at (room_run r ops s) r) = d'"
  using assms
proof (induction ops arbitrary: s xs)
  case (Cons op ops)
  show ?case
  proof (cases op)
    case (RPut ch)
    show ?thesis
    proof (cases "rm_drop (rm_at s r)")
      case True
      then show ?thesis using RPut Cons by (simp add: Room_Put_def split: if_splits)
    next
      case False
      have pre: "ch < length (st_ch s)" "ch \<notin> set xs" using RPut Cons.prems(2) by (simp_all split: if_splits)
      obtain s' where s': "Room_Put r ch s = (None, s')" "Room_ok s' r (ch # xs)" "room_frame r (insert ch (set xs)) s s'"
        "\<not> rm_drop (rm_at s' r)"
        using Room_Put_spec [OF Cons.prems(1) pre False] Cons.prems(3) by auto
      then show ?thesis
        using RPut False pre Cons.IH [OF s'(2)] Cons.prems(2,3) by (simp add: room_frame_def)
    qed
  next
    case (RDel ch)
    then have ch: "ch \<in> set xs" using Cons.prems(2) by (simp split: if_splits)
    obtain s' where s': "Room_Del r ch s = (xs = [ch], s')" "Room_ok s' r (remove1 ch xs)" "room_frame r (set xs) s s'"
      "rm_drop (rm_at s' r) \<longleftrightarrow> remove1 ch xs = []"
      using Room_Del_spec [OF Cons.prems(1) ch] by auto
    then show ?thesis
      using RDel ch Cons.IH [OF s'(2)] Cons.prems(2,3) by (simp add: room_frame_def length_remove1)
  qed
qed simp

definition demo_store :: Store where
  "demo_store = \<lparr>st_ch = [NewChannel 1 2, NewChannel 1 2, NewChannel 1 1], st_rm = []\<rparr>"

lemma demo_room: "Room_ok (snd (NewRoom ''live'' demo_store)) 0 []"
  by (simp add: demo_store_def NewRoom_def Room_ok_def rm_at_def)

definition live_store :: Store where
  "live_store = room_run 0 [RPut 0, RPut 1] (snd (NewRoom ''live'' demo_store))"

lemma live_room: "Room_ok live_store 0 [1, 0]"
  by (simp add: live_store_def demo_store_def NewRoom_def Room_Put_def Room_ok_def rm_at_def ch_at_def rm_set_def ch_set_def
      ch_set_opt_def NewChannel_def)

theorem room_refines_list_witness:
  "Room_ok (room_run 0 [RPut 0, RPut 1, RDel 0, RPut 2] (snd (NewRoom ''live'' demo_store))) 0 [2, 1]"
proof -
  let ?s = "snd (NewRoom ''live'' demo_store)"
  have "room_spec (length (st_ch ?s)) [RPut 0, RPut 1, RDel 0, RPut 2] ([], rm_drop (rm_at ?s 0)) = Some ([2, 1], False)"
    by (simp add: demo_store_def NewRoom_def rm_at_def)
  from room_refines_list [OF demo_room this] show ?thesis by auto
qed

text \<open>
  C26 (pushing to a room). \<open>Push\<close> terminates; every member whose signal queue has space gets the message
  once, behind what it has, the others keep their queue, and nothing else changes.
\<close>

theorem room_push_delivers:
  assumes "Room_ok s r xs"
  shows "\<exists>s'. Room_Push r p s = Some s' \<and> Room_ok s' r xs \<and>
    (\<forall>x. ch_signal (ch_at s' x) = (if x \<in> set xs \<and> length (ch_signal (ch_at s x)) < ch_cap (ch_at s x)
       then ch_signal (ch_at s x) @ [SigMsg p] else ch_signal (ch_at s x))) \<and>
    (\<forall>x. x \<notin> set xs \<longrightarrow> ch_at s' x = ch_at s x)"
proof -
  obtain s' where s': "Room_Push r p s = Some s'" "st_rm s' = st_rm s" "length (st_ch s') = length (st_ch s)"
    "\<forall>x. ch_at s' x = (if x \<in> set xs then snd (Channel_Push p (ch_at s x)) else ch_at s x)"
    using Room_Push_spec [OF assms, of p] by (elim exE conjE) (rule that)
  have "dseg s' None (rm_next (rm_at s r)) xs None = dseg s None (rm_next (rm_at s r)) xs None"
    using s'(4) by (intro dseg_cong) simp
  then have "Room_ok s' r xs" using assms s'(2,3) by (auto simp: Room_ok_def rm_at_def)
  then show ?thesis using s'(1,4) by (intro exI [of _ s']) (auto simp: Push_signal)
qed

theorem room_push_delivers_witness:
  "\<exists>s'. Room_Push 0 Proto_zero live_store = Some s' \<and> Room_ok s' 0 [1, 0]"
  using room_push_delivers [OF live_room, of Proto_zero] by (elim exE conjE) (intro exI conjI; assumption)

text \<open>
  Closing a room blocks on a full member. \<open>Close\<close> sends the finish signal to every member and
  returns, unless the queue of one of them is full: then it never returns, and holds the room's lock.
\<close>

theorem room_close_blocks:
  assumes "Room_ok s r xs"
  shows "Room_Close r s = None \<longleftrightarrow> (\<exists>x\<in>set xs. ch_cap (ch_at s x) \<le> length (ch_signal (ch_at s x)))"
  using Room_Close_spec [OF assms] by (auto split: if_splits simp: not_less)

theorem room_close_blocks_witness:
  "Room_Close 0 live_store \<noteq> None"
  using room_close_blocks [OF live_room]
  by (simp add: live_store_def demo_store_def NewRoom_def Room_Put_def rm_at_def ch_at_def rm_set_def ch_set_def
      ch_set_opt_def NewChannel_def)

end
