(* ===== verification/Bucket.thy ===== *)
theory Bucket
  imports Room "HOL-Library.AList"
begin

text \<open>
  \<open>internal/comet/bucket.go\<close>: a bucket holds the channels of a comet process by their key and the rooms by
  their ID. Its maps are association lists with distinct keys (Go iterates over them in any order; no
  operation here depends on it). An operation takes the bucket and the store and is atomic, as under
  \<open>cLock\<close>; one that blocks for ever is \<open>None\<close>. The Go channels of the room goroutines are queues.
\<close>

section \<open>State\<close>

record BroadcastRoomReq =
  br_RoomID :: string
  br_Proto :: Proto

record BucketConf =
  cb_RoutineAmount :: uint64
  cb_RoutineSize :: nat

record Bucket =
  bk_c :: BucketConf
  bk_chs :: "(string \<times> addr) list"
  bk_rooms :: "(string \<times> addr) list"
  bk_routines :: "BroadcastRoomReq list list"
  bk_routinesNum :: uint64
  bk_ipCnts :: "(string \<times> int32) list"

type_synonym bworld = "Bucket \<times> Store"

definition NewBucket :: "BucketConf \<Rightarrow> Bucket" where
  "NewBucket c =
     \<lparr>bk_c = c, bk_chs = [], bk_rooms = [], bk_routines = replicate (unat (cb_RoutineAmount c)) [],
      bk_routinesNum = 0, bk_ipCnts = []\<rparr>"

section \<open>Operations\<close>

definition ChannelCount :: "Bucket \<Rightarrow> nat" where "ChannelCount b = length (bk_chs b)"

definition RoomCount :: "Bucket \<Rightarrow> nat" where "RoomCount b = length (bk_rooms b)"

definition RoomsCount :: "bworld \<Rightarrow> (string \<times> int32) list" where
  "RoomsCount w =
     map (\<lambda>(rid, r). (rid, rm_Online (rm_at (snd w) r))) (filter (\<lambda>(rid, r). 0 < sint (rm_Online (rm_at (snd w) r))) (bk_rooms (fst w)))"

definition Bucket_DelRoom :: "addr \<Rightarrow> bworld \<Rightarrow> bworld option" where
  "Bucket_DelRoom r w =
     (let b = (fst w)\<lparr>bk_rooms := AList.delete (rm_ID (rm_at (snd w) r)) (bk_rooms (fst w))\<rparr>
      in map_option (Pair b) (Room_Close r (snd w)))"

text \<open>\<open>if room != nil && room.Del(ch) \<dots> b.DelRoom(room)\<close>, which \<open>ChangeRoom\<close> and \<open>Del\<close> share.\<close>

definition leave_room :: "ptr \<Rightarrow> addr \<Rightarrow> bworld \<Rightarrow> bworld option" where
  "leave_room room ch w =
     (case room of
        None \<Rightarrow> Some w
      | Some r \<Rightarrow> (let (last, s) = Room_Del r ch (snd w)
                   in if last then Bucket_DelRoom r (fst w, s) else Some (fst w, s)))"

text \<open>\<open>if room, ok = b.rooms[rid]; !ok \<dots>\<close>: the room with this ID, made if there is none.\<close>

definition get_room :: "string \<Rightarrow> bworld \<Rightarrow> addr \<times> bworld" where
  "get_room rid w =
     (case map_of (bk_rooms (fst w)) rid of
        Some r \<Rightarrow> (r, w)
      | None \<Rightarrow> (let (r, s) = NewRoom rid (snd w)
                 in (r, (fst w)\<lparr>bk_rooms := AList.update rid r (bk_rooms (fst w))\<rparr>, s)))"

definition Bucket_ChangeRoom :: "string \<Rightarrow> addr \<Rightarrow> bworld \<Rightarrow> (error option \<times> bworld) option" where
  "Bucket_ChangeRoom nrid ch w =
     (let oroom = ch_Room (ch_at (snd w) ch) in
      if nrid = [] then
        map_option (\<lambda>w1. (None, fst w1, ch_set ch (\<lambda>c. c\<lparr>ch_Room := None\<rparr>) (snd w1))) (leave_room oroom ch w)
      else
        let (nroom, w0) = get_room nrid w in
        map_option (\<lambda>w1. case Room_Put nroom ch (snd w1) of
            (Some e, s) \<Rightarrow> (Some e, fst w1, s)
          | (None, s) \<Rightarrow> (None, fst w1, ch_set ch (\<lambda>c. c\<lparr>ch_Room := Some nroom\<rparr>) s))
          (leave_room oroom ch w0))"

text \<open>A missing key reads as 0, and the counter wraps around.\<close>

definition ip_count :: "string \<Rightarrow> Bucket \<Rightarrow> int32" where
  "ip_count ip b = (case map_of (bk_ipCnts b) ip of None \<Rightarrow> 0 | Some n \<Rightarrow> n)"

definition close_old :: "string \<Rightarrow> bworld \<Rightarrow> bworld option" where
  "close_old key w =
     (case map_of (bk_chs (fst w)) key of
        None \<Rightarrow> Some w
      | Some dch \<Rightarrow> map_option (\<lambda>c. (fst w, ch_set dch (\<lambda>_. c) (snd w))) (Channel_Close (ch_at (snd w) dch)))"

definition Bucket_Put :: "string \<Rightarrow> addr \<Rightarrow> bworld \<Rightarrow> (error option \<times> bworld) option" where
  "Bucket_Put rid ch w =
     (case close_old (ch_Key (ch_at (snd w) ch)) w of
        None \<Rightarrow> None
      | Some (b0, s0) \<Rightarrow>
          let b1 = b0\<lparr>bk_chs := AList.update (ch_Key (ch_at s0 ch)) ch (bk_chs b0)\<rparr>;
              (room, b2, s2) = (if rid \<noteq> [] then let (r, b, s) = get_room rid (b1, s0)
                                                  in (Some r, b, ch_set ch (\<lambda>c. c\<lparr>ch_Room := Some r\<rparr>) s)
                                else (None, b1, s0));
              ip = ch_IP (ch_at s2 ch);
              b3 = b2\<lparr>bk_ipCnts := AList.update ip (ip_count ip b2 + 1) (bk_ipCnts b2)\<rparr>
          in Some (case room of
                None \<Rightarrow> (None, b3, s2)
              | Some r \<Rightarrow> (let (err, s) = Room_Put r ch s2 in (err, b3, s))))"

definition ip_dec :: "string \<Rightarrow> Bucket \<Rightarrow> Bucket" where
  "ip_dec ip b =
     (if sint (ip_count ip b) > 1 then b\<lparr>bk_ipCnts := AList.update ip (ip_count ip b - 1) (bk_ipCnts b)\<rparr>
      else b\<lparr>bk_ipCnts := AList.delete ip (bk_ipCnts b)\<rparr>)"

definition Bucket_Del :: "addr \<Rightarrow> bworld \<Rightarrow> bworld option" where
  "Bucket_Del dch w =
     (let room = ch_Room (ch_at (snd w) dch);
          b = (case map_of (bk_chs (fst w)) (ch_Key (ch_at (snd w) dch)) of
                 None \<Rightarrow> fst w
               | Some ch \<Rightarrow>
                   let b1 = (if ch = dch then (fst w)\<lparr>bk_chs := AList.delete (ch_Key (ch_at (snd w) ch)) (bk_chs (fst w))\<rparr> else fst w)
                   in ip_dec (ch_IP (ch_at (snd w) ch)) b1)
      in leave_room room dch (b, snd w))"

definition Bucket_Channel :: "string \<Rightarrow> Bucket \<Rightarrow> ptr" where
  "Bucket_Channel key b = map_of (bk_chs b) key"

definition Bucket_Broadcast :: "Proto \<Rightarrow> int32 \<Rightarrow> bworld \<Rightarrow> bworld" where
  "Bucket_Broadcast p op w =
     (fst w, fold (\<lambda>(key, ch) s. if Channel_NeedPush op (ch_at s ch) then ch_set ch (\<lambda>c. snd (Channel_Push p c)) s else s)
        (bk_chs (fst w)) (snd w))"

definition Bucket_Room :: "string \<Rightarrow> Bucket \<Rightarrow> ptr" where
  "Bucket_Room rid b = map_of (bk_rooms b) rid"

text \<open>The counter is incremented atomically; the modulo panics for no routine; the send blocks on a full queue.\<close>

definition Bucket_BroadcastRoom :: "BroadcastRoomReq \<Rightarrow> Bucket \<Rightarrow> Bucket run" where
  "Bucket_BroadcastRoom arg b =
     (let n = bk_routinesNum b + 1; b1 = b\<lparr>bk_routinesNum := n\<rparr> in
      if cb_RoutineAmount (bk_c b) = 0 then Some (Panic DivideByZero)
      else let num = unat (n mod cb_RoutineAmount (bk_c b)); q = bk_routines b ! num in
           if length q < cb_RoutineSize (bk_c b) then Some (Ret (b1\<lparr>bk_routines := (bk_routines b)[num := q @ [arg]]\<rparr>))
           else None)"

definition Bucket_Rooms :: "bworld \<Rightarrow> string list" where
  "Bucket_Rooms w = map fst (filter (\<lambda>(rid, r). 0 < sint (rm_Online (rm_at (snd w) r))) (bk_rooms (fst w)))"

definition IPCount :: "Bucket \<Rightarrow> string list" where
  "IPCount b = map fst (bk_ipCnts b)"

definition UpRoomsCount :: "(string \<rightharpoonup> int32) \<Rightarrow> bworld \<Rightarrow> bworld" where
  "UpRoomsCount m w =
     (fst w, fold (\<lambda>(rid, r). rm_set r (\<lambda>x. x\<lparr>rm_AllOnline := (case m rid of None \<Rightarrow> 0 | Some n \<Rightarrow> n)\<rparr>)) (bk_rooms (fst w)) (snd w))"

text \<open>One turn of the goroutine of queue \<open>i\<close>; it waits (\<open>None\<close>) at an empty queue.\<close>

definition roomproc :: "nat \<Rightarrow> bworld \<Rightarrow> bworld option" where
  "roomproc i w =
     (case bk_routines (fst w) ! i of
        [] \<Rightarrow> None
      | arg # q \<Rightarrow>
          let b = (fst w)\<lparr>bk_routines := (bk_routines (fst w))[i := q]\<rparr> in
          (case Bucket_Room (br_RoomID arg) b of
             None \<Rightarrow> Some (b, snd w)
           | Some r \<Rightarrow> map_option (Pair b) (Room_Push r (br_Proto arg) (snd w))))"

section \<open>The rooms of a bucket\<close>

text \<open>
  \<open>rof\<close> says which room a channel is a member of, \<open>mem\<close> lists the members of a room. Every room of the
  map has its ID as key, its linked list holds exactly its members, it is not dropped, and it is not
  empty unless it is in \<open>H\<close> (a room that was just made); every member's room is in the map.
\<close>

definition rooms_inv :: "addr set \<Rightarrow> (string \<times> addr) list \<Rightarrow> Store \<Rightarrow> (addr \<Rightarrow> ptr) \<Rightarrow> (addr \<Rightarrow> addr list) \<Rightarrow> bool" where
  "rooms_inv H rs s rof mem \<longleftrightarrow> distinct (map fst rs) \<and>
     (\<forall>rid r. map_of rs rid = Some r \<longrightarrow> rid \<noteq> [] \<and> rm_ID (rm_at s r) = rid \<and> Room_ok s r (mem r) \<and>
        \<not> rm_drop (rm_at s r) \<and> set (mem r) = {x. rof x = Some r} \<and> (r \<notin> H \<longrightarrow> mem r \<noteq> [])) \<and>
     (\<forall>x r. rof x = Some r \<longrightarrow> map_of rs (rm_ID (rm_at s r)) = Some r)"

lemma rooms_invD:
  assumes "rooms_inv H rs s rof mem" and "map_of rs rid = Some r"
  shows "rid \<noteq> []" "rm_ID (rm_at s r) = rid" "Room_ok s r (mem r)" "\<not> rm_drop (rm_at s r)"
    "set (mem r) = {x. rof x = Some r}" "r \<notin> H \<Longrightarrow> mem r \<noteq> []"
  using assms unfolding rooms_inv_def by blast+

text \<open>Only the links of the members and the rooms themselves matter.\<close>

lemma Room_ok_cong:
  assumes "Room_ok s r xs" and "rm_at s' r = rm_at s r" and "length (st_ch s') = length (st_ch s)" and "length (st_rm s) \<le> length (st_rm s')"
    and "\<forall>x\<in>set xs. ch_Next (ch_at s' x) = ch_Next (ch_at s x) \<and> ch_Prev (ch_at s' x) = ch_Prev (ch_at s x)"
  shows "Room_ok s' r xs"
proof -
  have "dseg s' None (rm_next (rm_at s r)) xs None = dseg s None (rm_next (rm_at s r)) xs None"
    using assms(5) by (intro dseg_cong) simp
  then show ?thesis using assms(1-4) unfolding Room_ok_def by simp
qed

lemma rooms_inv_cong:
  assumes "rooms_inv H rs s rof mem" and "st_rm s' = st_rm s" and "length (st_ch s') = length (st_ch s)"
    and "\<forall>x. ch_Next (ch_at s' x) = ch_Next (ch_at s x) \<and> ch_Prev (ch_at s' x) = ch_Prev (ch_at s x)"
  shows "rooms_inv H rs s' rof mem"
proof -
  have rm: "rm_at s' r = rm_at s r" for r using assms(2) by (simp add: rm_at_def)
  have "Room_ok s r (mem r) \<Longrightarrow> Room_ok s' r (mem r)" for r
    using Room_ok_cong [of s r "mem r" s'] assms(2-4) rm by simp
  then show ?thesis using assms(1) unfolding rooms_inv_def rm by blast
qed

lemma rooms_inv_weaken: "rooms_inv H rs s rof mem \<Longrightarrow> H \<subseteq> H' \<Longrightarrow> rooms_inv H' rs s rof mem"
  unfolding rooms_inv_def by blast

lemma get_room_spec:
  assumes inv: "rooms_inv {} (bk_rooms b) s rof mem" and rid: "rid \<noteq> []"
  shows "\<exists>r b' s' mem'. get_room rid (b, s) = (r, b', s') \<and> rooms_inv {r} (bk_rooms b') s' rof mem' \<and>
    map_of (bk_rooms b') rid = Some r \<and> bk_chs b' = bk_chs b \<and> bk_ipCnts b' = bk_ipCnts b \<and> st_ch s' = st_ch s \<and>
    (map_of (bk_rooms b) rid = Some r \<or> (\<forall>x. rof x \<noteq> Some r)) \<and> (\<forall>q. map_of (bk_rooms b) (rm_ID (rm_at s q)) = Some q \<longrightarrow> rm_at s' q = rm_at s q)"
proof (cases "map_of (bk_rooms b) rid")
  case (Some r)
  then show ?thesis
    using rooms_inv_weaken [OF inv, of "{r}"]
    by (intro exI [of _ r] exI [of _ b] exI [of _ s] exI [of _ mem]) (simp add: get_room_def)
next
  case None
  define r where "r = length (st_rm s)"
  define b' where "b' = b\<lparr>bk_rooms := AList.update rid r (bk_rooms b)\<rparr>"
  define s' where "s' = snd (NewRoom rid s)"
  have run: "get_room rid (b, s) = (r, b', s')"
    using None by (simp add: get_room_def NewRoom_def r_def b'_def s'_def)
  have ch: "st_ch s' = st_ch s" "length (st_rm s') = Suc (length (st_rm s))" by (simp_all add: s'_def NewRoom_def)
  have new: "rm_at s' r = \<lparr>rm_ID = rid, rm_next = None, rm_drop = False, rm_Online = 0, rm_AllOnline = 0\<rparr>"
    by (simp add: s'_def NewRoom_def rm_at_def r_def)
  have old: "rm_at s' q = rm_at s q" if "q < length (st_rm s)" for q
    using that by (simp add: s'_def NewRoom_def rm_at_def nth_append)
  have lt: "q < length (st_rm s)" if "map_of (bk_rooms b) k = Some q" for k q
    using rooms_invD(3) [OF inv that] by (simp add: Room_ok_def)
  have rof: "rof x \<noteq> Some r" for x
    using inv lt [of _ r] unfolding rooms_inv_def r_def by fastforce
  define mem' where "mem' = mem(r := [])"
  have mo: "map_of (bk_rooms b') = (map_of (bk_rooms b))(rid \<mapsto> r)" by (simp add: b'_def update_conv')
  have "r < length (st_rm s')" by (simp add: ch r_def)
  then have okr: "Room_ok s' r []" by (simp add: Room_ok_def new)
  have oko: "Room_ok s' q (mem q)" if "map_of (bk_rooms b) k = Some q" for k q
    using Room_ok_cong [OF rooms_invD(3) [OF inv that], of s'] old [OF lt [OF that]] ch by (simp add: ch_at_def)
  have "rooms_inv {r} (bk_rooms b') s' rof mem'"
    unfolding rooms_inv_def mo
  proof (intro conjI allI impI)
    show "distinct (map fst (bk_rooms b'))" using inv by (simp add: b'_def rooms_inv_def distinct_update)
  next
    fix x q assume "rof x = Some q"
    then have q: "map_of (bk_rooms b) (rm_ID (rm_at s q)) = Some q" using inv by (simp add: rooms_inv_def)
    then show "((map_of (bk_rooms b))(rid \<mapsto> r)) (rm_ID (rm_at s' q)) = Some q"
      using old [OF lt [OF q]] None by auto
  next
    fix k q assume q: "((map_of (bk_rooms b))(rid \<mapsto> r)) k = Some q"
    have c: "k = rid \<and> q = r \<or> k \<noteq> rid \<and> q \<noteq> r \<and> map_of (bk_rooms b) k = Some q"
      using q lt [of k q] by (auto simp: r_def split: if_splits)
    show "k \<noteq> []" using c rid rooms_invD(1) [OF inv] by blast
    show "rm_ID (rm_at s' q) = k" using c new old lt rooms_invD(2) [OF inv] by fastforce
    show "Room_ok s' q (mem' q)" using c okr oko by (auto simp: mem'_def)
    show "\<not> rm_drop (rm_at s' q)" using c new old lt rooms_invD(4) [OF inv] by fastforce
    show "set (mem' q) = {x. rof x = Some q}" using c rof rooms_invD(5) [OF inv] by (auto simp: mem'_def)
    show "q \<notin> {r} \<Longrightarrow> mem' q \<noteq> []" using c rooms_invD(6) [OF inv, of k q] by (auto simp: mem'_def)
  qed
  then show ?thesis
    using run mo ch rof old lt
    by (intro exI [of _ r] exI [of _ b'] exI [of _ s'] exI [of _ mem']) (auto simp: b'_def)
qed

text \<open>Joining a room of the map, and leaving one.\<close>

lemma frame_other_room:
  assumes "room_frame r X s s'" and "Room_ok s q ys" and "q \<noteq> r" and "set ys \<inter> X = {}"
  shows "Room_ok s' q ys"
proof (rule Room_ok_cong [OF assms(2)])
  have "ch_at s' x = ch_at s x" if "x \<in> set ys" for x
    using assms(1,4) that unfolding room_frame_def by blast
  then show "\<forall>x\<in>set ys. ch_Next (ch_at s' x) = ch_Next (ch_at s x) \<and> ch_Prev (ch_at s' x) = ch_Prev (ch_at s x)" by simp
qed (use assms(1,3) in \<open>auto simp: room_frame_def\<close>)

lemma join_room:
  assumes inv: "rooms_inv {r} rs s rof mem" and r: "map_of rs rid = Some r" and ch: "ch < length (st_ch s)" "rof ch = None"
    and bound: "length (mem r) + 1 < 2 ^ 31"
  shows "\<exists>s'. Room_Put r ch s = (None, s') \<and> rooms_inv {} rs s' (rof(ch := Some r)) (mem(r := ch # mem r)) \<and>
    room_frame r (insert ch (set (mem r))) s s'"
proof -
  note d = rooms_invD [OF inv r]
  have nin: "ch \<notin> set (mem r)" using d(5) ch(2) by simp
  obtain s' where s': "Room_Put r ch s = (None, s')" "Room_ok s' r (ch # mem r)"
      and fr: "room_frame r (insert ch (set (mem r))) s s'" and nd: "\<not> rm_drop (rm_at s' r)"
    using Room_Put_spec [OF d(3) ch(1) nin d(4) bound] by (elim exE conjE) (rule that)
  have id: "rm_ID (rm_at s' q) = rm_ID (rm_at s q)" for q using fr by (cases "q = r") (auto simp: room_frame_def)
  have oth: "rm_at s' q = rm_at s q" if "q \<noteq> r" for q using fr that by (simp add: room_frame_def)
  have "rooms_inv {} rs s' (rof(ch := Some r)) (mem(r := ch # mem r))"
    unfolding rooms_inv_def id
  proof (intro conjI allI impI)
    show "distinct (map fst rs)" using inv by (simp add: rooms_inv_def)
  next
    fix x q assume "(rof(ch := Some r)) x = Some q"
    then show "map_of rs (rm_ID (rm_at s q)) = Some q" using inv r d(2) by (auto simp: rooms_inv_def split: if_splits)
  next
    fix k q assume k: "map_of rs k = Some q"
    note e = rooms_invD [OF inv k]
    show "k \<noteq> []" "rm_ID (rm_at s q) = k" by (rule e)+
    show "\<not> rm_drop (rm_at s' q)" using nd oth e(4) by (cases "q = r") auto
    show "set ((mem(r := ch # mem r)) q) = {x. (rof(ch := Some r)) x = Some q}" using e(5) ch(2) by auto
    show "(mem(r := ch # mem r)) q \<noteq> []" using e(6) by auto
    show "Room_ok s' q ((mem(r := ch # mem r)) q)"
    proof (cases "q = r")
      case False
      have "set (mem q) \<inter> insert ch (set (mem r)) = {}" using False e(5) d(5) ch(2) by auto
      then show ?thesis using False frame_other_room [OF fr e(3)] by simp
    qed (use s'(2) in simp)
  qed
  then show ?thesis using s'(1) fr by blast
qed

lemma leave_room_spec:
  assumes inv: "rooms_inv H (bk_rooms b) s rof mem" and ch: "rof ch = Some r" and H: "mem r = [ch] \<longrightarrow> r \<notin> H"
  shows "\<exists>b' s' mem'. leave_room (Some r) ch (b, s) = Some (b', s') \<and> rooms_inv H (bk_rooms b') s' (rof(ch := None)) mem' \<and>
    room_frame r (set (mem r)) s s' \<and> (\<forall>q. q \<noteq> r \<longrightarrow> mem' q = mem q) \<and> bk_chs b' = bk_chs b \<and> bk_ipCnts b' = bk_ipCnts b \<and>
    bk_rooms b' = (if mem r = [ch] then AList.delete (rm_ID (rm_at s r)) (bk_rooms b) else bk_rooms b) \<and> length (mem' r) = length (mem r) - 1"
proof -
  have r: "map_of (bk_rooms b) (rm_ID (rm_at s r)) = Some r" using inv ch by (simp add: rooms_inv_def)
  note d = rooms_invD [OF inv r]
  have in_r: "ch \<in> set (mem r)" using d(5) ch by simp
  obtain s' where run: "Room_Del r ch s = (mem r = [ch], s')" and ok: "Room_ok s' r (remove1 ch (mem r))"
    and fr: "room_frame r (set (mem r)) s s'" and dr: "rm_drop (rm_at s' r) \<longleftrightarrow> remove1 ch (mem r) = []"
    using Room_Del_spec [OF d(3) in_r] by (elim exE conjE) (rule that)
  have dist: "distinct (mem r)" using d(3) by (simp add: Room_ok_def)
  have id: "rm_ID (rm_at s' q) = rm_ID (rm_at s q)" for q using fr by (cases "q = r") (auto simp: room_frame_def)
  have oth: "rm_at s' q = rm_at s q" if "q \<noteq> r" for q using fr that by (simp add: room_frame_def)
  define mem' where "mem' = mem(r := remove1 ch (mem r))"
  define b' where "b' = (if mem r = [ch] then b\<lparr>bk_rooms := AList.delete (rm_ID (rm_at s r)) (bk_rooms b)\<rparr> else b)"
  have cl: "Room_Close r s' = Some s'" if "mem r = [ch]"
    using ok that by (simp add: Room_ok_def Room_Close_def Room_Close_loop.simps)
  have run': "leave_room (Some r) ch (b, s) = Some (b', s')"
    using run cl id by (simp add: leave_room_def b'_def Bucket_DelRoom_def Let_def)
  have mo: "map_of (bk_rooms b') k = Some q \<Longrightarrow> map_of (bk_rooms b) k = Some q \<and> (q = r \<longrightarrow> mem r \<noteq> [ch])" for k q
    using rooms_invD(2) [OF inv, of k q] by (auto simp: b'_def delete_conv' split: if_splits)
  have one: "remove1 ch (mem r) = [] \<longleftrightarrow> mem r = [ch]"
    using in_r by (cases "mem r") (auto split: if_splits)
  have "rooms_inv H (bk_rooms b') s' (rof(ch := None)) mem'"
    unfolding rooms_inv_def id
  proof (intro conjI allI impI)
    show "distinct (map fst (bk_rooms b'))" using inv by (simp add: rooms_inv_def b'_def distinct_delete)
  next
    fix x q assume x: "(rof(ch := None)) x = Some q"
    then have q: "rof x = Some q" "x \<noteq> ch" by (auto split: if_splits)
    have m: "map_of (bk_rooms b) (rm_ID (rm_at s q)) = Some q" using inv q by (simp add: rooms_inv_def)
    have "mem r = [ch] \<Longrightarrow> q \<noteq> r" using d(5) q by auto
    then have "mem r = [ch] \<Longrightarrow> rm_ID (rm_at s q) \<noteq> rm_ID (rm_at s r)" using m r by auto
    then show "map_of (bk_rooms b') (rm_ID (rm_at s q)) = Some q" using m by (auto simp: b'_def delete_conv')
  next
    fix k q assume k: "map_of (bk_rooms b') k = Some q"
    note k' = mo [OF k]
    note e = rooms_invD [OF inv conjunct1 [OF k']]
    show "k \<noteq> []" "rm_ID (rm_at s q) = k" by (rule e)+
    show "\<not> rm_drop (rm_at s' q)" using dr one k' oth e(4) by (cases "q = r") auto
    show "set (mem' q) = {x. (rof(ch := None)) x = Some q}" using e(5) ch dist by (auto simp: mem'_def)
    show "q \<notin> H \<Longrightarrow> mem' q \<noteq> []" using one k' e(6) by (auto simp: mem'_def)
    show "Room_ok s' q (mem' q)"
    proof (cases "q = r")
      case False
      have "set (mem q) \<inter> set (mem r) = {}" using False e(5) d(5) by auto
      then show ?thesis using False frame_other_room [OF fr e(3)] by (simp add: mem'_def)
    qed (use ok in \<open>simp add: mem'_def\<close>)
  qed
  then show ?thesis using run' fr in_r
    by (intro exI [of _ b'] exI [of _ s'] exI [of _ mem']) (simp add: mem'_def b'_def length_remove1)
qed

section \<open>The invariant of a bucket\<close>

text \<open>
  \<open>L\<close> are the live channels: those that were put and not yet deleted. A channel replaced by one with the
  same key stays live until its connection deletes it.
\<close>

definition room_of :: "Store \<Rightarrow> addr set \<Rightarrow> addr \<Rightarrow> ptr" where
  "room_of s L x = (if x \<in> L then ch_Room (ch_at s x) else None)"

definition chs_ok :: "addr set \<Rightarrow> (string \<times> addr) list \<Rightarrow> Store \<Rightarrow> bool" where
  "chs_ok L cs s \<longleftrightarrow> finite L \<and> card L < 2 ^ 31 \<and> (\<forall>x\<in>L. x < length (st_ch s)) \<and> distinct (map fst cs) \<and>
     (\<forall>k c. map_of cs k = Some c \<longrightarrow> c \<in> L \<and> ch_Key (ch_at s c) = k)"

definition Bucket_ok :: "addr set \<Rightarrow> bworld \<Rightarrow> bool" where
  "Bucket_ok L w \<longleftrightarrow> chs_ok L (bk_chs (fst w)) (snd w) \<and> (\<exists>mem. rooms_inv {} (bk_rooms (fst w)) (snd w) (room_of (snd w) L) mem)"

text \<open>What the list operations keep of every channel.\<close>

definition same_chs :: "Store \<Rightarrow> Store \<Rightarrow> bool" where
  "same_chs s s' \<longleftrightarrow> length (st_ch s') = length (st_ch s) \<and>
     (\<forall>x. ch_Room (ch_at s' x) = ch_Room (ch_at s x) \<and> ch_Key (ch_at s' x) = ch_Key (ch_at s x) \<and>
        ch_IP (ch_at s' x) = ch_IP (ch_at s x) \<and> ch_signal (ch_at s' x) = ch_signal (ch_at s x) \<and> ch_cap (ch_at s' x) = ch_cap (ch_at s x))"

lemma same_chs_refl [simp]: "same_chs s s" by (simp add: same_chs_def)
lemma same_chs_trans: "same_chs s s' \<Longrightarrow> same_chs s' s'' \<Longrightarrow> same_chs s s''" by (simp add: same_chs_def)
lemma frame_same_chs: "room_frame r X s s' \<Longrightarrow> same_chs s s'" by (simp add: room_frame_def same_chs_def)

lemma chs_ok_cong: "chs_ok L cs s \<Longrightarrow> length (st_ch s') = length (st_ch s) \<Longrightarrow> \<forall>x. ch_Key (ch_at s' x) = ch_Key (ch_at s x) \<Longrightarrow> chs_ok L cs s'"
  by (simp add: chs_ok_def)

lemma members_bound:
  assumes "rooms_inv H rs s rof mem" and "map_of rs rid = Some r" and "finite L" and "{x. rof x = Some r} \<subseteq> L"
  shows "length (mem r) \<le> card L"
proof -
  have "length (mem r) = card (set (mem r))"
    using rooms_invD(3) [OF assms(1,2)] by (simp add: Room_ok_def distinct_card)
  also have "\<dots> \<le> card L" using rooms_invD(5) [OF assms(1,2)] assms(3,4) by (simp add: card_mono)
  finally show ?thesis .
qed

lemma leave_any:
  assumes inv: "rooms_inv H (bk_rooms b) s rof mem" and H: "\<forall>r. rof ch = Some r \<longrightarrow> mem r = [ch] \<longrightarrow> r \<notin> H"
  shows "\<exists>b' s' mem'. leave_room (rof ch) ch (b, s) = Some (b', s') \<and> rooms_inv H (bk_rooms b') s' (rof(ch := None)) mem' \<and>
    same_chs s s' \<and> bk_chs b' = bk_chs b \<and> bk_ipCnts b' = bk_ipCnts b \<and>
    (\<forall>k q. q \<in> H \<longrightarrow> map_of (bk_rooms b) k = Some q \<longrightarrow> map_of (bk_rooms b') k = Some q)"
proof (cases "rof ch")
  case None
  then have "rof(ch := None) = rof" by auto
  then show ?thesis using None inv
    by (intro exI [of _ b] exI [of _ s] exI [of _ mem]) (simp add: leave_room_def)
next
  case (Some r)
  have Hr: "mem r = [ch] \<longrightarrow> r \<notin> H" using H Some by simp
  obtain b' s' mem' where l: "leave_room (Some r) ch (b, s) = Some (b', s')" "rooms_inv H (bk_rooms b') s' (rof(ch := None)) mem'"
    "room_frame r (set (mem r)) s s'" "bk_chs b' = bk_chs b" "bk_ipCnts b' = bk_ipCnts b"
    and rs: "bk_rooms b' = (if mem r = [ch] then AList.delete (rm_ID (rm_at s r)) (bk_rooms b) else bk_rooms b)"
    using leave_room_spec [OF inv Some Hr] by (elim exE conjE) (rule that)
  have "map_of (bk_rooms b') k = Some q" if q: "q \<in> H" "map_of (bk_rooms b) k = Some q" for k q
  proof -
    have "mem r = [ch] \<Longrightarrow> k \<noteq> rm_ID (rm_at s r)"
      using q H Some inv unfolding rooms_inv_def by fastforce
    then show ?thesis using q(2) by (auto simp: rs delete_conv')
  qed
  then show ?thesis using l Some frame_same_chs by (intro exI [of _ b'] exI [of _ s'] exI [of _ mem']) auto
qed

text \<open>The three operations that change the channels and rooms keep the invariant.\<close>

lemma Bucket_Del_spec:
  assumes ok: "Bucket_ok L (b, s)" and ch: "ch \<in> L"
  shows "\<exists>w'. Bucket_Del ch (b, s) = Some w' \<and> Bucket_ok (L - {ch}) w' \<and> same_chs s (snd w') \<and>
    map_of (bk_chs (fst w')) = (\<lambda>k. if map_of (bk_chs b) k = Some ch then None else map_of (bk_chs b) k)"
proof -
  obtain mem where inv: "rooms_inv {} (bk_rooms b) s (room_of s L) mem" and cs: "chs_ok L (bk_chs b) s"
    using ok by (auto simp: Bucket_ok_def)
  define key where "key = ch_Key (ch_at s ch)"
  define b1 where "b1 = (case map_of (bk_chs b) key of None \<Rightarrow> b
    | Some c \<Rightarrow> let b1 = (if c = ch then b\<lparr>bk_chs := AList.delete (ch_Key (ch_at s c)) (bk_chs b)\<rparr> else b)
                in ip_dec (ch_IP (ch_at s c)) b1)"
  have rm: "bk_rooms b1 = bk_rooms b" by (auto simp: b1_def ip_dec_def Let_def split: option.split)
  have c1: "bk_chs b1 = (if map_of (bk_chs b) key = Some ch then AList.delete key (bk_chs b) else bk_chs b)"
    by (auto simp: b1_def ip_dec_def Let_def key_def split: option.split)
  have keys: "map_of (bk_chs b) k = Some ch \<Longrightarrow> k = key" for k using cs by (simp add: chs_ok_def key_def)
  have m1: "map_of (bk_chs b1) = (\<lambda>k. if map_of (bk_chs b) k = Some ch then None else map_of (bk_chs b) k)"
  proof
    fix k show "map_of (bk_chs b1) k = (if map_of (bk_chs b) k = Some ch then None else map_of (bk_chs b) k)"
    proof (cases "map_of (bk_chs b) k = Some ch")
      case True
      with keys [OF True] show ?thesis by (simp add: c1 delete_conv')
    next
      case False
      then have "map_of (bk_chs b) key = Some ch \<Longrightarrow> k \<noteq> key" by auto
      with False show ?thesis by (cases "map_of (bk_chs b) key = Some ch") (simp_all add: c1 delete_conv')
    qed
  qed
  have rof: "room_of s L ch = ch_Room (ch_at s ch)" using ch by (simp add: room_of_def)
  obtain b' s' mem' where l: "leave_room (room_of s L ch) ch (b1, s) = Some (b', s')"
    "rooms_inv {} (bk_rooms b') s' ((room_of s L)(ch := None)) mem'" "same_chs s s'" "bk_chs b' = bk_chs b1"
    using leave_any [of "{}" b1 s "room_of s L" mem ch] inv rm by auto
  have "(room_of s L)(ch := None) = room_of s' (L - {ch})"
    using l(3) by (auto simp: room_of_def same_chs_def)
  moreover have "chs_ok (L - {ch}) (bk_chs b') s'"
    unfolding chs_ok_def l(4) m1
  proof (intro conjI)
    show "distinct (map fst (bk_chs b1))" using cs by (simp add: c1 chs_ok_def distinct_delete)
    show "card (L - {ch}) < 2 ^ 31" using cs card_Diff1_le [of L ch] by (simp add: chs_ok_def)
  qed (use cs l(3) in \<open>auto simp: chs_ok_def same_chs_def split: if_splits\<close>)
  ultimately have "Bucket_ok (L - {ch}) (b', s')" using l(2) by (auto simp: Bucket_ok_def)
  moreover have "Bucket_Del ch (b, s) = Some (b', s')"
    using l(1) rof unfolding Bucket_Del_def Let_def fst_conv snd_conv key_def [symmetric] b1_def [unfolded Let_def, symmetric] by simp
  ultimately show ?thesis using l(3,4) m1 by (intro exI [of _ "(b', s')"]) simp
qed

text \<open>A channel of no room goes into the room with the given ID, or into a new one.\<close>

lemma enter_room:
  assumes inv: "rooms_inv {r} rs s rof mem" and r: "map_of rs rid = Some r" and ch: "ch < length (st_ch s)" "rof ch = None"
    and L: "finite L" "card L < 2 ^ 31" "ch \<in> L" "\<forall>x. rof x \<noteq> None \<longrightarrow> x \<in> L"
  shows "\<exists>s' mem'. Room_Put r ch s = (None, s') \<and> rooms_inv {} rs s' (rof(ch := Some r)) mem' \<and> same_chs s s' \<and>
    rm_ID (rm_at s' r) = rid"
proof -
  have "{x. rof x = Some r} \<subseteq> L - {ch}" using L(4) ch(2) by auto
  then have "length (mem r) \<le> card (L - {ch})" using members_bound [OF inv r, of "L - {ch}"] L(1) by simp
  moreover have "card (L - {ch}) = card L - 1" "0 < card L" using L(1,3) by (auto simp: card_gt_0_iff)
  ultimately have bound: "length (mem r) + 1 < 2 ^ 31" using L(2) by simp
  obtain s' where s': "Room_Put r ch s = (None, s')" "rooms_inv {} rs s' (rof(ch := Some r)) (mem(r := ch # mem r))"
    "room_frame r (insert ch (set (mem r))) s s'"
    using join_room [OF inv r ch bound] by (elim exE conjE) (rule that)
  then show ?thesis using frame_same_chs rooms_invD(2) [OF s'(2) r]
    by (intro exI [of _ s'] exI [of _ "mem(r := ch # mem r)"]) auto
qed

lemma set_room_inv:
  "rooms_inv H rs s rof mem \<Longrightarrow> ch < length (st_ch s) \<Longrightarrow> rooms_inv H rs (ch_set ch (\<lambda>c. c\<lparr>ch_Room := p\<rparr>) s) rof mem"
  by (rule rooms_inv_cong) (auto simp: ch_set_def ch_at_def nth_list_update)

definition room_id :: "addr \<Rightarrow> Store \<Rightarrow> string" where
  "room_id ch s = (case ch_Room (ch_at s ch) of None \<Rightarrow> [] | Some r \<Rightarrow> rm_ID (rm_at s r))"

text \<open>The channel is in the room \<open>nrid\<close> already, and nobody else is.\<close>

definition alone_in :: "addr set \<Rightarrow> addr \<Rightarrow> string \<Rightarrow> Store \<Rightarrow> bool" where
  "alone_in L ch nrid s \<longleftrightarrow> (\<exists>r. ch_Room (ch_at s ch) = Some r \<and> rm_ID (rm_at s r) = nrid \<and>
     (\<forall>y\<in>L. ch_Room (ch_at s y) = Some r \<longrightarrow> y = ch))"

lemma ChangeRoom_to_none:
  assumes ok: "Bucket_ok L (b, s)" and ch: "ch \<in> L" and True: "nrid = []"
  shows "\<exists>w'. Bucket_ChangeRoom nrid ch (b, s) = Some (None, w') \<and> Bucket_ok L w' \<and> room_id ch (snd w') = nrid \<and>
    bk_chs (fst w') = bk_chs b"
proof -
  obtain mem where inv: "rooms_inv {} (bk_rooms b) s (room_of s L) mem" and cs: "chs_ok L (bk_chs b) s"
    using ok by (auto simp: Bucket_ok_def)
  have lt: "ch < length (st_ch s)" using cs ch by (simp add: chs_ok_def)
  have rof: "ch_Room (ch_at s ch) = room_of s L ch" using ch by (simp add: room_of_def)
  obtain b' s' mem' where l: "leave_room (room_of s L ch) ch (b, s) = Some (b', s')"
    "rooms_inv {} (bk_rooms b') s' ((room_of s L)(ch := None)) mem'" "same_chs s s'" "bk_chs b' = bk_chs b"
    using leave_any [OF inv, of ch] by auto
  define s2 where "s2 = ch_set ch (\<lambda>c. c\<lparr>ch_Room := None\<rparr>) s'"
  have lt': "ch < length (st_ch s')" using lt l(3) by (simp add: same_chs_def)
  have c2: "ch_at s2 x = (if x = ch then (ch_at s' x)\<lparr>ch_Room := None\<rparr> else ch_at s' x)" for x using lt' by (simp add: s2_def at_set)
  have "(room_of s L)(ch := None) = room_of s2 L" using l(3) by (auto simp: room_of_def same_chs_def c2)
  then have "rooms_inv {} (bk_rooms b') s2 (room_of s2 L) mem'" using set_room_inv [OF l(2) lt'] by (simp add: s2_def)
  moreover have "chs_ok L (bk_chs b') s2" using cs l(3,4) by (simp add: chs_ok_def c2 same_chs_def) (simp add: s2_def)
  moreover have "Bucket_ChangeRoom nrid ch (b, s) = Some (None, b', s2)"
    using True l(1) rof by (simp add: Bucket_ChangeRoom_def s2_def)
  ultimately show ?thesis using l(4) True c2 by (intro exI [of _ "(b', s2)"]) (auto simp: Bucket_ok_def room_id_def)
qed

lemma ChangeRoom_to_room:
  assumes ok: "Bucket_ok L (b, s)" and ch: "ch \<in> L" and na: "\<not> alone_in L ch nrid s" and False: "nrid \<noteq> []"
  shows "\<exists>w'. Bucket_ChangeRoom nrid ch (b, s) = Some (None, w') \<and> Bucket_ok L w' \<and> room_id ch (snd w') = nrid \<and>
    bk_chs (fst w') = bk_chs b"
proof -
  obtain mem where inv: "rooms_inv {} (bk_rooms b) s (room_of s L) mem" and cs: "chs_ok L (bk_chs b) s"
    using ok by (auto simp: Bucket_ok_def)
  have lt: "ch < length (st_ch s)" using cs ch by (simp add: chs_ok_def)
  have rof: "ch_Room (ch_at s ch) = room_of s L ch" using ch by (simp add: room_of_def)
  obtain r b0 s0 mem0 where g: "get_room nrid (b, s) = (r, b0, s0)" "rooms_inv {r} (bk_rooms b0) s0 (room_of s L) mem0"
    "map_of (bk_rooms b0) nrid = Some r" "bk_chs b0 = bk_chs b" "st_ch s0 = st_ch s"
    and keep: "\<forall>q. map_of (bk_rooms b) (rm_ID (rm_at s q)) = Some q \<longrightarrow> rm_at s0 q = rm_at s q"
    using get_room_spec [OF inv False] by (elim exE conjE) (rule that)
  have H: "\<forall>q. room_of s L ch = Some q \<longrightarrow> mem0 q = [ch] \<longrightarrow> q \<notin> {r}"
  proof (intro allI impI notI)
    fix q assume q: "room_of s L ch = Some q" "mem0 q = [ch]" "q \<in> {r}"
    have "map_of (bk_rooms b) (rm_ID (rm_at s q)) = Some q" using inv q(1) unfolding rooms_inv_def by blast
    then have "rm_at s0 q = rm_at s q" using keep by blast
    then have "rm_ID (rm_at s q) = nrid" using rooms_invD(2) [OF g(2,3)] q(3) by simp
    moreover have "y = ch" if "y \<in> L" "ch_Room (ch_at s y) = Some q" for y
    proof -
      have "y \<in> set (mem0 q)" using rooms_invD(5) [OF g(2,3)] q(3) that by (simp add: room_of_def)
      then show ?thesis by (simp add: q(2))
    qed
    ultimately have "alone_in L ch nrid s" using q(1) rof unfolding alone_in_def by (intro exI [of _ q]) simp
    then show False using na by simp
  qed
  obtain b1 s1 mem1 where l: "leave_room (room_of s L ch) ch (b0, s0) = Some (b1, s1)"
    "rooms_inv {r} (bk_rooms b1) s1 ((room_of s L)(ch := None)) mem1" "same_chs s0 s1" "bk_chs b1 = bk_chs b0"
    "map_of (bk_rooms b1) nrid = Some r"
    using leave_any [OF g(2) H] g(3) by auto
  have s01: "same_chs s s1" using l(3) g(5) by (simp add: same_chs_def ch_at_def)
  have lt1: "ch < length (st_ch s1)" using lt s01 by (simp add: same_chs_def)
  have L: "finite L" "card L < 2 ^ 31" using cs by (simp_all add: chs_ok_def)
  have dom: "((room_of s L)(ch := None)) ch = None" "\<forall>x. ((room_of s L)(ch := None)) x \<noteq> None \<longrightarrow> x \<in> L"
    by (auto simp: room_of_def)
  obtain s2 mem2 where p: "Room_Put r ch s1 = (None, s2)" "rooms_inv {} (bk_rooms b1) s2 ((room_of s L)(ch := None, ch := Some r)) mem2"
    "same_chs s1 s2" "rm_ID (rm_at s2 r) = nrid"
    using enter_room [OF l(2,5) lt1 dom(1) L ch dom(2)] by (elim exE conjE) (rule that)
  define s3 where "s3 = ch_set ch (\<lambda>c. c\<lparr>ch_Room := Some r\<rparr>) s2"
  have lt2: "ch < length (st_ch s2)" using lt1 p(3) by (simp add: same_chs_def)
  have s02: "same_chs s s2" using s01 p(3) by (rule same_chs_trans)
  have c3: "ch_at s3 x = (if x = ch then (ch_at s2 x)\<lparr>ch_Room := Some r\<rparr> else ch_at s2 x)" for x using lt2 by (simp add: s3_def at_set)
  have "(room_of s L)(ch := None, ch := Some r) = room_of s3 L" using s02 ch by (auto simp: room_of_def same_chs_def c3)
  then have "rooms_inv {} (bk_rooms b1) s3 (room_of s3 L) mem2" using set_room_inv [OF p(2) lt2] by (simp add: s3_def)
  moreover have "chs_ok L (bk_chs b1) s3" using cs s02 l(4) g(4) by (simp add: chs_ok_def c3 same_chs_def) (simp add: s3_def)
  moreover have "Bucket_ChangeRoom nrid ch (b, s) = Some (None, b1, s3)"
    using False g(1) l(1) p(1) rof by (simp add: Bucket_ChangeRoom_def s3_def)
  moreover have "room_id ch s3 = nrid" using p(4) c3 by (simp add: room_id_def) (simp add: s3_def at_set)
  ultimately show ?thesis using l(4) g(4) by (intro exI [of _ "(b1, s3)"]) (auto simp: Bucket_ok_def)
qed

lemma Bucket_ChangeRoom_spec:
  assumes ok: "Bucket_ok L (b, s)" and ch: "ch \<in> L" and na: "\<not> alone_in L ch nrid s"
  shows "\<exists>w'. Bucket_ChangeRoom nrid ch (b, s) = Some (None, w') \<and> Bucket_ok L w' \<and> room_id ch (snd w') = nrid \<and>
    bk_chs (fst w') = bk_chs b"
  using ChangeRoom_to_none [OF ok ch, of nrid] ChangeRoom_to_room [OF ok ch na] by (cases "nrid = []") blast+

text \<open>Nothing else of a channel matters to the invariant: its queue, its counters, what it watches.\<close>

definition same_links :: "Store \<Rightarrow> Store \<Rightarrow> bool" where
  "same_links s s' \<longleftrightarrow> st_rm s' = st_rm s \<and> length (st_ch s') = length (st_ch s) \<and>
     (\<forall>x. ch_Next (ch_at s' x) = ch_Next (ch_at s x) \<and> ch_Prev (ch_at s' x) = ch_Prev (ch_at s x) \<and>
        ch_Room (ch_at s' x) = ch_Room (ch_at s x) \<and> ch_Key (ch_at s' x) = ch_Key (ch_at s x))"

lemma Bucket_ok_cong:
  assumes ok: "Bucket_ok L (b, s)" and sl: "same_links s s'" and b: "bk_chs b' = bk_chs b" "bk_rooms b' = bk_rooms b"
  shows "Bucket_ok L (b', s')"
proof -
  obtain mem where inv: "rooms_inv {} (bk_rooms b) s (room_of s L) mem" and cs: "chs_ok L (bk_chs b) s"
    using ok by (auto simp: Bucket_ok_def)
  have "room_of s' L = room_of s L" using sl by (auto simp: room_of_def same_links_def)
  moreover have "rooms_inv {} (bk_rooms b) s' (room_of s L) mem" using rooms_inv_cong [OF inv] sl by (simp add: same_links_def)
  moreover have "chs_ok L (bk_chs b) s'" using chs_ok_cong [OF cs] sl by (simp add: same_links_def)
  ultimately show ?thesis using b by (auto simp: Bucket_ok_def)
qed

lemma close_old_spec:
  assumes ok: "Bucket_ok L (b, s)" and c: "close_old key (b, s) \<noteq> None"
  shows "\<exists>s'. close_old key (b, s) = Some (b, s') \<and> Bucket_ok L (b, s') \<and> st_rm s' = st_rm s \<and> length (st_ch s') = length (st_ch s) \<and>
    (\<forall>x. ch_at s' x = (if map_of (bk_chs b) key = Some x then (ch_at s x)\<lparr>ch_signal := ch_signal (ch_at s x) @ [SigFinish]\<rparr> else ch_at s x))"
proof (cases "map_of (bk_chs b) key")
  case None
  then show ?thesis using ok by (intro exI [of _ s]) (simp add: close_old_def)
next
  case (Some d)
  define s' where "s' = ch_set d (\<lambda>_. (ch_at s d)\<lparr>ch_signal := ch_signal (ch_at s d) @ [SigFinish]\<rparr>) s"
  have cs: "chs_ok L (bk_chs b) s" using ok by (simp add: Bucket_ok_def)
  have lt: "d < length (st_ch s)" using cs Some by (auto simp: chs_ok_def)
  have c': "ch_at s' x = (if d = x then (ch_at s x)\<lparr>ch_signal := ch_signal (ch_at s x) @ [SigFinish]\<rparr> else ch_at s x)" for x
    using lt by (simp add: s'_def at_set)
  have st: "st_rm s' = st_rm s" "length (st_ch s') = length (st_ch s)" by (simp_all add: s'_def ch_set_def)
  have run: "close_old key (b, s) = Some (b, s')" using Some c by (simp add: close_old_def Close_run s'_def split: if_splits)
  have "same_links s s'" using st by (simp add: same_links_def c')
  then have "Bucket_ok L (b, s')" using Bucket_ok_cong [OF ok] by simp
  then show ?thesis using run st c' Some by (intro exI [of _ s']) simp
qed

lemma Bucket_Put_spec:
  assumes ok: "Bucket_ok L (b, s)" and ch: "ch \<notin> L" "ch < length (st_ch s)" "ch_Room (ch_at s ch) = None" and room: "card L + 1 < 2 ^ 31"
    and c: "close_old (ch_Key (ch_at s ch)) (b, s) \<noteq> None"
  shows "\<exists>w'. Bucket_Put rid ch (b, s) = Some (None, w') \<and> Bucket_ok (insert ch L) w' \<and> room_id ch (snd w') = rid \<and>
    map_of (bk_chs (fst w')) = (map_of (bk_chs b))(ch_Key (ch_at s ch) \<mapsto> ch)"
proof -
  define key where "key = ch_Key (ch_at s ch)"
  obtain s0 where s0: "close_old key (b, s) = Some (b, s0)" "Bucket_ok L (b, s0)" "length (st_ch s0) = length (st_ch s)"
    "\<forall>x. ch_at s0 x = (if map_of (bk_chs b) key = Some x then (ch_at s x)\<lparr>ch_signal := ch_signal (ch_at s x) @ [SigFinish]\<rparr> else ch_at s x)"
    using close_old_spec [OF ok c [folded key_def]] by (elim exE conjE) (rule that)
  obtain mem where inv: "rooms_inv {} (bk_rooms b) s0 (room_of s0 L) mem" and cs: "chs_ok L (bk_chs b) s0"
    using s0(2) by (auto simp: Bucket_ok_def)
  have f0: "ch_Key (ch_at s0 ch) = key" "ch_Room (ch_at s0 ch) = None" "ch < length (st_ch s0)"
    using s0(3,4) ch by (simp_all add: key_def)
  define b1 where "b1 = b\<lparr>bk_chs := AList.update key ch (bk_chs b)\<rparr>"
  have L: "finite (insert ch L)" "card (insert ch L) < 2 ^ 31" using cs ch(1) room by (simp_all add: chs_ok_def)
  have cs1: "chs_ok (insert ch L) (bk_chs b1) s0"
    using cs f0 L(2) by (auto simp: chs_ok_def b1_def update_conv' distinct_update split: if_splits)
  have ip: "bk_chs (b'\<lparr>bk_ipCnts := z\<rparr>) = bk_chs b'" "bk_rooms (b'\<lparr>bk_ipCnts := z\<rparr>) = bk_rooms b'" for b' z by simp_all
  show ?thesis
  proof (cases "rid = []")
    case True
    define b3 where "b3 = b1\<lparr>bk_ipCnts := AList.update (ch_IP (ch_at s0 ch)) (ip_count (ch_IP (ch_at s0 ch)) b1 + 1) (bk_ipCnts b1)\<rparr>"
    have "room_of s0 L = room_of s0 (insert ch L)" using f0 ch(1) by (auto simp: room_of_def)
    then have "Bucket_ok (insert ch L) (b3, s0)" using inv cs1 by (auto simp: Bucket_ok_def b3_def b1_def)
    moreover have "Bucket_Put rid ch (b, s) = Some (None, b3, s0)"
      using True s0(1) f0(1) by (simp add: Bucket_Put_def key_def [symmetric] b3_def b1_def Let_def)
    ultimately show ?thesis using True f0 by (intro exI [of _ "(b3, s0)"]) (simp add: room_id_def b3_def b1_def update_conv' key_def)
  next
    case False
    have inv1: "rooms_inv {} (bk_rooms b1) s0 (room_of s0 L) mem" using inv by (simp add: b1_def)
    obtain r b2 s1 mem1 where g: "get_room rid (b1, s0) = (r, b2, s1)" "rooms_inv {r} (bk_rooms b2) s1 (room_of s0 L) mem1"
      "map_of (bk_rooms b2) rid = Some r" "bk_chs b2 = bk_chs b1" "st_ch s1 = st_ch s0"
      using get_room_spec [OF inv1 False] by (elim exE conjE) (rule that)
    define s2 where "s2 = ch_set ch (\<lambda>c. c\<lparr>ch_Room := Some r\<rparr>) s1"
    have lt1: "ch < length (st_ch s1)" using f0 g(5) by simp
    have c2: "ch_at s2 x = (if x = ch then (ch_at s0 x)\<lparr>ch_Room := Some r\<rparr> else ch_at s0 x)" for x
      using at_set(1) [OF lt1] g(5) by (simp add: s2_def ch_at_def)
    have inv2: "rooms_inv {r} (bk_rooms b2) s2 (room_of s0 L) mem1" using set_room_inv [OF g(2) lt1] by (simp add: s2_def)
    have dom: "ch < length (st_ch s2)" "room_of s0 L ch = None" "\<forall>x. room_of s0 L x \<noteq> None \<longrightarrow> x \<in> insert ch L"
      using lt1 ch(1) by (auto simp: room_of_def s2_def)
    obtain s3 mem3 where p: "Room_Put r ch s2 = (None, s3)" "rooms_inv {} (bk_rooms b2) s3 ((room_of s0 L)(ch := Some r)) mem3"
      "same_chs s2 s3" "rm_ID (rm_at s3 r) = rid"
      using enter_room [OF inv2 g(3) dom(1,2) L insertI1 dom(3)] by (elim exE conjE) (rule that)
    have rof: "(room_of s0 L)(ch := Some r) = room_of s3 (insert ch L)"
      using p(3) by (auto simp: room_of_def same_chs_def c2)
    have k3: "length (st_ch s3) = length (st_ch s0)" "\<forall>x. ch_Key (ch_at s3 x) = ch_Key (ch_at s0 x)" "ch_Room (ch_at s3 ch) = Some r"
      using p(3) g(5) by (simp_all add: same_chs_def c2) (simp add: s2_def)
    define b3 where "b3 = b2\<lparr>bk_ipCnts := AList.update (ch_IP (ch_at s2 ch)) (ip_count (ch_IP (ch_at s2 ch)) b2 + 1) (bk_ipCnts b2)\<rparr>"
    have "Bucket_ok (insert ch L) (b3, s3)"
      using p(2) rof chs_ok_cong [OF cs1 k3(1,2)] g(4) by (auto simp: Bucket_ok_def b3_def)
    moreover have "Bucket_Put rid ch (b, s) = Some (None, b3, s3)"
      using False s0(1) f0(1) g(1) p(1)
      by (simp add: Bucket_Put_def key_def [symmetric] Let_def b1_def [symmetric] s2_def [symmetric] b3_def)
    moreover have "room_id ch s3 = rid" using k3(3) p(4) by (simp add: room_id_def)
    ultimately show ?thesis using g(4) by (intro exI [of _ "(b3, s3)"]) (simp add: b3_def b1_def update_conv' key_def)
  qed
qed

section \<open>The other operations\<close>

lemma fold_push:
  assumes "distinct cs" and "\<forall>x\<in>set cs. x < length (st_ch s)"
  shows "same_links s (fold (\<lambda>ch s. if Channel_NeedPush op (ch_at s ch) then ch_set ch (\<lambda>c. snd (Channel_Push p c)) s else s) cs s) \<and>
    (\<forall>x. ch_at (fold (\<lambda>ch s. if Channel_NeedPush op (ch_at s ch) then ch_set ch (\<lambda>c. snd (Channel_Push p c)) s else s) cs s) x =
      (if x \<in> set cs \<and> Channel_NeedPush op (ch_at s x) then snd (Channel_Push p (ch_at s x)) else ch_at s x))"
  using assms
proof (induction cs arbitrary: s)
  case (Cons y cs)
  define s1 where "s1 = (if Channel_NeedPush op (ch_at s y) then ch_set y (\<lambda>c. snd (Channel_Push p c)) s else s)"
  have c1: "ch_at s1 x = (if x = y \<and> Channel_NeedPush op (ch_at s x) then snd (Channel_Push p (ch_at s x)) else ch_at s x)" for x
    using Cons.prems(2) by (cases "x = y") (simp_all add: s1_def at_set)
  have l1: "st_rm s1 = st_rm s" "length (st_ch s1) = length (st_ch s)" by (simp_all add: s1_def ch_set_def)
  have sl: "same_links s s1" using l1 by (simp add: same_links_def c1)
  define f where "f = fold (\<lambda>ch s. if Channel_NeedPush op (ch_at s ch) then ch_set ch (\<lambda>c. snd (Channel_Push p c)) s else s) cs s1"
  have ih: "same_links s1 f" "\<forall>x. ch_at f x = (if x \<in> set cs \<and> Channel_NeedPush op (ch_at s1 x) then snd (Channel_Push p (ch_at s1 x)) else ch_at s1 x)"
    unfolding f_def using Cons.IH [of s1] Cons.prems l1 by simp_all
  have "same_links s f" using sl ih(1) by (simp add: same_links_def)
  moreover have "ch_at f x = (if x \<in> set (y # cs) \<and> Channel_NeedPush op (ch_at s x) then snd (Channel_Push p (ch_at s x)) else ch_at s x)" for x
    using ih(2) Cons.prems(1) by (cases "x = y") (simp_all add: c1)
  ultimately show ?case by (simp add: s1_def [symmetric] f_def [symmetric])
qed (simp add: same_links_def)

lemma fold_snd: "fold (\<lambda>(k, c). g c) xs = fold g (map snd xs)"
  by (induction xs) auto

lemma Bucket_Broadcast_spec:
  assumes ok: "Bucket_ok L w"
  shows "fst (Bucket_Broadcast p op w) = fst w \<and> same_links (snd w) (snd (Bucket_Broadcast p op w)) \<and>
    (\<forall>x. ch_at (snd (Bucket_Broadcast p op w)) x =
      (if x \<in> set (map snd (bk_chs (fst w))) \<and> Channel_NeedPush op (ch_at (snd w) x) then snd (Channel_Push p (ch_at (snd w) x)) else ch_at (snd w) x))"
proof -
  have cs: "chs_ok L (bk_chs (fst w)) (snd w)" using ok by (simp add: Bucket_ok_def)
  have mo: "c \<in> L \<and> ch_Key (ch_at (snd w) c) = k" if "(k, c) \<in> set (bk_chs (fst w))" for k c
    using cs that by (auto simp: chs_ok_def)
  have "inj_on snd (set (bk_chs (fst w)))" using mo by (intro inj_onI) (metis prod.collapse)
  then have "distinct (map snd (bk_chs (fst w)))" using cs by (simp add: chs_ok_def distinct_map)
  moreover have "\<forall>x\<in>set (map snd (bk_chs (fst w))). x < length (st_ch (snd w))" using mo cs by (auto simp: chs_ok_def)
  ultimately show ?thesis
    using fold_push [of "map snd (bk_chs (fst w))" "snd w" op p] by (simp add: Bucket_Broadcast_def fold_snd del: set_map)
qed

lemma roomproc_spec:
  assumes ok: "Bucket_ok L w" and q: "bk_routines (fst w) ! i \<noteq> []"
  shows "\<exists>w'. roomproc i w = Some w' \<and> Bucket_ok L w'"
proof -
  obtain b s arg q where w: "w = (b, s)" and arg: "bk_routines b ! i = arg # q" using q by (cases w; cases "bk_routines (fst w) ! i") auto
  define b' where "b' = b\<lparr>bk_routines := (bk_routines b)[i := q]\<rparr>"
  show ?thesis
  proof (cases "map_of (bk_rooms b) (br_RoomID arg)")
    case None
    then have "roomproc i w = Some (b', s)" using w arg by (simp add: roomproc_def Bucket_Room_def b'_def)
    moreover have "Bucket_ok L (b', s)" using Bucket_ok_cong [of L b s s b'] ok w by (simp add: same_links_def b'_def)
    ultimately show ?thesis by blast
  next
    case (Some r)
    obtain mem where inv: "rooms_inv {} (bk_rooms b) s (room_of s L) mem" using ok w by (auto simp: Bucket_ok_def)
    obtain s' where s': "Room_Push r (br_Proto arg) s = Some s'" "st_rm s' = st_rm s" "length (st_ch s') = length (st_ch s)"
      "\<forall>x. ch_at s' x = (if x \<in> set (mem r) then snd (Channel_Push (br_Proto arg) (ch_at s x)) else ch_at s x)"
      using Room_Push_spec [OF rooms_invD(3) [OF inv Some], of "br_Proto arg"] by (elim exE conjE) (rule that)
    have "same_links s s'" using s'(2-4) by (simp add: same_links_def)
    then have "Bucket_ok L (b', s')" using Bucket_ok_cong [of L b s s' b'] ok w by (simp add: b'_def)
    moreover have "roomproc i w = Some (b', s')" using w arg Some s'(1) by (simp add: roomproc_def Bucket_Room_def b'_def)
    ultimately show ?thesis by blast
  qed
qed

lemma BroadcastRoom_fields:
  "Bucket_BroadcastRoom arg b = Some (Ret b') \<Longrightarrow> bk_chs b' = bk_chs b \<and> bk_rooms b' = bk_rooms b"
  by (auto simp: Bucket_BroadcastRoom_def Let_def split: if_splits)

text \<open>All of a room but its count of the members on all comets.\<close>

definition room_core :: "Room \<Rightarrow> string \<times> ptr \<times> bool \<times> int32" where
  "room_core m = (rm_ID m, rm_next m, rm_drop m, rm_Online m)"

lemma Room_ok_core:
  "Room_ok s r xs \<Longrightarrow> st_ch s' = st_ch s \<Longrightarrow> length (st_rm s') = length (st_rm s) \<Longrightarrow>
   room_core (rm_at s' r) = room_core (rm_at s r) \<Longrightarrow> Room_ok s' r xs"
  using dseg_cong [of xs s' s] by (simp add: Room_ok_def ch_at_def room_core_def)

lemma UpRoomsCount_fold:
  fixes m :: "string \<rightharpoonup> int32"
  defines "f \<equiv> fold (\<lambda>(rid, r). rm_set r (\<lambda>x. x\<lparr>rm_AllOnline := (case m rid of None \<Rightarrow> 0 | Some n \<Rightarrow> n)\<rparr>))"
  shows "st_ch (f rs s) = st_ch s \<and> length (st_rm (f rs s)) = length (st_rm s) \<and> (\<forall>r. room_core (rm_at (f rs s) r) = room_core (rm_at s r))"
proof (induction rs arbitrary: s)
  case (Cons x rs)
  obtain rid q where x: "x = (rid, q)" by (cases x)
  let ?s = "rm_set q (\<lambda>x. x\<lparr>rm_AllOnline := (case m rid of None \<Rightarrow> 0 | Some n \<Rightarrow> n)\<rparr>) s"
  have "room_core (rm_at ?s r) = room_core (rm_at s r)" for r
    by (cases "q < length (st_rm s)") (simp_all add: at_set room_core_def, simp add: rm_set_def rm_at_def list_update_beyond)
  moreover have "f (x # rs) s = f rs ?s" by (simp add: f_def x)
  ultimately show ?case using Cons.IH [of ?s] by (simp add: rm_set_def)
qed (simp add: f_def)

lemma UpRoomsCount_spec:
  assumes ok: "Bucket_ok L w"
  shows "Bucket_ok L (UpRoomsCount m w)"
proof -
  obtain b s where w: "w = (b, s)" by (cases w)
  obtain mem where inv: "rooms_inv {} (bk_rooms b) s (room_of s L) mem" and cs: "chs_ok L (bk_chs b) s"
    using ok w by (auto simp: Bucket_ok_def)
  define s' where "s' = snd (UpRoomsCount m w)"
  have s': "st_ch s' = st_ch s" "length (st_rm s') = length (st_rm s)" "room_core (rm_at s' r) = room_core (rm_at s r)" for r
    using UpRoomsCount_fold [of m "bk_rooms b" s] by (simp_all add: s'_def UpRoomsCount_def w)
  have id: "rm_ID (rm_at s' r) = rm_ID (rm_at s r)" "rm_drop (rm_at s' r) = rm_drop (rm_at s r)" for r
    using s'(3) [of r] by (simp_all add: room_core_def)
  have "Room_ok s' r xs" if "Room_ok s r xs" for r xs using Room_ok_core [OF that s'(1,2)] s'(3) [of r] by simp
  then have "rooms_inv {} (bk_rooms b) s' (room_of s L) mem" using inv unfolding rooms_inv_def id by blast
  moreover have "room_of s' L = room_of s L" "chs_ok L (bk_chs b) s'"
    using s'(1) cs by (auto simp: room_of_def ch_at_def chs_ok_def)
  moreover have "UpRoomsCount m w = (b, s')" by (simp add: UpRoomsCount_def w s'_def)
  ultimately show ?thesis by (auto simp: Bucket_ok_def)
qed

text \<open>The counts of the rooms are the numbers of their live channels.\<close>

lemma RoomsCount_spec:
  assumes "Bucket_ok L (b, s)"
  shows "map_of (RoomsCount (b, s)) rid =
    (if rid \<noteq> [] \<and> (\<exists>x\<in>L. room_id x s = rid) then Some (of_nat (card {x\<in>L. room_id x s = rid})) else None)"
proof -
  obtain mem where inv: "rooms_inv {} (bk_rooms b) s (room_of s L) mem" using assms by (auto simp: Bucket_ok_def)
  have pos: "0 < sint (rm_Online (rm_at s r))" if "map_of (bk_rooms b) k = Some r" for k r
  proof -
    have n: "rm_Online (rm_at s r) = of_nat (length (mem r))" "length (mem r) < 2 ^ 31" "mem r \<noteq> []"
      using rooms_invD [OF inv that] by (auto simp: Room_ok_def)
    then have "sint (of_nat (length (mem r)) :: int32) = int (length (mem r))" by (simp add: signed_of_nat signed_take_bit_int_eq_self)
    then show ?thesis using n by simp
  qed
  have "filter (\<lambda>(rid, r). 0 < sint (rm_Online (rm_at s r))) (bk_rooms b) = bk_rooms b"
    using pos inv by (auto simp: rooms_inv_def filter_id_conv)
  then have eq: "map_of (RoomsCount (b, s)) rid = map_option (\<lambda>r. rm_Online (rm_at s r)) (map_of (bk_rooms b) rid)"
    by (simp add: RoomsCount_def map_of_map)
  have in_map: "map_of (bk_rooms b) rid = Some r" if "x \<in> L" "ch_Room (ch_at s x) = Some r" "rm_ID (rm_at s r) = rid" for x r
    using inv that unfolding rooms_inv_def room_of_def by metis
  show ?thesis
  proof (cases "map_of (bk_rooms b) rid")
    case None
    then have "\<not> (rid \<noteq> [] \<and> (\<exists>x\<in>L. room_id x s = rid))" using in_map by (auto simp: room_id_def split: option.splits)
    then show ?thesis using None eq by simp
  next
    case (Some r)
    note d = rooms_invD [OF inv Some]
    have "{x\<in>L. room_id x s = rid} = set (mem r)"
      unfolding d(5) using d(1,2) Some in_map by (auto simp: room_id_def room_of_def split: option.splits if_splits)
    moreover have "distinct (mem r)" "rm_Online (rm_at s r) = of_nat (length (mem r))" using d(3) by (auto simp: Room_ok_def)
    moreover have "\<exists>x\<in>L. room_id x s = rid" using d(6) calculation(1) by (metis (mono_tags, lifting) empty_iff list.set_sel(1) mem_Collect_eq)
    ultimately show ?thesis using Some eq d(1) by (simp add: distinct_card)
  qed
qed

section \<open>Histories of a bucket\<close>

text \<open>
  Everything that happens to a bucket, one atomic operation at a time: connections come (with a fresh
  channel), change their room and go; messages are broadcast or queued for a room and taken by the room
  goroutines; the counts of all comets arrive; and meanwhile the goroutines of the connections use
  queues, rings and watch lists of their channels.
\<close>

inductive bucket_step :: "addr set \<times> bworld \<Rightarrow> addr set \<times> bworld \<Rightarrow> bool" where
  put: "ch \<notin> L \<Longrightarrow> ch < length (st_ch s) \<Longrightarrow> ch_Room (ch_at s ch) = None \<Longrightarrow> card L + 1 < 2 ^ 31 \<Longrightarrow>
        Bucket_Put rid ch (b, s) = Some (e, w') \<Longrightarrow> bucket_step (L, b, s) (insert ch L, w')"
| del: "ch \<in> L \<Longrightarrow> Bucket_Del ch w = Some w' \<Longrightarrow> bucket_step (L, w) (L - {ch}, w')"
| change: "ch \<in> L \<Longrightarrow> \<not> alone_in L ch nrid (snd w) \<Longrightarrow> Bucket_ChangeRoom nrid ch w = Some (e, w') \<Longrightarrow> bucket_step (L, w) (L, w')"
| broadcast: "bucket_step (L, w) (L, Bucket_Broadcast p op w)"
| broadcast_room: "Bucket_BroadcastRoom arg b = Some (Ret b') \<Longrightarrow> bucket_step (L, b, s) (L, b', s)"
| proc: "roomproc i w = Some w' \<Longrightarrow> bucket_step (L, w) (L, w')"
| counts: "bucket_step (L, w) (L, UpRoomsCount m w)"
| connection: "same_links s s' \<Longrightarrow> bucket_step (L, b, s) (L, b, s')"

lemma bucket_step_ok:
  assumes "bucket_step x y" and "Bucket_ok (fst x) (snd x)"
  shows "Bucket_ok (fst y) (snd y)"
  using assms
proof (induction rule: bucket_step.induct)
  case (put ch L s rid b e w')
  have "close_old (ch_Key (ch_at s ch)) (b, s) \<noteq> None" 
    using put.hyps(5) by (cases "close_old (ch_Key (ch_at s ch)) (b, s)") (simp_all add: Bucket_Put_def)
  then show ?case using Bucket_Put_spec [of L b s ch rid] put by auto
next
  case (del ch L w w')
  then show ?case using Bucket_Del_spec [of L "fst w" "snd w" ch] by auto
next
  case (change ch L nrid w e w')
  then show ?case using Bucket_ChangeRoom_spec [of L "fst w" "snd w" ch nrid] by auto
next
  case (broadcast L w p op)
  then show ?case
    using Bucket_Broadcast_spec [of L w p op] Bucket_ok_cong [of L "fst w" "snd w" "snd (Bucket_Broadcast p op w)" "fst (Bucket_Broadcast p op w)"]
    by (cases "Bucket_Broadcast p op w"; cases w) simp
next
  case (broadcast_room arg b b' L s)
  then show ?case using BroadcastRoom_fields [of arg b b'] Bucket_ok_cong [of L b s s b'] by (simp add: same_links_def)
next
  case (proc i w w' L)
  then have "bk_routines (fst w) ! i \<noteq> []" by (auto simp: roomproc_def)
  then show ?case using roomproc_spec [of L w i] proc by auto
next
  case (counts L w m)
  then show ?case by (simp add: UpRoomsCount_spec)
next
  case (connection s s' L b)
  then show ?case using Bucket_ok_cong by auto
qed

lemma NewBucket_ok: "Bucket_ok {} (NewBucket c, s)"
  by (auto simp: Bucket_ok_def NewBucket_def chs_ok_def rooms_inv_def room_of_def)

lemma reachable_ok:
  assumes "bucket_step\<^sup>*\<^sup>* ({}, NewBucket c, s) (L, w)"
  shows "Bucket_ok L w"
proof -
  have "Bucket_ok (fst y) (snd y)" if "bucket_step\<^sup>*\<^sup>* ({}, NewBucket c, s) y" for y
    using that by (induction rule: rtranclp_induct) (auto simp: NewBucket_ok intro: bucket_step_ok)
  then show ?thesis using assms by fastforce
qed

section \<open>Properties\<close>


definition demo_bucket :: Bucket where "demo_bucket = NewBucket \<lparr>cb_RoutineAmount = 1, cb_RoutineSize = 1\<rparr>"

lemma demo_put: "\<exists>b s. bucket_step ({}, demo_bucket, demo_store) ({0}, b, s) \<and> room_id 0 s = ''live''"
proof -
  have ok: "Bucket_ok {} (demo_bucket, demo_store)" by (simp add: demo_bucket_def NewBucket_ok)
  have "close_old (ch_Key (ch_at demo_store 0)) (demo_bucket, demo_store) \<noteq> None"
    by (simp add: close_old_def demo_bucket_def NewBucket_def)
  moreover have z: "0 < length (st_ch demo_store)" "ch_Room (ch_at demo_store 0) = None"
    by (simp_all add: demo_store_def ch_at_def NewChannel_def)
  ultimately obtain b s where "Bucket_Put ''live'' 0 (demo_bucket, demo_store) = Some (None, b, s)" and id: "room_id 0 s = ''live''"
    using Bucket_Put_spec [OF ok, of 0 "''live''"] by auto
  from bucket_step.put [OF _ z _ this(1)] have "bucket_step ({}, demo_bucket, demo_store) ({0}, b, s)" by simp
  then show ?thesis using id by blast
qed




text \<open>
  Online counts. In every history, \<open>RoomsCount\<close> lists exactly the rooms of the live channels, each
  with the number of live channels in it: the figures the comet reports to the logic service.
\<close>

theorem rooms_count_exact:
  assumes "bucket_step\<^sup>*\<^sup>* ({}, NewBucket c, s0) (L, b, s)"
  shows "map_of (RoomsCount (b, s)) rid =
    (if rid \<noteq> [] \<and> (\<exists>x\<in>L. room_id x s = rid) then Some (of_nat (card {x\<in>L. room_id x s = rid})) else None)"
  by (rule RoomsCount_spec [OF reachable_ok [OF assms]])

theorem rooms_count_exact_witness:
  "\<exists>b s. bucket_step\<^sup>*\<^sup>* ({}, demo_bucket, demo_store) ({0}, b, s) \<and> map_of (RoomsCount (b, s)) ''other'' =
     (if \<exists>x\<in>{0}. room_id x s = ''other'' then Some (of_nat (card {x\<in>{0}. room_id x s = ''other''})) else None)"
proof -
  obtain b s where st: "bucket_step ({}, demo_bucket, demo_store) ({0}, b, s)" using demo_put by auto
  then have r: "bucket_step\<^sup>*\<^sup>* ({}, NewBucket \<lparr>cb_RoutineAmount = 1, cb_RoutineSize = 1\<rparr>, demo_store) ({0}, b, s)"
    by (simp add: demo_bucket_def r_into_rtranclp)
  show ?thesis using rooms_count_exact [OF r, of "''other''"] st by (intro exI [of _ b] exI [of _ s]) auto
qed

text \<open>
  C28 (changing to the same room). A channel that is the only member of its room and asks for that room
  again loses it: \<open>Del\<close> drops the room and removes it from the bucket, and \<open>Put\<close> then refuses the channel
  with \<open>ErrRoomDroped\<close>, although it is still connected; its \<open>Room\<close> keeps pointing to the dropped room.
\<close>

theorem change_to_same_room:
  assumes "bucket_step\<^sup>*\<^sup>* ({}, NewBucket c, s0) (L, b, s)" and "ch \<in> L" and "alone_in L ch nrid s"
  shows "\<exists>w'. Bucket_ChangeRoom nrid ch (b, s) = Some (Some (Comet ErrRoomDroped), w') \<and> Bucket_Room nrid (fst w') = None \<and>
    ch_Room (ch_at (snd w') ch) = ch_Room (ch_at s ch) \<and> ch_Room (ch_at s ch) \<noteq> None"
proof -
  obtain mem where inv: "rooms_inv {} (bk_rooms b) s (room_of s L) mem" using reachable_ok [OF assms(1)] by (auto simp: Bucket_ok_def)
  obtain r where r: "ch_Room (ch_at s ch) = Some r" "rm_ID (rm_at s r) = nrid" "\<forall>y\<in>L. ch_Room (ch_at s y) = Some r \<longrightarrow> y = ch"
    using assms(3) by (auto simp: alone_in_def)
  have rof: "room_of s L ch = Some r" using r(1) assms(2) by (simp add: room_of_def)
  have mr: "map_of (bk_rooms b) nrid = Some r" using inv rof r(2) unfolding rooms_inv_def by blast
  note d = rooms_invD [OF inv mr]
  have "y = ch" if "room_of s L y = Some r" for y 
  proof -
    have "y \<in> L" "ch_Room (ch_at s y) = Some r" using that by (simp_all add: room_of_def split: if_splits)
    then show ?thesis using r(3) by blast
  qed
  then have one: "set (mem r) = {ch}" unfolding d(5) using rof by blast
  moreover have "distinct (mem r)" using d(3) by (simp add: Room_ok_def)
  ultimately have "length (mem r) = 1" using distinct_card [of "mem r"] by simp
  then have mem: "mem r = [ch]" using one by (cases "mem r") auto
  obtain s' where run: "Room_Del r ch s = (True, s')" and fr: "room_frame r {ch} s s'" and dr: "rm_drop (rm_at s' r)" and ok: "Room_ok s' r []"
    using Room_Del_spec [OF d(3), of ch] mem by auto
  have id: "rm_ID (rm_at s' r) = nrid" "ch_Room (ch_at s' ch) = Some r" using fr r by (simp_all add: room_frame_def)
  have cl: "Room_Close r s' = Some s'" using ok by (simp add: Room_ok_def Room_Close_def Room_Close_loop.simps)
  let ?b = "b\<lparr>bk_rooms := AList.delete nrid (bk_rooms b)\<rparr>"
  have "Bucket_ChangeRoom nrid ch (b, s) = Some (Some (Comet ErrRoomDroped), ?b, s')"
    using d(1) mr r run cl dr id
    by (simp add: Bucket_ChangeRoom_def get_room_def leave_room_def Bucket_DelRoom_def Let_def Room_Put_def)
  then show ?thesis using id r by (intro exI [of _ "(?b, s')"]) (simp add: Bucket_Room_def delete_conv')
qed

theorem change_to_same_room_witness:
  "\<exists>b s w'. bucket_step\<^sup>*\<^sup>* ({}, demo_bucket, demo_store) ({0}, b, s) \<and>
     Bucket_ChangeRoom ''live'' 0 (b, s) = Some (Some (Comet ErrRoomDroped), w')"
proof -
  obtain b s where st: "bucket_step ({}, demo_bucket, demo_store) ({0}, b, s)" and id: "room_id 0 s = ''live''"
    using demo_put by blast
  from st have r: "bucket_step\<^sup>*\<^sup>* ({}, NewBucket \<lparr>cb_RoutineAmount = 1, cb_RoutineSize = 1\<rparr>, demo_store) ({0}, b, s)"
    by (simp add: demo_bucket_def r_into_rtranclp)
  have "alone_in {0} 0 ''live'' s" using id by (auto simp: alone_in_def room_id_def split: option.splits)
  then obtain w' where "Bucket_ChangeRoom ''live'' 0 (b, s) = Some (Some (Comet ErrRoomDroped), w')"
    using change_to_same_room [OF r, of 0 "''live''"] by auto
  then show ?thesis using st by (intro exI [of _ b] exI [of _ s] exI [of _ w']) auto
qed

text \<open>
  Counting addresses: \<open>Del\<close> takes the address off the count only while the key of the channel is in the
  bucket, and then the address of the channel that holds the key now: when a client reconnects with the
  same key and the new connection ends first, the address stays listed with no channel left.
\<close>

definition ip_demo :: Store where
  "ip_demo = \<lparr>st_ch = [(NewChannel 1 2)\<lparr>ch_Key := ''k'', ch_IP := ''10.0.0.1''\<rparr>, (NewChannel 1 2)\<lparr>ch_Key := ''k'', ch_IP := ''10.0.0.2''\<rparr>], st_rm = []\<rparr>"

lemma ip_count_leaks:
  "\<exists>w1 w2 w3 w4. Bucket_Put [] 0 (demo_bucket, ip_demo) = Some (None, w1) \<and> Bucket_Put [] 1 w1 = Some (None, w2) \<and>
     Bucket_Del 1 w2 = Some w3 \<and> Bucket_Del 0 w3 = Some w4 \<and> ChannelCount (fst w4) = 0 \<and> IPCount (fst w4) = [''10.0.0.1'']"
  by (simp add: Bucket_Put_def Bucket_Del_def close_old_def demo_bucket_def NewBucket_def ip_demo_def ch_at_def ch_set_def NewChannel_def
      ip_count_def ip_dec_def leave_room_def ChannelCount_def IPCount_def Channel_Close_def chan_send_def Let_def)

end
