(* ===== verification/Free_List.thy ===== *)
theory Free_List
  imports Prelude
begin

text \<open>
  Free lists threaded through a store. The buffer pool (\<open>pkg/bytes/buffer.go\<close>) and the timer
  (\<open>pkg/time/timer.go\<close>) both hand out cells from such a list, grow it by a block when it is empty and
  push cells back: the locale \<open>freelist\<close> states that contract, and shows that a cell is never in the
  hands of two clients.
\<close>

section \<open>Linked lists in a store\<close>

text \<open>\<open>chain nxt p xs\<close>: following \<open>nxt\<close> from \<open>p\<close> visits \<open>xs\<close> and ends in nil.\<close>

fun chain :: "(addr \<Rightarrow> ptr) \<Rightarrow> ptr \<Rightarrow> addr list \<Rightarrow> bool" where
  "chain nxt p [] \<longleftrightarrow> p = None"
| "chain nxt p (x # xs) \<longleftrightarrow> p = Some x \<and> chain nxt (nxt x) xs"

lemma chain_cong: "(\<And>x. x \<in> set xs \<Longrightarrow> nxt x = nxt' x) \<Longrightarrow> chain nxt p xs = chain nxt' p xs"
  by (induction xs arbitrary: p) auto

lemma chain_block:
  "(\<And>i. i < n \<Longrightarrow> nxt (base + i) = (if i + 1 < n then Some (base + i + 1) else None)) \<Longrightarrow>
   chain nxt (if 0 < n then Some base else None) [base..<base + n]"
proof (induction n arbitrary: base)
  case (Suc n)
  have n0: "nxt base = (if 0 < n then Some (Suc base) else None)" using Suc.prems [of 0] by simp
  have "chain nxt (if 0 < n then Some (Suc base) else None) [Suc base..<Suc base + n]"
  proof (rule Suc.IH)
    fix i assume "i < n"
    then show "nxt (Suc base + i) = (if i + 1 < n then Some (Suc base + i + 1) else None)"
      using Suc.prems [of "Suc i"] by simp
  qed
  then show ?case using n0 by (simp add: upt_conv_Cons del: upt_Suc)
qed simp

section \<open>The contract\<close>

text \<open>
  \<open>inv s xs\<close>: the state is well formed and its free cells are \<open>xs\<close>, in order; \<open>alloc s\<close> is the number of
  cells that exist. A cell handed out is the first free one, or one of a new block.
\<close>

locale freelist =
  fixes inv :: "'s \<Rightarrow> addr list \<Rightarrow> bool" and alloc :: "'s \<Rightarrow> nat"
    and get :: "'s \<Rightarrow> (addr \<times> 's) outcome" and put :: "addr \<Rightarrow> 's \<Rightarrow> 's"
  assumes inv_cells: "inv s xs \<Longrightarrow> distinct xs \<and> (\<forall>x\<in>set xs. x < alloc s)"
    and get_spec: "inv s xs \<Longrightarrow> \<exists>a s' xs'. get s = Ret (a, s') \<and> inv s' xs' \<and> alloc s \<le> alloc s' \<and>
      (case xs of x # ys \<Rightarrow> a = x \<and> xs' = ys \<and> alloc s' = alloc s
       | [] \<Rightarrow> a # xs' = [alloc s..<alloc s'])"
    and put_spec: "inv s xs \<Longrightarrow> a < alloc s \<Longrightarrow> a \<notin> set xs \<Longrightarrow> inv (put a s) (a # xs) \<and> alloc (put a s) = alloc s"

text \<open>
  Clients: a sequence of calls in which every cell put back is one that was got. \<open>out\<close> are the cells
  in clients' hands.
\<close>

datatype cell_op = Get | Put addr

fun cell_run :: "('s \<Rightarrow> (addr \<times> 's) outcome) \<Rightarrow> (addr \<Rightarrow> 's \<Rightarrow> 's) \<Rightarrow> cell_op list \<Rightarrow> 's \<times> addr list \<Rightarrow> ('s \<times> addr list) outcome" where
  "cell_run get put [] (s, out) = Ret (s, out)"
| "cell_run get put (Get # ops) (s, out) = obind (get s) (\<lambda>(a, s'). cell_run get put ops (s', a # out))"
| "cell_run get put (Put a # ops) (s, out) =
     (if a \<in> set out then cell_run get put ops (put a s, remove1 a out) else cell_run get put ops (s, out))"

context freelist
begin

lemma cell_run_exclusive:
  assumes "inv s xs" and "distinct out" and "set out \<inter> set xs = {}" and "\<forall>a\<in>set out. a < alloc s"
  shows "\<exists>s' out' xs'. cell_run get put ops (s, out) = Ret (s', out') \<and> inv s' xs' \<and> distinct out' \<and>
    set out' \<inter> set xs' = {} \<and> (\<forall>a\<in>set out'. a < alloc s')"
  using assms
proof (induction ops arbitrary: s out xs)
  case (Cons op ops)
  show ?case
  proof (cases op)
    case Get
    obtain a s' xs' where g: "get s = Ret (a, s')" and s': "inv s' xs'" "alloc s \<le> alloc s'"
      and cs: "case xs of x # ys \<Rightarrow> a = x \<and> xs' = ys \<and> alloc s' = alloc s | [] \<Rightarrow> a # xs' = [alloc s..<alloc s']"
      using get_spec [OF Cons.prems(1)] by (elim exE conjE) (rule that)
    have fresh: "a \<notin> set out \<and> a \<notin> set xs' \<and> set out \<inter> set xs' = {} \<and> a < alloc s'"
    proof (cases xs)
      case Nil
      then have l: "a # xs' = [alloc s..<alloc s']" using cs by simp
      have "distinct (a # xs')" "set (a # xs') = {alloc s..<alloc s'}" by (simp_all only: l) auto
      then show ?thesis using Cons.prems(4) by fastforce
    next
      case (Cons x ys)
      then show ?thesis
        using cs inv_cells [OF Cons.prems(1)] Cons.prems(3) by auto
    qed
    have "\<forall>b\<in>set (a # out). b < alloc s'" using fresh Cons.prems(4) s'(2) by auto
    then show ?thesis
      using Get g Cons.IH [of s' xs' "a # out"] s'(1) fresh Cons.prems(2) by auto
  next
    case (Put a)
    show ?thesis
    proof (cases "a \<in> set out")
      case True
      then have "a < alloc s" "a \<notin> set xs" using Cons.prems(3,4) by auto
      note pt = put_spec [OF Cons.prems(1) this]
      have "set (remove1 a out) \<inter> set (a # xs) = {}" "\<forall>b\<in>set (remove1 a out). b < alloc (put a s)"
        using Cons.prems(2,3,4) pt by auto
      then show ?thesis
        using Put True pt Cons.IH [of "put a s" "a # xs" "remove1 a out"] Cons.prems(2) by (simp add: distinct_remove1)
    next
      case False
      then show ?thesis using Put Cons by simp
    qed
  qed
qed auto

end

end
