(* ===== verification/Bytes_Pool.thy ===== *)
theory Bytes_Pool
  imports Free_List
begin

text \<open>
  \<open>pkg/bytes/buffer.go\<close>: the pool of fixed-size buffers. The \<open>Buffer\<close> cells live in a store; \<open>grow\<close>
  allocates one arena of bytes and cuts it into the buffers of the new block, so each buffer is a
  window of its arena, and its spare capacity is the rest of the arena.
\<close>

section \<open>State and operations\<close>

record Buffer =
  buf_arena :: nat
  buf_off :: nat
  buf_next :: ptr

record Pool =
  pl_free :: ptr
  pl_max :: nat
  pl_num :: nat
  pl_size :: nat
  pl_store :: "Buffer list"
  pl_arenas :: "byte list list"

text \<open>The block of \<open>num\<close> cells at \<open>base\<close>, linked in order, cutting arena \<open>ar\<close> into windows.\<close>

definition pool_block :: "nat \<Rightarrow> nat \<Rightarrow> nat \<Rightarrow> nat \<Rightarrow> Buffer list" where
  "pool_block ar base num sz =
     map (\<lambda>i. \<lparr>buf_arena = ar, buf_off = i * sz,
               buf_next = (if i + 1 < num then Some (base + i + 1) else None)\<rparr>) [0..<num]"

definition Pool_grow :: "Pool \<Rightarrow> Pool outcome" where
  "Pool_grow p =
     (if pl_num p = 0 then Panic IndexOutOfRange
      else Ret (p\<lparr>pl_arenas := pl_arenas p @ [replicate (pl_max p) 0],
                  pl_store := pl_store p @
                    pool_block (length (pl_arenas p)) (length (pl_store p)) (pl_num p) (pl_size p),
                  pl_free := Some (length (pl_store p))\<rparr>))"

definition Pool_init :: "nat \<Rightarrow> nat \<Rightarrow> Pool \<Rightarrow> Pool outcome" where
  "Pool_init num sz p = Pool_grow (p\<lparr>pl_num := num, pl_size := sz, pl_max := num * sz\<rparr>)"

definition NewPool :: "nat \<Rightarrow> nat \<Rightarrow> Pool outcome" where
  "NewPool num sz =
     Pool_init num sz \<lparr>pl_free = None, pl_max = 0, pl_num = 0, pl_size = 0, pl_store = [], pl_arenas = []\<rparr>"

definition Pool_Get :: "Pool \<Rightarrow> (addr \<times> Pool) outcome" where
  "Pool_Get p =
     obind (if pl_free p = None then Pool_grow p else Ret p) (\<lambda>p1.
       case pl_free p1 of
         None \<Rightarrow> Panic NilDereference
       | Some b \<Rightarrow> if b < length (pl_store p1) then Ret (b, p1\<lparr>pl_free := buf_next (pl_store p1 ! b)\<rparr>)
                   else Panic NilDereference)"

definition Pool_Put :: "addr \<Rightarrow> Pool \<Rightarrow> Pool" where
  "Pool_Put b p =
     p\<lparr>pl_store := (pl_store p)[b := (pl_store p ! b)\<lparr>buf_next := pl_free p\<rparr>], pl_free := Some b\<rparr>"

text \<open>\<open>Bytes\<close>: the contents of a buffer, and the bytes that lie behind it in its arena.\<close>

definition Buffer_Bytes :: "Pool \<Rightarrow> addr \<Rightarrow> byte list" where
  "Buffer_Bytes p b =
     (let c = pl_store p ! b in seg (pl_arenas p ! buf_arena c) (buf_off c) (buf_off c + pl_size p))"

definition Buffer_spare :: "Pool \<Rightarrow> addr \<Rightarrow> byte list" where
  "Buffer_spare p b =
     (let c = pl_store p ! b in drop (buf_off c + pl_size p) (pl_arenas p ! buf_arena c))"

section \<open>Invariant\<close>

text \<open>
  Cell \<open>b\<close> is the \<open>(b mod num)\<close>-th window of arena \<open>b div num\<close>: blocks have the same size, so the windows
  of two cells never overlap.
\<close>

definition Pool_ok :: "Pool \<Rightarrow> addr list \<Rightarrow> bool" where
  "Pool_ok p xs \<longleftrightarrow> 0 < pl_num p \<and> pl_max p = pl_num p * pl_size p \<and>
     length (pl_store p) = length (pl_arenas p) * pl_num p \<and>
     (\<forall>ar\<in>set (pl_arenas p). length ar = pl_max p) \<and>
     (\<forall>b<length (pl_store p). buf_arena (pl_store p ! b) = b div pl_num p \<and>
        buf_off (pl_store p ! b) = (b mod pl_num p) * pl_size p) \<and>
     distinct xs \<and> (\<forall>b\<in>set xs. b < length (pl_store p)) \<and>
     chain (\<lambda>b. buf_next (pl_store p ! b)) (pl_free p) xs"

lemma length_pool_block [simp]: "length (pool_block ar base num sz) = num"
  by (simp add: pool_block_def)

lemma Pool_grow_ok:
  assumes ok: "Pool_ok p []"
  shows "\<exists>p'. Pool_grow p = Ret p' \<and> Pool_ok p' [length (pl_store p)..<length (pl_store p')] \<and>
    length (pl_store p') = length (pl_store p) + pl_num p"
proof -
  let ?n = "pl_num p" and ?base = "length (pl_store p)"
  let ?blk = "pool_block (length (pl_arenas p)) ?base ?n (pl_size p)"
  define p' where "p' = p\<lparr>pl_arenas := pl_arenas p @ [replicate (pl_max p) 0],
    pl_store := pl_store p @ ?blk, pl_free := Some ?base\<rparr>"
  have n: "0 < ?n" and base: "?base = length (pl_arenas p) * ?n" using ok by (auto simp: Pool_ok_def)
  have cell: "pl_store p' ! (?base + i) = \<lparr>buf_arena = length (pl_arenas p), buf_off = i * pl_size p,
      buf_next = (if i + 1 < ?n then Some (?base + i + 1) else None)\<rparr>" if "i < ?n" for i
    using that by (simp add: p'_def pool_block_def nth_append)
  have "chain (\<lambda>b. buf_next (pl_store p' ! b)) (if 0 < ?n then Some ?base else None) [?base..<?base + ?n]"
    by (rule chain_block) (simp add: cell)
  moreover have "buf_arena (pl_store p' ! b) = b div ?n \<and> buf_off (pl_store p' ! b) = (b mod ?n) * pl_size p"
    if b: "b < ?base + ?n" for b
  proof (cases "b < ?base")
    case True
    then show ?thesis using ok by (auto simp: Pool_ok_def p'_def nth_append)
  next
    case False
    then obtain i where i: "b = ?base + i" "i < ?n" using b by (metis add_less_cancel_left le_add_diff_inverse not_less)
    then show ?thesis using cell [OF i(2)] by (simp add: base)
  qed
  ultimately have "Pool_ok p' [?base..<?base + ?n]"
    using ok n by (auto simp: Pool_ok_def p'_def)
  then show ?thesis using n by (intro exI [of _ p']) (simp add: Pool_grow_def p'_def)
qed

lemma NewPool_ok:
  assumes "0 < num"
  shows "\<exists>p. NewPool num sz = Ret p \<and> Pool_ok p [0..<num] \<and> length (pl_store p) = num \<and> pl_size p = sz"
proof -
  let ?p = "\<lparr>pl_free = None, pl_max = num * sz, pl_num = num, pl_size = sz, pl_store = [], pl_arenas = []\<rparr>"
  have "Pool_ok ?p []" using assms by (simp add: Pool_ok_def)
  from Pool_grow_ok [OF this] show ?thesis
    using assms by (auto simp: NewPool_def Pool_init_def Pool_grow_def)
qed

lemma Pool_Get_ok:
  assumes ok: "Pool_ok p xs"
  shows "\<exists>a p' xs'. Pool_Get p = Ret (a, p') \<and> Pool_ok p' xs' \<and> length (pl_store p) \<le> length (pl_store p') \<and>
    (case xs of x # ys \<Rightarrow> a = x \<and> xs' = ys \<and> length (pl_store p') = length (pl_store p)
     | [] \<Rightarrow> a # xs' = [length (pl_store p)..<length (pl_store p')])"
proof -
  have pop: "\<exists>p'. Pool_Get p1 = Ret (x, p') \<and> Pool_ok p' ys \<and> length (pl_store p') = length (pl_store p1)"
    if "Pool_ok p1 (x # ys)" for p1 x ys
    using that by (auto simp: Pool_Get_def Pool_ok_def)
  show ?thesis
  proof (cases xs)
    case (Cons x ys)
    then show ?thesis using pop [of p x ys] ok by auto
  next
    case Nil
    then obtain p1 where g: "Pool_grow p = Ret p1" and ok1: "Pool_ok p1 [length (pl_store p)..<length (pl_store p1)]"
      and len: "length (pl_store p1) = length (pl_store p) + pl_num p"
      using Pool_grow_ok ok by blast
    have n: "0 < pl_num p" and f: "pl_free p = None" using ok Nil by (auto simp: Pool_ok_def)
    define ys where "ys = [Suc (length (pl_store p))..<length (pl_store p1)]"
    have l: "[length (pl_store p)..<length (pl_store p1)] = length (pl_store p) # ys"
      using n len by (simp add: upt_conv_Cons ys_def)
    have f1: "pl_free p1 \<noteq> None" using ok1 l by (auto simp: Pool_ok_def)
    then have "Pool_Get p = Pool_Get p1" using g f by (auto simp: Pool_Get_def)
    then show ?thesis
      using pop [of p1 "length (pl_store p)" ys] ok1 l Nil len by auto
  qed
qed

lemma Pool_Put_ok:
  assumes "Pool_ok p xs" and "a < length (pl_store p)" and "a \<notin> set xs"
  shows "Pool_ok (Pool_Put a p) (a # xs)"
proof -
  have "chain (\<lambda>b. buf_next ((pl_store p)[a := (pl_store p ! a)\<lparr>buf_next := pl_free p\<rparr>] ! b)) (pl_free p) xs
      = chain (\<lambda>b. buf_next (pl_store p ! b)) (pl_free p) xs"
    using assms(3) by (intro chain_cong) (metis nth_list_update_neq)
  then show ?thesis using assms by (auto simp: Pool_ok_def Pool_Put_def nth_list_update)
qed

interpretation pool: freelist Pool_ok "\<lambda>p. length (pl_store p)" Pool_Get Pool_Put
proof
  show "distinct xs \<and> (\<forall>x\<in>set xs. x < length (pl_store p))" if "Pool_ok p xs" for p xs
    using that unfolding Pool_ok_def by blast
qed (use Pool_Get_ok Pool_Put_ok in \<open>auto simp: Pool_Put_def\<close>)

section \<open>Properties\<close>

text \<open>
  C17 (exclusive buffers). Starting from a new pool, after any sequence of \<open>Get\<close> calls and of \<open>Put\<close> calls
  that return buffers in the callers' hands, no call panics, no buffer is in two hands or both free
  and in use, and the windows of two different buffers in use are disjoint parts of the arenas.
\<close>

theorem pool_exclusive:
  assumes "0 < num" and "NewPool num sz = Ret p"
  shows "\<exists>p' out free. cell_run Pool_Get Pool_Put ops (p, []) = Ret (p', out) \<and> Pool_ok p' free \<and>
    distinct out \<and> set out \<inter> set free = {} \<and>
    (\<forall>a\<in>set out. \<forall>b\<in>set out. a \<noteq> b \<longrightarrow>
       buf_arena (pl_store p' ! a) \<noteq> buf_arena (pl_store p' ! b) \<or>
       buf_off (pl_store p' ! a) + pl_size p' \<le> buf_off (pl_store p' ! b) \<or>
       buf_off (pl_store p' ! b) + pl_size p' \<le> buf_off (pl_store p' ! a))"
proof -
  have "Pool_ok p [0..<num]" using NewPool_ok [OF assms(1), of sz] assms(2) by auto
  then obtain p' out xs where run: "cell_run Pool_Get Pool_Put ops (p, []) = Ret (p', out)" and ok: "Pool_ok p' xs"
    and ex: "distinct out" "set out \<inter> set xs = {}" "\<forall>a\<in>set out. a < length (pl_store p')"
    using pool.cell_run_exclusive [of p "[0..<num]" "[]" ops] by auto
  have apart: "x * n + n \<le> y * n \<or> y * n + n \<le> x * n" if "x \<noteq> y" for x y n :: nat
    using that by (metis Suc_leI add.commute linorder_neqE_nat mult_Suc mult_le_mono1)
  have "buf_arena (pl_store p' ! a) \<noteq> buf_arena (pl_store p' ! b) \<or>
       buf_off (pl_store p' ! a) + pl_size p' \<le> buf_off (pl_store p' ! b) \<or>
       buf_off (pl_store p' ! b) + pl_size p' \<le> buf_off (pl_store p' ! a)"
    if ab: "a \<in> set out" "b \<in> set out" "a \<noteq> b" for a b
  proof -
    have lt: "a < length (pl_store p')" "b < length (pl_store p')" using ab ex(3) by auto
    have cells: "buf_arena (pl_store p' ! c) = c div pl_num p'" "buf_off (pl_store p' ! c) = (c mod pl_num p') * pl_size p'"
      if "c < length (pl_store p')" for c using ok that by (auto simp: Pool_ok_def)
    have "a div pl_num p' \<noteq> b div pl_num p' \<or> a mod pl_num p' \<noteq> b mod pl_num p'"
      using ab(3) by (metis div_mult_mod_eq)
    then show ?thesis using cells [OF lt(1)] cells [OF lt(2)] apart by metis
  qed
  then show ?thesis using run ok ex by blast
qed

theorem pool_exclusive_witness:
  "\<exists>p' out free. cell_run Pool_Get Pool_Put [Get, Get, Get, Put 0, Get]
      (case NewPool 2 8 of Ret p \<Rightarrow> p, []) = Ret (p', out) \<and> Pool_ok p' free \<and> distinct out"
proof -
  obtain p where p: "NewPool 2 8 = Ret p" using NewPool_ok [of 2 8] by auto
  show ?thesis using pool_exclusive [OF _ p, of "[Get, Get, Get, Put 0, Get]"] p by auto
qed

end
