(* ===== verification/Timer.thy ===== *)
theory Timer
  imports Free_List "HOL-Library.Multiset"
begin

text \<open>
  \<open>pkg/time/timer.go\<close>: the timer heap. \<open>TimerData\<close> cells live in a store; the free list, the heap array
  \<open>timers\<close> and the clients hold their addresses. An instant is an integer (nanoseconds), the clock's
  reading is an argument of the operations that call \<open>time.Now\<close>, and a callback is an identifier.
  \<open>tm_signal\<close> is the delay that the signal timer was last set to. The log lines under \<open>Debug\<close> change no
  state and are left out.
\<close>

section \<open>State\<close>

record TimerData =
  td_Key :: string
  td_expire :: int
  td_fn :: "nat option"
  td_index :: int
  td_next :: ptr

record Timer =
  tm_free :: ptr
  tm_timers :: "addr list"
  tm_signal :: int
  tm_num :: nat
  tm_store :: "TimerData list"

definition infiniteDuration :: int where "infiniteDuration = 2 ^ 63 - 1"

text \<open>Field reads and writes through a pointer.\<close>

definition tm_get :: "Timer \<Rightarrow> addr \<Rightarrow> TimerData" where
  "tm_get t a = tm_store t ! a"

definition tm_upd :: "addr \<Rightarrow> (TimerData \<Rightarrow> TimerData) \<Rightarrow> Timer \<Rightarrow> Timer" where
  "tm_upd a f t = t\<lparr>tm_store := (tm_store t)[a := f (tm_store t ! a)]\<rparr>"

definition TimerData_Delay :: "int \<Rightarrow> TimerData \<Rightarrow> int" where
  "TimerData_Delay now td = td_expire td - now"

section \<open>The free list\<close>

definition timer_block :: "nat \<Rightarrow> nat \<Rightarrow> TimerData list" where
  "timer_block base num =
     map (\<lambda>i. \<lparr>td_Key = [], td_expire = 0, td_fn = None, td_index = 0,
               td_next = (if i + 1 < num then Some (base + i + 1) else None)\<rparr>) [0..<num]"

definition Timer_grow :: "Timer \<Rightarrow> Timer outcome" where
  "Timer_grow t =
     (if tm_num t = 0 then Panic IndexOutOfRange
      else Ret (t\<lparr>tm_store := tm_store t @ timer_block (length (tm_store t)) (tm_num t),
                  tm_free := Some (length (tm_store t))\<rparr>))"

definition Timer_init :: "nat \<Rightarrow> Timer \<Rightarrow> Timer outcome" where
  "Timer_init num t = Timer_grow (t\<lparr>tm_signal := infiniteDuration, tm_timers := [], tm_num := num\<rparr>)"

definition NewTimer :: "nat \<Rightarrow> Timer outcome" where
  "NewTimer num =
     Timer_init num \<lparr>tm_free = None, tm_timers = [], tm_signal = 0, tm_num = 0, tm_store = []\<rparr>"

definition Timer_get :: "Timer \<Rightarrow> (addr \<times> Timer) outcome" where
  "Timer_get t =
     obind (if tm_free t = None then Timer_grow t else Ret t) (\<lambda>t1.
       case tm_free t1 of
         None \<Rightarrow> Panic NilDereference
       | Some td \<Rightarrow> if td < length (tm_store t1) then Ret (td, t1\<lparr>tm_free := td_next (tm_get t1 td)\<rparr>)
                    else Panic NilDereference)"

definition Timer_put :: "addr \<Rightarrow> Timer \<Rightarrow> Timer" where
  "Timer_put td t = (tm_upd td (\<lambda>c. c\<lparr>td_fn := None, td_next := tm_free t\<rparr>) t)\<lparr>tm_free := Some td\<rparr>"

section \<open>The heap\<close>

definition Timer_less :: "nat \<Rightarrow> nat \<Rightarrow> Timer \<Rightarrow> bool outcome" where
  "Timer_less i j t =
     (if i < length (tm_timers t) \<and> j < length (tm_timers t)
      then Ret (td_expire (tm_get t (tm_timers t ! i)) < td_expire (tm_get t (tm_timers t ! j)))
      else Panic IndexOutOfRange)"

definition Timer_swap :: "nat \<Rightarrow> nat \<Rightarrow> Timer \<Rightarrow> Timer outcome" where
  "Timer_swap i j t =
     (if i < length (tm_timers t) \<and> j < length (tm_timers t)
      then (let ts = (tm_timers t)[i := tm_timers t ! j, j := tm_timers t ! i]
            in Ret (tm_upd (ts ! j) (\<lambda>c. c\<lparr>td_index := int j\<rparr>)
                     (tm_upd (ts ! i) (\<lambda>c. c\<lparr>td_index := int i\<rparr>) (t\<lparr>tm_timers := ts\<rparr>))))
      else Panic IndexOutOfRange)"

function Timer_up :: "nat \<Rightarrow> Timer \<Rightarrow> Timer outcome" where
  "Timer_up j t =
     (let i = (j - 1) div 2 in
      if i \<ge> j then Ret t
      else obind (Timer_less j i t) (\<lambda>l.
        if \<not> l then Ret t
        else obind (Timer_swap i j t) (\<lambda>t'. Timer_up i t')))"
  by pat_completeness auto
termination by (relation "measure fst") auto

function Timer_down :: "nat \<Rightarrow> nat \<Rightarrow> Timer \<Rightarrow> Timer outcome" where
  "Timer_down i n t =
     (let j1 = 2 * i + 1 in
      if j1 \<ge> n then Ret t
      else
        obind (if j1 + 1 < n then Timer_less j1 (j1 + 1) t else Ret True) (\<lambda>l1.
          let j = (if j1 + 1 < n \<and> \<not> l1 then j1 + 1 else j1) in
          obind (Timer_less j i t) (\<lambda>l.
            if \<not> l then Ret t
            else obind (Timer_swap i j t) (\<lambda>t'. Timer_down j n t'))))"
  by pat_completeness auto
termination by (relation "measure (\<lambda>(i, n, t). n - i)") (auto split: if_splits)

declare Timer_up.simps [simp del] Timer_down.simps [simp del]

definition Timer_add :: "int \<Rightarrow> addr \<Rightarrow> Timer \<Rightarrow> Timer outcome" where
  "Timer_add now td t =
     (let t1 = tm_upd td (\<lambda>c. c\<lparr>td_index := int (length (tm_timers t))\<rparr>) t;
          t2 = t1\<lparr>tm_timers := tm_timers t1 @ [td]\<rparr>
      in obind (Timer_up (nat (td_index (tm_get t2 td))) t2) (\<lambda>t3.
           Ret (if td_index (tm_get t3 td) = 0
                then t3\<lparr>tm_signal := TimerData_Delay now (tm_get t3 td)\<rparr> else t3)))"

definition Timer_del :: "addr \<Rightarrow> Timer \<Rightarrow> Timer outcome" where
  "Timer_del td t =
     (let i = td_index (tm_get t td);
          last = int (length (tm_timers t)) - 1
      in if i < 0 \<or> i > last \<or> tm_timers t ! nat i \<noteq> td then Ret t
         else
           obind (if i \<noteq> last
                  then obind (Timer_swap (nat i) (nat last) t) (\<lambda>t1.
                         obind (Timer_down (nat i) (nat last) t1) (\<lambda>t2. Timer_up (nat i) t2))
                  else Ret t) (\<lambda>t3.
             Ret ((tm_upd (tm_timers t3 ! nat last) (\<lambda>c. c\<lparr>td_index := -1\<rparr>) t3)
                    \<lparr>tm_timers := take (nat last) (tm_timers t3)\<rparr>)))"

definition Timer_Add :: "int \<Rightarrow> int \<Rightarrow> nat option \<Rightarrow> Timer \<Rightarrow> (addr \<times> Timer) outcome" where
  "Timer_Add now expire fn t =
     obind (Timer_get t) (\<lambda>(td, t1).
       obind (Timer_add now td (tm_upd td (\<lambda>c. c\<lparr>td_expire := now + expire, td_fn := fn\<rparr>) t1))
         (\<lambda>t2. Ret (td, t2)))"

definition Timer_Del :: "addr \<Rightarrow> Timer \<Rightarrow> Timer outcome" where
  "Timer_Del td t = obind (Timer_del td t) (\<lambda>t1. Ret (Timer_put td t1))"

definition Timer_Set :: "int \<Rightarrow> addr \<Rightarrow> int \<Rightarrow> Timer \<Rightarrow> Timer outcome" where
  "Timer_Set now td expire t =
     obind (Timer_del td t) (\<lambda>t1. Timer_add now td (tm_upd td (\<lambda>c. c\<lparr>td_expire := now + expire\<rparr>) t1))"

text \<open>
  One turn of the loop of \<open>expire\<close>, under the lock: \<open>Inl d\<close> when the loop ends with delay \<open>d\<close>, \<open>Inr\<close> the
  callback to run and the timer without the cell otherwise.
\<close>

definition expire_turn :: "int \<Rightarrow> Timer \<Rightarrow> (int + (nat option \<times> Timer)) outcome" where
  "expire_turn now t =
     (case tm_timers t of
        [] \<Rightarrow> Ret (Inl infiniteDuration)
      | td # _ \<Rightarrow>
          (let d = TimerData_Delay now (tm_get t td) in
           if d > 0 then Ret (Inl d)
           else obind (Timer_del td t) (\<lambda>t1. Ret (Inr (td_fn (tm_get t td), t1)))))"

text \<open>
  The loop: turn \<open>k\<close> reads the clock as \<open>clock k\<close>; \<open>call f\<close> is what happens to the timer while the lock is
  released, which is the callback \<open>f\<close> and whatever other goroutines do. The result is the list of
  callbacks that ran and the timer.
\<close>

partial_function (option) expire_loop ::
    "(nat \<Rightarrow> int) \<Rightarrow> (nat option \<Rightarrow> Timer \<Rightarrow> Timer) \<Rightarrow> nat \<Rightarrow> nat option list \<Rightarrow> Timer \<Rightarrow> (nat option list \<times> Timer) run" where
  "expire_loop clock call k fired t =
     (case expire_turn (clock k) t of
        Panic p \<Rightarrow> Some (Panic p)
      | Ret (Inl d) \<Rightarrow> Some (Ret (fired, t\<lparr>tm_signal := d\<rparr>))
      | Ret (Inr (fn, t1)) \<Rightarrow> expire_loop clock call (k + 1) (fired @ [fn]) (call fn t1))"

definition Timer_expire ::
    "(nat \<Rightarrow> int) \<Rightarrow> (nat option \<Rightarrow> Timer \<Rightarrow> Timer) \<Rightarrow> Timer \<Rightarrow> (nat option list \<times> Timer) run" where
  "Timer_expire clock call t = expire_loop clock call 0 [] t"

section \<open>Rearranging the heap array\<close>

definition tkey :: "Timer \<Rightarrow> nat \<Rightarrow> int" where
  "tkey t i = td_expire (tm_get t (tm_timers t ! i))"

text \<open>The array holds different cells, and each knows its place.\<close>

definition index_ok :: "Timer \<Rightarrow> bool" where
  "index_ok t \<longleftrightarrow> distinct (tm_timers t) \<and> (\<forall>a\<in>set (tm_timers t). a < length (tm_store t)) \<and>
     (\<forall>i<length (tm_timers t). td_index (tm_get t (tm_timers t ! i)) = int i)"

text \<open>
  \<open>moved n t t'\<close>: \<open>t'\<close> is \<open>t\<close> with the first \<open>n\<close> places of the array permuted (and the index fields of
  the cells there adjusted).
\<close>

definition moved :: "nat \<Rightarrow> Timer \<Rightarrow> Timer \<Rightarrow> bool" where
  "moved n t t' \<longleftrightarrow> index_ok t' \<and> mset (tm_timers t') = mset (tm_timers t) \<and>
     drop n (tm_timers t') = drop n (tm_timers t) \<and> length (tm_store t') = length (tm_store t) \<and>
     (\<forall>a. (tm_get t' a)\<lparr>td_index := 0\<rparr> = (tm_get t a)\<lparr>td_index := 0\<rparr>) \<and>
     (\<forall>a. a \<notin> set (tm_timers t) \<longrightarrow> tm_get t' a = tm_get t a) \<and>
     tm_free t' = tm_free t \<and> tm_num t' = tm_num t \<and> tm_signal t' = tm_signal t"

lemma moved_refl: "index_ok t \<Longrightarrow> moved n t t"
  by (simp add: moved_def)

lemma moved_trans: "moved n t t1 \<Longrightarrow> moved n t1 t2 \<Longrightarrow> moved n t t2"
  by (auto simp: moved_def dest: mset_eq_setD)

lemma moved_length: "moved n t t' \<Longrightarrow> length (tm_timers t') = length (tm_timers t)"
  unfolding moved_def by (metis mset_eq_length)

lemma moved_set: "moved n t t' \<Longrightarrow> set (tm_timers t') = set (tm_timers t)"
  unfolding moved_def by (metis mset_eq_setD)

lemma moved_index_ok: "moved n t t' \<Longrightarrow> index_ok t'"
  by (simp add: moved_def)

lemma moved_mono:
  assumes "moved n t t'" and "n \<le> m"
  shows "moved m t t'"
proof -
  have "drop (m - n) (drop n (tm_timers t')) = drop (m - n) (drop n (tm_timers t))"
    using assms(1) by (simp add: moved_def)
  then show ?thesis using assms by (simp add: moved_def)
qed

lemma moved_fields:
  assumes "moved n t t'"
  shows "td_expire (tm_get t' a) = td_expire (tm_get t a)" and "td_fn (tm_get t' a) = td_fn (tm_get t a)"
    and "td_next (tm_get t' a) = td_next (tm_get t a)" and "td_Key (tm_get t' a) = td_Key (tm_get t a)"
proof -
  have "(tm_get t' a)\<lparr>td_index := 0\<rparr> = (tm_get t a)\<lparr>td_index := 0\<rparr>" using assms by (simp add: moved_def)
  then show "td_expire (tm_get t' a) = td_expire (tm_get t a)" "td_fn (tm_get t' a) = td_fn (tm_get t a)"
    "td_next (tm_get t' a) = td_next (tm_get t a)" "td_Key (tm_get t' a) = td_Key (tm_get t a)"
    by (cases "tm_get t' a"; cases "tm_get t a"; simp)+
qed

lemma tm_get_upd:
  "a < length (tm_store t) \<Longrightarrow> tm_get (tm_upd a f t) b = (if b = a then f (tm_get t a) else tm_get t b)"
  by (auto simp: tm_get_def tm_upd_def nth_list_update)

lemma tm_upd_simps [simp]:
  "tm_timers (tm_upd a f t) = tm_timers t" "length (tm_store (tm_upd a f t)) = length (tm_store t)"
  "tm_free (tm_upd a f t) = tm_free t" "tm_num (tm_upd a f t) = tm_num t" "tm_signal (tm_upd a f t) = tm_signal t"
  by (simp_all add: tm_upd_def)

lemma tm_get_timers [simp]: "tm_get (t\<lparr>tm_timers := ts\<rparr>) a = tm_get t a"
  by (simp add: tm_get_def)

lemma swap_spec:
  assumes ok: "index_ok t" and ij: "i \<noteq> j" "i < n" "j < n" and n: "n \<le> length (tm_timers t)"
  shows "\<exists>t'. Timer_swap i j t = Ret t' \<and> moved n t t' \<and>
    tm_timers t' = (tm_timers t)[i := tm_timers t ! j, j := tm_timers t ! i] \<and>
    (\<forall>k. tkey t' k = (if k = i then tkey t j else if k = j then tkey t i else tkey t k))"
proof -
  let ?ts = "(tm_timers t)[i := tm_timers t ! j, j := tm_timers t ! i]"
  have il: "i < length (tm_timers t)" "j < length (tm_timers t)" using ij n by simp_all
  define t0 where "t0 = t\<lparr>tm_timers := ?ts\<rparr>"
  define t1 where "t1 = tm_upd (tm_timers t ! j) (\<lambda>c. c\<lparr>td_index := int i\<rparr>) t0"
  define t' where "t' = tm_upd (tm_timers t ! i) (\<lambda>c. c\<lparr>td_index := int j\<rparr>) t1"
  have run: "Timer_swap i j t = Ret t'"
    using il ij by (simp add: Timer_swap_def Let_def t'_def t1_def t0_def)
  have lt: "tm_timers t ! i < length (tm_store t)" "tm_timers t ! j < length (tm_store t)"
    and ne: "tm_timers t ! i \<noteq> tm_timers t ! j" and di: "distinct (tm_timers t)"
    using ok il ij by (auto simp: index_ok_def nth_eq_iff_index_eq)
  have get: "tm_get t' a = (if a = tm_timers t ! i then (tm_get t a)\<lparr>td_index := int j\<rparr>
      else if a = tm_timers t ! j then (tm_get t a)\<lparr>td_index := int i\<rparr> else tm_get t a)" for a
    using lt ne by (simp add: t'_def t1_def t0_def tm_get_upd)
  have ts: "tm_timers t' = ?ts" by (simp add: t'_def t1_def t0_def)
  have ms: "mset ?ts = mset (tm_timers t)" using il by (simp add: mset_swap)
  have st: "set ?ts = set (tm_timers t)" using ms by (rule mset_eq_setD)
  have dt: "distinct ?ts" using ms di by (metis mset_eq_imp_distinct_iff)
  have ix: "td_index (tm_get t' (?ts ! k)) = int k" if "k < length (tm_timers t)" for k
    using ok that il ij di get by (auto simp: index_ok_def nth_list_update nth_eq_iff_index_eq)
  have "index_ok t'"
    using dt st ok ix by (auto simp: index_ok_def ts) (simp_all add: t'_def t1_def t0_def)
  moreover have "drop n ?ts = drop n (tm_timers t)" using ij by (simp add: drop_update_cancel)
  ultimately have "moved n t t'"
    using ms get il by (auto simp: moved_def ts) (simp_all add: t'_def t1_def t0_def)
  moreover have "tkey t' k = (if k = i then tkey t j else if k = j then tkey t i else tkey t k)" for k
    using il ij by (auto simp: tkey_def ts get nth_list_update)
  ultimately show ?thesis using run ts by blast
qed

section \<open>Heap order\<close>

text \<open>
  Over a function \<open>f\<close> from places to keys: the heap order on the first \<open>n\<close> places; the order with the
  exception of place \<open>i\<close> against its parent (\<open>hole_up\<close>); the order with the exception of place \<open>i\<close>
  against its parent and its children (\<open>hole_down\<close>).
\<close>

definition par :: "nat \<Rightarrow> nat" where "par c = (c - 1) div 2"

definition heap_on :: "nat \<Rightarrow> (nat \<Rightarrow> int) \<Rightarrow> bool" where
  "heap_on n f \<longleftrightarrow> (\<forall>c. 0 < c \<and> c < n \<longrightarrow> f (par c) \<le> f c)"

definition hole_up :: "nat \<Rightarrow> nat \<Rightarrow> (nat \<Rightarrow> int) \<Rightarrow> bool" where
  "hole_up i n f \<longleftrightarrow> (\<forall>c. 0 < c \<and> c < n \<and> c \<noteq> i \<longrightarrow> f (par c) \<le> f c) \<and>
     (\<forall>c. 0 < c \<and> c < n \<and> par c = i \<and> 0 < i \<longrightarrow> f (par i) \<le> f c)"

definition hole_down :: "nat \<Rightarrow> nat \<Rightarrow> (nat \<Rightarrow> int) \<Rightarrow> bool" where
  "hole_down i n f \<longleftrightarrow> (\<forall>c. 0 < c \<and> c < n \<and> c \<noteq> i \<and> par c \<noteq> i \<longrightarrow> f (par c) \<le> f c) \<and>
     (\<forall>c. 0 < c \<and> c < n \<and> par c = i \<and> 0 < i \<longrightarrow> f (par i) \<le> f c)"

lemma par_less: "0 < c \<Longrightarrow> par c < c"
  by (simp add: par_def)

lemma par_children: "par c = i \<and> 0 < c \<longleftrightarrow> c = 2 * i + 1 \<or> c = 2 * i + 2"
  by (auto simp: par_def)

lemma hole_up_done: "hole_up i n f \<Longrightarrow> i = 0 \<or> f (par i) \<le> f i \<Longrightarrow> heap_on n f"
  by (auto simp: hole_up_def heap_on_def)

lemma heap_hole_up:
  assumes "heap_on n f" and "i < n"
  shows "hole_up i n f"
proof -
  have "f (par i) \<le> f c" if "0 < c" "c < n" "par c = i" "0 < i" for c
    using assms that unfolding heap_on_def by (metis order_trans)
  then show ?thesis using assms by (auto simp: hole_up_def heap_on_def)
qed

lemma hole_up_swap:
  assumes h: "hole_up j n f" and j: "0 < j" "j < n" and less: "f j < f (par j)"
  shows "hole_up (par j) n (\<lambda>k. if k = par j then f j else if k = j then f (par j) else f k)"
proof -
  have i: "par j < j" using par_less j by blast
  have a: "f (par c) \<le> f c" if "0 < c" "c < n" "c \<noteq> j" for c using h that by (auto simp: hole_up_def)
  have b: "f (par j) \<le> f c" if "0 < c" "c < n" "par c = j" for c using h that j by (auto simp: hole_up_def)
  have g: "f (par (par j)) \<le> f (par j)" if "0 < par j" using a [of "par j"] that i j by simp
  show ?thesis
    unfolding hole_up_def
  proof (intro conjI allI impI; elim conjE)
    fix c assume c: "0 < c" "c < n" "c \<noteq> par j"
    have pc: "par c < c" using c par_less by blast
    show "(if par c = par j then f j else if par c = j then f (par j) else f (par c))
        \<le> (if c = par j then f j else if c = j then f (par j) else f c)"
      using c pc a [of c] b [of c] less by (auto split: if_splits)
  next
    fix c assume c: "0 < c" "c < n" "par c = par j" "0 < par j"
    have "par (par j) < par j" using c par_less by blast
    then show "(if par (par j) = par j then f j else if par (par j) = j then f (par j) else f (par (par j)))
        \<le> (if c = par j then f j else if c = j then f (par j) else f c)"
      using c a [of c] g i par_less [OF c(1)] by (auto split: if_splits)
  qed
qed

lemma hole_down_swap:
  assumes h: "hole_down i n f" and j: "0 < j" "j < n" "par j = i" and less: "f j < f i"
    and min: "\<And>c. 0 < c \<Longrightarrow> c < n \<Longrightarrow> par c = i \<Longrightarrow> f j \<le> f c"
  defines "g \<equiv> \<lambda>k. if k = i then f j else if k = j then f i else f k"
  shows "hole_down j n g" and "g (par j) \<le> g j" and "0 < i \<Longrightarrow> g (par i) \<le> g i"
proof -
  have ij: "i < j" using par_less j by blast
  have a: "f (par c) \<le> f c" if "0 < c" "c < n" "c \<noteq> i" "par c \<noteq> i" for c using h that by (auto simp: hole_down_def)
  have b: "f (par i) \<le> f c" if "0 < c" "c < n" "par c = i" "0 < i" for c using h that by (auto simp: hole_down_def)
  show "g (par j) \<le> g j" using j ij less by (simp add: g_def)
  show "0 < i \<Longrightarrow> g (par i) \<le> g i" using b [OF j] par_less [of i] ij by (auto simp: g_def)
  show "hole_down j n g"
    unfolding hole_down_def
  proof (intro conjI allI impI; elim conjE)
    fix c assume c: "0 < c" "c < n" "c \<noteq> j" "par c \<noteq> j"
    show "g (par c) \<le> g c"
    proof (cases "c = i")
      case True
      then show ?thesis using b [OF j] c par_less [of c] ij by (auto simp: g_def)
    next
      case False
      then show ?thesis using c a [of c] min [of c] by (auto simp: g_def)
    qed
  next
    fix c assume c: "0 < c" "c < n" "par c = j" "0 < j"
    have "c \<noteq> i" "c \<noteq> j" using c par_less [of c] ij by auto
    then show "g (par j) \<le> g c" using c j ij a [of c] by (auto simp: g_def)
  qed
qed

lemma hole_down_done:
  assumes "hole_down i n f" and "\<And>c. 0 < c \<Longrightarrow> c < n \<Longrightarrow> par c = i \<Longrightarrow> f i \<le> f c"
  shows "hole_up i n f"
  using assms by (auto simp: hole_up_def hole_down_def)

lemma less_eq:
  "i < length (tm_timers t) \<Longrightarrow> j < length (tm_timers t) \<Longrightarrow> Timer_less i j t = Ret (tkey t i < tkey t j)"
  by (simp add: Timer_less_def tkey_def)

text \<open>\<open>up\<close> repairs a hole above its place.\<close>

lemma up_spec:
  assumes "index_ok t" and "j < n" and "n \<le> length (tm_timers t)" and "hole_up j n (tkey t)"
  shows "\<exists>t'. Timer_up j t = Ret t' \<and> moved n t t' \<and> heap_on n (tkey t')"
  using assms
proof (induction j arbitrary: t rule: less_induct)
  case (less j)
  have un: "Timer_up j t = (if par j \<ge> j then Ret t else obind (Timer_less j (par j) t) (\<lambda>l.
        if \<not> l then Ret t else obind (Timer_swap (par j) j t) (\<lambda>t'. Timer_up (par j) t')))"
    by (simp only: Timer_up.simps [of j t] Let_def par_def)
  show ?case
  proof (cases "j = 0 \<or> tkey t (par j) \<le> tkey t j")
    case True
    have "Timer_up j t = Ret t"
      using True un less.prems par_less [of j] by (cases "j = 0") (auto simp: less_eq)
    then show ?thesis
      using hole_up_done [OF less.prems(4) True] moved_refl [OF less.prems(1)] by blast
  next
    case False
    have pj: "par j < j" using False par_less by blast
    obtain t1 where sw: "Timer_swap (par j) j t = Ret t1" and mv: "moved n t t1"
      and ks: "\<forall>k. tkey t1 k = (if k = par j then tkey t j else if k = j then tkey t (par j) else tkey t k)"
      using swap_spec [OF less.prems(1), of "par j" j n] pj less.prems(2,3) by auto
    have "tkey t1 = (\<lambda>k. if k = par j then tkey t j else if k = j then tkey t (par j) else tkey t k)"
      using ks by blast
    then have h: "hole_up (par j) n (tkey t1)"
      using hole_up_swap [OF less.prems(4) _ less.prems(2)] False by auto
    have run: "Timer_up j t = Timer_up (par j) t1"
      using un pj less.prems(2,3) False sw by (simp add: less_eq)
    obtain t' where "Timer_up (par j) t1 = Ret t'" "moved n t1 t'" "heap_on n (tkey t')"
      using less.IH [OF pj moved_index_ok [OF mv] _ _ h] pj less.prems(2,3) moved_length [OF mv] by auto
    then show ?thesis using run moved_trans [OF mv] by (intro exI [of _ t']) simp
  qed
qed

text \<open>One turn of \<open>down\<close>: it stops above both children, or changes places with the smaller one.\<close>

lemma down_step:
  assumes ok: "index_ok t" and i: "i < n" and n: "n \<le> length (tm_timers t)"
  obtains (stop) "Timer_down i n t = Ret t" "\<And>c. 0 < c \<Longrightarrow> c < n \<Longrightarrow> par c = i \<Longrightarrow> tkey t i \<le> tkey t c"
  | (swap) j t1 where "0 < j" "j < n" "par j = i" "tkey t j < tkey t i"
      "\<And>c. 0 < c \<Longrightarrow> c < n \<Longrightarrow> par c = i \<Longrightarrow> tkey t j \<le> tkey t c"
      "Timer_swap i j t = Ret t1" "moved n t t1" "Timer_down i n t = Timer_down j n t1"
      "tkey t1 = (\<lambda>k. if k = i then tkey t j else if k = j then tkey t i else tkey t k)"
proof (cases "2 * i + 1 < n")
  case False
  then have "Timer_down i n t = Ret t" by (subst Timer_down.simps) simp
  moreover have "tkey t i \<le> tkey t c" if "0 < c" "c < n" "par c = i" for c
    using that par_children [of c i] False by auto
  ultimately show ?thesis using stop by blast
next
  case True
  define j where "j = (if 2 * i + 2 < n \<and> \<not> tkey t (2 * i + 1) < tkey t (2 * i + 2) then 2 * i + 2 else 2 * i + 1)"
  have j: "0 < j" "j < n" "par j = i" "i \<noteq> j" using True par_children [of j i] by (auto simp: j_def)
  have min: "tkey t j \<le> tkey t c" if "0 < c" "c < n" "par c = i" for c
    using that par_children [of c i] by (auto simp: j_def)
  have un: "Timer_down i n t = (if tkey t j < tkey t i then obind (Timer_swap i j t) (Timer_down j n) else Ret t)"
    using True j n i by (subst Timer_down.simps) (auto simp: less_eq Let_def j_def)
  show ?thesis
  proof (cases "tkey t j < tkey t i")
    case False
    then have "tkey t i \<le> tkey t c" if "0 < c" "c < n" "par c = i" for c using min [OF that] by simp
    then show ?thesis using stop un False by simp
  next
    case True
    obtain t1 where sw: "Timer_swap i j t = Ret t1" and mv: "moved n t t1"
      and ks: "\<forall>k. tkey t1 k = (if k = i then tkey t j else if k = j then tkey t i else tkey t k)"
      using swap_spec [OF ok j(4) i j(2) n] by (elim exE conjE) (rule that)
    have fn: "tkey t1 = (\<lambda>k. if k = i then tkey t j else if k = j then tkey t i else tkey t k)"
      using ks by blast
    have "Timer_down i n t = Timer_down j n t1" using un True sw by simp
    then show ?thesis using swap [OF j(1-3) True min sw mv _ fn] by blast
  qed
qed

lemma down_heap:
  assumes "index_ok t" and "i < n" and "n \<le> length (tm_timers t)" and "hole_down i n (tkey t)"
    and "i = 0 \<or> tkey t (par i) \<le> tkey t i"
  shows "\<exists>t'. Timer_down i n t = Ret t' \<and> moved n t t' \<and> heap_on n (tkey t')"
  using assms
proof (induction "n - i" arbitrary: i t rule: less_induct)
  case less
  from less.prems(1-3) show ?case
  proof (cases rule: down_step)
    case stop
    then show ?thesis
      using hole_up_done [OF hole_down_done [OF less.prems(4)]] less.prems(5) moved_refl [OF less.prems(1)] by blast
  next
    case (swap j t1)
    have "hole_down j n (tkey t1)" and "tkey t1 (par j) \<le> tkey t1 j"
      unfolding swap(9) by (rule hole_down_swap(1,2) [OF less.prems(4) swap(1-4) swap(5)]; assumption)+
    then have h: "hole_down j n (tkey t1)" "j = 0 \<or> tkey t1 (par j) \<le> tkey t1 j" by blast+
    have "i < j" using swap(1,3) par_less by blast
    then have dec: "n - j < n - i" using swap(2) by linarith
    obtain t' where "Timer_down j n t1 = Ret t'" "moved n t1 t'" "heap_on n (tkey t')"
      using less.hyps [OF dec moved_index_ok [OF swap(7)] swap(2) _ h] swap(2) moved_length [OF swap(7)] less.prems(3)
      by auto
    then show ?thesis using swap(8) moved_trans [OF swap(7)] by (intro exI [of _ t']) simp
  qed
qed

text \<open>\<open>down\<close> leaves at most a hole above the place it started from.\<close>

lemma down_spec:
  assumes ok: "index_ok t" and i: "i < n" and n: "n \<le> length (tm_timers t)" and h: "hole_down i n (tkey t)"
  shows "\<exists>t'. Timer_down i n t = Ret t' \<and> moved n t t' \<and> hole_up i n (tkey t')"
  using ok i n
proof (cases rule: down_step)
  case stop
  then show ?thesis using hole_down_done [OF h] moved_refl [OF ok] by blast
next
  case (swap j t1)
  have "hole_down j n (tkey t1)" and "tkey t1 (par j) \<le> tkey t1 j"
    unfolding swap(9) by (rule hole_down_swap(1,2) [OF h swap(1-4) swap(5)]; assumption)+
  then have h1: "hole_down j n (tkey t1)" "j = 0 \<or> tkey t1 (par j) \<le> tkey t1 j" by blast+
  obtain t' where "Timer_down j n t1 = Ret t'" "moved n t1 t'" "heap_on n (tkey t')"
    using down_heap [OF moved_index_ok [OF swap(7)] swap(2) _ h1] moved_length [OF swap(7)] n by auto
  then show ?thesis
    using swap(8) moved_trans [OF swap(7)] heap_hole_up [OF _ i] by (intro exI [of _ t']) simp
qed

section \<open>The operations on the heap\<close>

text \<open>
  The timer is well formed with free cells \<open>xs\<close>: the array is a heap by expiry time, each cell knows
  its place, the free cells are linked and none of them is in the array.
\<close>

definition Timer_ok :: "Timer \<Rightarrow> addr list \<Rightarrow> bool" where
  "Timer_ok t xs \<longleftrightarrow> index_ok t \<and> heap_on (length (tm_timers t)) (tkey t) \<and> 0 < tm_num t \<and>
     distinct xs \<and> (\<forall>a\<in>set xs. a < length (tm_store t)) \<and> set xs \<inter> set (tm_timers t) = {} \<and>
     chain (\<lambda>a. td_next (tm_get t a)) (tm_free t) xs"

text \<open>The pending timers, as the clients see them: from cells to expiry time and callback.\<close>

definition pending :: "Timer \<Rightarrow> addr \<rightharpoonup> int \<times> nat option" where
  "pending t = (\<lambda>a. if a \<in> set (tm_timers t) then Some (td_expire (tm_get t a), td_fn (tm_get t a)) else None)"

lemma moved_pending: "moved n t t' \<Longrightarrow> pending t' = pending t"
  by (auto simp: pending_def fun_eq_iff moved_fields dest: moved_set)

text \<open>The parts of the state that \<open>add\<close>, \<open>del\<close> and their helpers leave alone.\<close>

definition same_rest :: "Timer \<Rightarrow> Timer \<Rightarrow> bool" where
  "same_rest t t' \<longleftrightarrow> length (tm_store t') = length (tm_store t) \<and> tm_free t' = tm_free t \<and> tm_num t' = tm_num t \<and>
     (\<forall>a. td_next (tm_get t' a) = td_next (tm_get t a) \<and> td_fn (tm_get t' a) = td_fn (tm_get t a) \<and>
          td_expire (tm_get t' a) = td_expire (tm_get t a))"

lemma moved_same_rest: "moved n t t' \<Longrightarrow> same_rest t t'"
proof -
  assume mv: "moved n t t'"
  have "length (tm_store t') = length (tm_store t)" "tm_free t' = tm_free t" "tm_num t' = tm_num t"
    using mv unfolding moved_def by blast+
  then show ?thesis unfolding same_rest_def using moved_fields [OF mv] by blast
qed

lemma same_rest_trans: "same_rest t t1 \<Longrightarrow> same_rest t1 t2 \<Longrightarrow> same_rest t t2"
  by (simp add: same_rest_def)

lemma same_rest_chain:
  "same_rest t t' \<Longrightarrow> chain (\<lambda>a. td_next (tm_get t' a)) (tm_free t') xs = chain (\<lambda>a. td_next (tm_get t a)) (tm_free t) xs"
  by (simp add: same_rest_def)

lemma tkey_cong:
  assumes "i < length (tm_timers t')" and "take n (tm_timers t) = take n (tm_timers t')" and "i < n"
    and "\<And>a. td_expire (tm_get t a) = td_expire (tm_get t' a)"
  shows "tkey t i = tkey t' i"
  using assms by (metis nth_take tkey_def)

lemma heap_on_cong: "(\<And>i. i < n \<Longrightarrow> f i = g i) \<Longrightarrow> heap_on n f = heap_on n g"
  unfolding heap_on_def by (metis less_trans par_less)

lemma add_spec:
  assumes ok: "index_ok t" and hp: "heap_on (length (tm_timers t)) (tkey t)"
    and td: "td < length (tm_store t)" "td \<notin> set (tm_timers t)"
  shows "\<exists>t'. Timer_add now td t = Ret t' \<and> index_ok t' \<and> heap_on (length (tm_timers t')) (tkey t') \<and>
    mset (tm_timers t') = add_mset td (mset (tm_timers t)) \<and> same_rest t t' \<and>
    (\<forall>a. a \<notin> set (tm_timers t') \<longrightarrow> tm_get t' a = tm_get t a)"
proof -
  let ?n = "length (tm_timers t)"
  define t1 where "t1 = tm_upd td (\<lambda>c. c\<lparr>td_index := int ?n\<rparr>) t"
  define t2 where "t2 = t1\<lparr>tm_timers := tm_timers t1 @ [td]\<rparr>"
  have get2: "tm_get t2 a = (if a = td then (tm_get t td)\<lparr>td_index := int ?n\<rparr> else tm_get t a)" for a
    using td by (simp add: t2_def t1_def tm_get_upd)
  have ts2: "tm_timers t2 = tm_timers t @ [td]" by (simp add: t2_def t1_def)
  have key2: "tkey t2 i = tkey t i" if "i < ?n" for i
    using that td by (auto simp: tkey_def ts2 nth_append get2)
  have ix2: "index_ok t2"
    using ok td by (auto simp: index_ok_def ts2 get2 nth_append) (auto simp: t2_def t1_def)
  have h2: "hole_up ?n (Suc ?n) (tkey t2)"
  proof -
    have "tkey t2 (par c) \<le> tkey t2 c" if "0 < c" "c < ?n" for c
      using that hp key2 [of c] key2 [of "par c"] par_less [of c] by (auto simp: heap_on_def)
    moreover have "par c \<noteq> ?n" if "0 < c" "c < Suc ?n" for c using that par_less [of c] by auto
    ultimately show ?thesis by (auto simp: hole_up_def)
  qed
  obtain t3 where up: "Timer_up ?n t2 = Ret t3" and mv: "moved (Suc ?n) t2 t3" and h3: "heap_on (Suc ?n) (tkey t3)"
    using up_spec [OF ix2 _ _ h2] by (auto simp: ts2)
  define t' where "t' = (if td_index (tm_get t3 td) = 0 then t3\<lparr>tm_signal := TimerData_Delay now (tm_get t3 td)\<rparr> else t3)"
  have eq: "tm_timers t' = tm_timers t3" "tm_get t' = tm_get t3" "tm_store t' = tm_store t3" "tm_free t' = tm_free t3" "tm_num t' = tm_num t3"
    by (auto simp: t'_def tm_get_def fun_eq_iff)
  have "td_index (tm_get t1 td) = int ?n" using td by (simp add: t1_def tm_get_upd)
  then have run: "Timer_add now td t = Ret t'"
    using up by (simp add: Timer_add_def Let_def t2_def [symmetric] t1_def [symmetric] t'_def)
  have len: "length (tm_timers t3) = Suc ?n" using moved_length [OF mv] by (simp add: ts2)
  have k: "tkey t' = tkey t3" by (simp add: tkey_def eq fun_eq_iff)
  have "index_ok t'" using moved_index_ok [OF mv] by (simp add: index_ok_def eq)
  moreover have "mset (tm_timers t') = add_mset td (mset (tm_timers t))" using mv by (simp add: eq moved_def ts2)
  moreover have "same_rest t t'"
    using moved_same_rest [OF mv] get2 by (auto simp: same_rest_def eq) (auto simp: t2_def t1_def)
  moreover have "tm_get t' a = tm_get t a" if "a \<notin> set (tm_timers t')" for a
  proof -
    have "a \<notin> set (tm_timers t2)" using that moved_set [OF mv] by (simp add: eq)
    then show ?thesis using mv get2 [of a] by (simp add: moved_def eq ts2)
  qed
  ultimately show ?thesis using run h3 len by (intro exI [of _ t']) (auto simp: eq k)
qed

lemma hole_down_replace:
  assumes "heap_on n f" and "i < m" and "m < n"
  shows "hole_down i m (\<lambda>k. if k = i then f m else if k = m then f i else f k)"
proof -
  have a: "f (par c) \<le> f c" if "0 < c" "c < m" for c using assms that by (auto simp: heap_on_def)
  have b: "f (par i) \<le> f c" if "0 < c" "c < m" "par c = i" "0 < i" for c
    using a [of c] a [of i] that assms(2) by auto
  show ?thesis
    unfolding hole_down_def
  proof (intro conjI allI impI; elim conjE)
    fix c assume c: "0 < c" "c < m" "c \<noteq> i" "par c \<noteq> i"
    then show "(if par c = i then f m else if par c = m then f i else f (par c)) \<le> (if c = i then f m else if c = m then f i else f c)"
      using a [of c] par_less [of c] by auto
  next
    fix c assume c: "0 < c" "c < m" "par c = i" "0 < i"
    then show "(if par i = i then f m else if par i = m then f i else f (par i)) \<le> (if c = i then f m else if c = m then f i else f c)"
      using b [of c] par_less [of c] par_less [of i] by auto
  qed
qed

text \<open>Taking the cell in the last place out of the array.\<close>

lemma drop_last_spec:
  assumes ok: "index_ok t" and n: "length (tm_timers t) = Suc m" and hp: "heap_on m (tkey t)"
    and td: "tm_timers t ! m = td"
  defines "t' \<equiv> (tm_upd td (\<lambda>c. c\<lparr>td_index := -1\<rparr>) t)\<lparr>tm_timers := take m (tm_timers t)\<rparr>"
  shows "index_ok t'" and "heap_on (length (tm_timers t')) (tkey t')"
    and "mset (tm_timers t') = mset (tm_timers t) - {#td#}" and "same_rest t t'"
    and "\<And>a. a \<notin> set (tm_timers t) \<Longrightarrow> tm_get t' a = tm_get t a"
proof -
  have ts: "tm_timers t = take m (tm_timers t) @ [td]"
    using n td by (metis lessI take_Suc_conv_app_nth take_all order_refl)
  have lt: "td < length (tm_store t)" using ok ts unfolding index_ok_def by (metis in_set_conv_decomp)
  have get: "tm_get t' a = (if a = td then (tm_get t td)\<lparr>td_index := -1\<rparr> else tm_get t a)" for a
    using lt by (simp add: t'_def tm_get_upd)
  have nin: "td \<notin> set (take m (tm_timers t))"
    using ok ts unfolding index_ok_def by (metis distinct.simps(2) distinct_append disjoint_iff list.set_intros(1))
  have len: "length (tm_timers t') = m" using n by (simp add: t'_def)
  have nth: "tm_timers t' ! i = tm_timers t ! i" "tm_timers t ! i \<noteq> td" if "i < m" for i
    using that n nin by (auto simp: t'_def) (metis in_set_conv_nth length_take min.absorb2 le_SucI order_refl nth_take)
  show "index_ok t'"
    using ok n nth get len unfolding index_ok_def
    by (auto simp: t'_def dest: in_set_takeD)
  show "heap_on (length (tm_timers t')) (tkey t')"
    using hp len heap_on_cong [of m "tkey t'" "tkey t"] nth get by (simp add: tkey_def)
  show "mset (tm_timers t') = mset (tm_timers t) - {#td#}"
    using ts by (metis (no_types, lifting) Timer.select_convs(2) Timer.surjective Timer.update_convs(2) add_diff_cancel_right' mset.simps(1) mset.simps(2) mset_append t'_def)
  show "same_rest t t'" using get by (auto simp: same_rest_def) (auto simp: t'_def)
  show "tm_get t' a = tm_get t a" if "a \<notin> set (tm_timers t)" for a
    using that ts get [of a] by (metis in_set_conv_decomp)
qed

lemma del_absent: "td \<notin> set (tm_timers t) \<Longrightarrow> Timer_del td t = Ret t"
proof -
  assume "td \<notin> set (tm_timers t)"
  moreover have "tm_timers t ! nat i \<in> set (tm_timers t)" if "0 \<le> i" "i \<le> int (length (tm_timers t)) - 1" for i
    using that by (intro nth_mem) linarith
  ultimately show ?thesis unfolding Timer_del_def Let_def by (metis linorder_not_less)
qed

text \<open>The last place is left alone when the rest of the array is repaired.\<close>

lemma moved_last:
  assumes "moved m t t'" and "length (tm_timers t) = Suc m"
  shows "tm_timers t' ! m = tm_timers t ! m"
proof -
  have "hd (drop m (tm_timers t')) = hd (drop m (tm_timers t))" using assms(1) by (simp add: moved_def)
  then show ?thesis using assms moved_length [OF assms(1)] by (simp add: hd_drop_conv_nth)
qed

lemma del_repair:
  assumes ok: "index_ok t" and n: "length (tm_timers t) = Suc m" and hp: "heap_on (Suc m) (tkey t)"
    and i: "i < m" and td: "tm_timers t ! i = td"
  shows "\<exists>t1 t2 t3. Timer_swap i m t = Ret t1 \<and> Timer_down i m t1 = Ret t2 \<and> Timer_up i t2 = Ret t3 \<and>
    moved (Suc m) t t3 \<and> heap_on m (tkey t3) \<and> tm_timers t3 ! m = td"
proof -
  obtain t1 where sw: "Timer_swap i m t = Ret t1" and mv1: "moved (Suc m) t t1"
    and ts: "tm_timers t1 = (tm_timers t)[i := tm_timers t ! m, m := tm_timers t ! i]"
    and ks: "\<forall>k. tkey t1 k = (if k = i then tkey t m else if k = m then tkey t i else tkey t k)"
    using swap_spec [OF ok, of i m "Suc m"] i n by auto
  have fn: "tkey t1 = (\<lambda>k. if k = i then tkey t m else if k = m then tkey t i else tkey t k)" using ks by blast
  have h1: "hole_down i m (tkey t1)" unfolding fn by (rule hole_down_replace [OF hp i]) simp
  have l1: "length (tm_timers t1) = Suc m" using moved_length [OF mv1] n by simp
  obtain t2 where dn: "Timer_down i m t1 = Ret t2" and mv2: "moved m t1 t2" and h2: "hole_up i m (tkey t2)"
    using down_spec [OF moved_index_ok [OF mv1] i _ h1] l1 by auto
  have l2: "length (tm_timers t2) = Suc m" using moved_length [OF mv2] l1 by simp
  obtain t3 where up: "Timer_up i t2 = Ret t3" and mv3: "moved m t2 t3" and h3: "heap_on m (tkey t3)"
    using up_spec [OF moved_index_ok [OF mv2] i _ h2] l2 by auto
  have "moved (Suc m) t t3"
    using moved_trans [OF mv1 moved_mono [OF moved_trans [OF mv2 mv3]]] by simp
  moreover have "tm_timers t3 ! m = td"
    using moved_last [OF mv3 l2] moved_last [OF mv2 l1] ts td i n by simp
  ultimately show ?thesis using sw dn up h3 by blast
qed

lemma del_spec:
  assumes ok: "index_ok t" and hp: "heap_on (length (tm_timers t)) (tkey t)" and td: "td \<in> set (tm_timers t)"
  shows "\<exists>t'. Timer_del td t = Ret t' \<and> index_ok t' \<and> heap_on (length (tm_timers t')) (tkey t') \<and>
    mset (tm_timers t') = mset (tm_timers t) - {#td#} \<and> same_rest t t' \<and> tm_signal t' = tm_signal t \<and>
    (\<forall>a. a \<notin> set (tm_timers t) \<longrightarrow> tm_get t' a = tm_get t a)"
proof -
  obtain m where n: "length (tm_timers t) = Suc m" using td by (cases "tm_timers t") auto
  obtain i where i: "i \<le> m" "tm_timers t ! i = td" using td n by (metis in_set_conv_nth less_Suc_eq_le)
  have ix: "td_index (tm_get t td) = int i" using ok i n by (auto simp: index_ok_def)
  have "\<exists>t3. (if i \<noteq> m then obind (Timer_swap i m t) (\<lambda>t1. obind (Timer_down i m t1) (\<lambda>t2. Timer_up i t2)) else Ret t)
      = Ret t3 \<and> moved (Suc m) t t3 \<and> heap_on m (tkey t3) \<and> tm_timers t3 ! m = td"
  proof (cases "i = m")
    case True
    then show ?thesis using ok hp n i moved_refl [OF ok] by (auto simp: heap_on_def)
  next
    case False
    then show ?thesis using del_repair [OF ok n _ _ i(2)] hp n i(1) by auto
  qed
  then obtain t3 where run: "(if i \<noteq> m then obind (Timer_swap i m t) (\<lambda>t1. obind (Timer_down i m t1) (\<lambda>t2. Timer_up i t2)) else Ret t) = Ret t3"
    and mv: "moved (Suc m) t t3" and h3: "heap_on m (tkey t3)" and last: "tm_timers t3 ! m = td" by blast
  define t' where "t' = (tm_upd td (\<lambda>c. c\<lparr>td_index := -1\<rparr>) t3)\<lparr>tm_timers := take m (tm_timers t3)\<rparr>"
  have "int (length (tm_timers t)) - 1 = int m" using n by simp
  moreover have "\<not> (int i < 0 \<or> int i > int m \<or> tm_timers t ! i \<noteq> td)" using i by simp
  ultimately have "Timer_del td t = obind (Ret t3) (\<lambda>t3. Ret ((tm_upd (tm_timers t3 ! m) (\<lambda>c. c\<lparr>td_index := -1\<rparr>) t3)
      \<lparr>tm_timers := take m (tm_timers t3)\<rparr>))"
    unfolding Timer_del_def Let_def ix by (simp only: nat_int of_nat_eq_iff if_False run)
  then have "Timer_del td t = Ret t'" by (simp add: last t'_def)
  moreover note dl = drop_last_spec [OF moved_index_ok [OF mv] _ h3 last, folded t'_def]
  have l3: "length (tm_timers t3) = Suc m" using moved_length [OF mv] n by simp
  moreover have "mset (tm_timers t3) = mset (tm_timers t)" "tm_signal t3 = tm_signal t"
    "\<And>a. a \<notin> set (tm_timers t) \<Longrightarrow> tm_get t3 a = tm_get t a" using mv unfolding moved_def by blast+
  moreover have "tm_signal t' = tm_signal t3" by (simp add: t'_def)
  moreover have "same_rest t t'" using same_rest_trans [OF moved_same_rest [OF mv] dl(4) [OF l3]] .
  ultimately show ?thesis
    using dl(1,2,3,5) [OF l3] moved_set [OF mv] by (intro exI [of _ t']) simp
qed

text \<open>The cell at the root is due first.\<close>

lemma heap_root:
  assumes "heap_on n f" and "i < n"
  shows "f 0 \<le> f i"
  using assms(2)
proof (induction i rule: less_induct)
  case (less i)
  show ?case
  proof (cases "i = 0")
    case False
    then have "f 0 \<le> f (par i)" "f (par i) \<le> f i"
      using less assms(1) par_less [of i] by (auto simp: heap_on_def)
    then show ?thesis by simp
  qed simp
qed

section \<open>The client's operations\<close>

lemma Timer_okD:
  assumes "Timer_ok t xs"
  shows "index_ok t" and "heap_on (length (tm_timers t)) (tkey t)" and "0 < tm_num t" and "distinct xs"
    and "\<forall>a\<in>set xs. a < length (tm_store t)" and "set xs \<inter> set (tm_timers t) = {}"
    and "chain (\<lambda>a. td_next (tm_get t a)) (tm_free t) xs"
  using assms unfolding Timer_ok_def by blast+

lemma Timer_ok_same_rest:
  assumes ok: "Timer_ok t xs" and sr: "same_rest t t'" and ix: "index_ok t'"
    and hp: "heap_on (length (tm_timers t')) (tkey t')" and dj: "set xs \<inter> set (tm_timers t') = {}"
  shows "Timer_ok t' xs"
  unfolding Timer_ok_def
  using Timer_okD [OF ok] same_rest_chain [OF sr, of xs] ix hp dj sr by (simp add: same_rest_def)

text \<open>Writing the expiry time and the callback of a cell outside the array.\<close>

lemma upd_outside:
  assumes ok: "Timer_ok t xs" and td: "td < length (tm_store t)" "td \<notin> set (tm_timers t)"
    and f: "\<And>c. td_next (f c) = td_next c"
  shows "Timer_ok (tm_upd td f t) xs"
proof -
  have get: "tm_get (tm_upd td f t) a = (if a = td then f (tm_get t td) else tm_get t a)" for a
    using td by (simp add: tm_get_upd)
  have nth: "tm_timers t ! i \<noteq> td" if "i < length (tm_timers t)" for i using td that by (metis nth_mem)
  have "index_ok (tm_upd td f t)"
    using Timer_okD(1) [OF ok] get nth by (auto simp: index_ok_def)
  moreover have "heap_on (length (tm_timers t)) (tkey (tm_upd td f t))"
    using Timer_okD(2) [OF ok] heap_on_cong [of "length (tm_timers t)" "tkey (tm_upd td f t)" "tkey t"] get nth
    by (simp add: tkey_def)
  moreover have "chain (\<lambda>a. td_next (tm_get (tm_upd td f t) a)) (tm_free t) xs"
    using Timer_okD(7) [OF ok] chain_cong [of xs "\<lambda>a. td_next (tm_get (tm_upd td f t) a)" "\<lambda>a. td_next (tm_get t a)"] get f
    by simp
  ultimately show ?thesis unfolding Timer_ok_def using Timer_okD [OF ok] by simp
qed

lemma length_timer_block [simp]: "length (timer_block base n) = n"
  by (simp add: timer_block_def)

lemma Timer_grow_ok:
  assumes ok: "Timer_ok t []"
  shows "\<exists>t'. Timer_grow t = Ret t' \<and> Timer_ok t' [length (tm_store t)..<length (tm_store t')] \<and>
    length (tm_store t') = length (tm_store t) + tm_num t \<and> tm_timers t' = tm_timers t \<and> tm_num t' = tm_num t \<and>
    (\<forall>a<length (tm_store t). tm_get t' a = tm_get t a)"
proof -
  let ?base = "length (tm_store t)" and ?n = "tm_num t"
  define t' where "t' = t\<lparr>tm_store := tm_store t @ timer_block ?base ?n, tm_free := Some ?base\<rparr>"
  have n: "0 < ?n" using Timer_okD(3) [OF ok] .
  have old: "tm_get t' a = tm_get t a" if "a < ?base" for a using that by (simp add: t'_def tm_get_def nth_append)
  have cell: "td_next (tm_get t' (?base + i)) = (if i + 1 < ?n then Some (?base + i + 1) else None)" if "i < ?n" for i
    using that by (simp add: t'_def tm_get_def timer_block_def nth_append)
  have ch: "chain (\<lambda>a. td_next (tm_get t' a)) (if 0 < ?n then Some ?base else None) [?base..<?base + ?n]"
    by (rule chain_block) (simp add: cell)
  have lt: "a < ?base" if "a \<in> set (tm_timers t)" for a using Timer_okD(1) [OF ok] that by (simp add: index_ok_def)
  have oldn: "tm_get t' (tm_timers t ! i) = tm_get t (tm_timers t ! i)" if "i < length (tm_timers t)" for i
    using old lt that by simp
  have "index_ok t'" using Timer_okD(1) [OF ok] oldn unfolding index_ok_def
    by (auto simp: t'_def)
  moreover have "heap_on (length (tm_timers t')) (tkey t')"
    using Timer_okD(2) [OF ok] heap_on_cong [of "length (tm_timers t)" "tkey t'" "tkey t"] oldn
    by (simp add: tkey_def t'_def)
  moreover have "tm_timers t' = tm_timers t" "length (tm_store t') = ?base + ?n" "tm_free t' = Some ?base" "tm_num t' = ?n"
    by (simp_all add: t'_def)
  moreover have "set [?base..<?base + ?n] \<inter> set (tm_timers t) = {}" using lt by (fastforce dest: leD)
  ultimately have "Timer_ok t' [?base..<?base + ?n]"
    unfolding Timer_ok_def using ch n by simp
  then show ?thesis using n old by (intro exI [of _ t']) (simp add: Timer_grow_def t'_def)
qed

lemma Timer_get_ok:
  assumes ok: "Timer_ok t xs"
  shows "\<exists>td t' xs'. Timer_get t = Ret (td, t') \<and> Timer_ok t' xs' \<and> td < length (tm_store t') \<and>
    td \<notin> set xs' \<and> td \<notin> set (tm_timers t') \<and> tm_timers t' = tm_timers t \<and>
    length (tm_store t) \<le> length (tm_store t') \<and> (\<forall>a<length (tm_store t). tm_get t' a = tm_get t a) \<and>
    (case xs of x # ys \<Rightarrow> td = x \<and> xs' = ys \<and> length (tm_store t') = length (tm_store t)
     | [] \<Rightarrow> td # xs' = [length (tm_store t)..<length (tm_store t')])"
proof -
  have pop: "\<exists>t'. Timer_get t1 = Ret (x, t') \<and> Timer_ok t' ys \<and> x < length (tm_store t') \<and> x \<notin> set ys \<and>
      x \<notin> set (tm_timers t') \<and> tm_timers t' = tm_timers t1 \<and> tm_store t' = tm_store t1"
    if ok1: "Timer_ok t1 (x # ys)" for t1 x ys
  proof -
    define t' where "t' = t1\<lparr>tm_free := td_next (tm_get t1 x)\<rparr>"
    have eq: "tm_timers t' = tm_timers t1" "tm_store t' = tm_store t1" "tm_get t' = tm_get t1"
      by (auto simp: t'_def tm_get_def fun_eq_iff)
    have k: "tkey t' = tkey t1" by (simp add: tkey_def eq fun_eq_iff)
    have fr: "tm_free t' = td_next (tm_get t1 x)" "tm_num t' = tm_num t1" by (simp_all add: t'_def)
    have "Timer_ok t' ys"
      using Timer_okD [OF ok1] unfolding Timer_ok_def index_ok_def eq k fr by simp
    moreover have "Timer_get t1 = Ret (x, t')"
      using Timer_okD [OF ok1] by (simp add: Timer_get_def t'_def)
    ultimately show ?thesis using Timer_okD [OF ok1] eq by (intro exI [of _ t']) simp
  qed
  show ?thesis
  proof (cases xs)
    case (Cons x ys)
    then show ?thesis using pop [of t x ys] ok by (auto simp: tm_get_def)
  next
    case Nil
    obtain t1 where g: "Timer_grow t = Ret t1" and ok1: "Timer_ok t1 [length (tm_store t)..<length (tm_store t1)]"
      and len: "length (tm_store t1) = length (tm_store t) + tm_num t" and ts: "tm_timers t1 = tm_timers t"
      and old: "\<forall>a<length (tm_store t). tm_get t1 a = tm_get t a"
      using Timer_grow_ok ok Nil by blast
    have f: "tm_free t = None" and n: "0 < tm_num t" using Timer_okD [OF ok] Nil by auto
    define ys where "ys = [Suc (length (tm_store t))..<length (tm_store t1)]"
    have l: "[length (tm_store t)..<length (tm_store t1)] = length (tm_store t) # ys"
      using n len by (simp add: upt_conv_Cons ys_def)
    have "tm_free t1 \<noteq> None" using Timer_okD(7) [OF ok1] l by auto
    then have "Timer_get t = Timer_get t1" using g f by (auto simp: Timer_get_def)
    then show ?thesis
      using pop [of t1 "length (tm_store t)" ys] ok1 l Nil len ts old by (auto simp: tm_get_def)
  qed
qed

lemma Add_spec:
  assumes ok: "Timer_ok t xs"
  shows "\<exists>td t' xs'. Timer_Add now d fn t = Ret (td, t') \<and> Timer_ok t' xs' \<and> td \<notin> set xs' \<and>
    pending t td = None \<and> pending t' = (pending t)(td \<mapsto> (now + d, fn)) \<and>
    length (tm_store t) \<le> length (tm_store t') \<and>
    (case xs of x # ys \<Rightarrow> td = x \<and> xs' = ys \<and> length (tm_store t') = length (tm_store t)
     | [] \<Rightarrow> td # xs' = [length (tm_store t)..<length (tm_store t')])"
proof -
  obtain td t1 xs' where g: "Timer_get t = Ret (td, t1)" "Timer_ok t1 xs'" "td < length (tm_store t1)"
      "td \<notin> set xs'" "td \<notin> set (tm_timers t1)" "tm_timers t1 = tm_timers t"
    and len: "length (tm_store t) \<le> length (tm_store t1)" and old: "\<forall>a<length (tm_store t). tm_get t1 a = tm_get t a"
    and cs: "case xs of x # ys \<Rightarrow> td = x \<and> xs' = ys \<and> length (tm_store t1) = length (tm_store t)
     | [] \<Rightarrow> td # xs' = [length (tm_store t)..<length (tm_store t1)]"
    using Timer_get_ok [OF ok] by (elim exE conjE) (rule that)
  define t2 where "t2 = tm_upd td (\<lambda>c. c\<lparr>td_expire := now + d, td_fn := fn\<rparr>) t1"
  have ok2: "Timer_ok t2 xs'" unfolding t2_def by (rule upd_outside [OF g(2,3,5)]) simp
  have ts2: "tm_timers t2 = tm_timers t" "length (tm_store t2) = length (tm_store t1)" using g(6) by (simp_all add: t2_def)
  obtain t' where add: "Timer_add now td t2 = Ret t'" "index_ok t'" "heap_on (length (tm_timers t')) (tkey t')"
      "mset (tm_timers t') = add_mset td (mset (tm_timers t2))" and sr: "same_rest t2 t'"
    using add_spec [OF Timer_okD(1,2) [OF ok2], of td now] g(3,5,6) ts2 by auto
  have st: "set (tm_timers t') = insert td (set (tm_timers t))"
    using arg_cong [OF add(4), of set_mset] ts2 by simp
  have ok': "Timer_ok t' xs'"
    using Timer_ok_same_rest [OF ok2 sr add(2,3)] st Timer_okD(6) [OF ok2] g(4) ts2 by auto
  have lt: "a < length (tm_store t)" if "a \<in> set (tm_timers t)" for a
    using Timer_okD(1) [OF ok] that by (simp add: index_ok_def)
  have "tm_get t2 a = (if a = td then (tm_get t1 td)\<lparr>td_expire := now + d, td_fn := fn\<rparr> else tm_get t1 a)" for a
    using g(3) by (simp add: t2_def tm_get_upd)
  then have fld: "td_expire (tm_get t' a) = (if a = td then now + d else td_expire (tm_get t1 a))"
      "td_fn (tm_get t' a) = (if a = td then fn else td_fn (tm_get t1 a))" for a
    using sr by (auto simp: same_rest_def)
  have "pending t' = (pending t)(td \<mapsto> (now + d, fn))"
    using st fld old lt by (auto simp: pending_def fun_eq_iff)
  moreover have "pending t td = None" using g(5,6) by (simp add: pending_def)
  moreover have "length (tm_store t') = length (tm_store t1)" using sr ts2 by (simp add: same_rest_def)
  moreover have "Timer_Add now d fn t = Ret (td, t')" using g(1) add(1) by (simp add: Timer_Add_def t2_def)
  ultimately show ?thesis
    using ok' g(4) len cs by (intro exI [of _ td] exI [of _ t'] exI [of _ xs']) (cases xs; simp)
qed

text \<open>\<open>del\<close> in terms of the pending timers; it does nothing to a cell that is not pending.\<close>

lemma del_ok:
  assumes ok: "Timer_ok t xs"
  shows "\<exists>t'. Timer_del td t = Ret t' \<and> Timer_ok t' xs \<and> td \<notin> set (tm_timers t') \<and> same_rest t t' \<and>
    set (tm_timers t') = set (tm_timers t) - {td} \<and> pending t' = (pending t)(td := None) \<and>
    length (tm_timers t') = (if td \<in> set (tm_timers t) then length (tm_timers t) - 1 else length (tm_timers t))"
proof (cases "td \<in> set (tm_timers t)")
  case False
  then show ?thesis
    using ok by (intro exI [of _ t]) (simp add: del_absent pending_def fun_eq_iff same_rest_def)
next
  case True
  obtain t' where del: "Timer_del td t = Ret t'" "index_ok t'" "heap_on (length (tm_timers t')) (tkey t')"
      "mset (tm_timers t') = mset (tm_timers t) - {#td#}" "same_rest t t'"
    using del_spec [OF Timer_okD(1,2) [OF ok] True] by (elim exE conjE) (rule that)
  have ms: "mset (tm_timers t') = mset (remove1 td (tm_timers t))" using del(4) by simp
  have st: "set (tm_timers t') = set (tm_timers t) - {td}"
    using mset_eq_setD [OF ms] Timer_okD(1) [OF ok] by (simp add: index_ok_def)
  have "Timer_ok t' xs"
    using Timer_ok_same_rest [OF ok del(5,2,3)] st Timer_okD(6) [OF ok] by auto
  moreover have "pending t' = (pending t)(td := None)"
    using st del(5) by (auto simp: pending_def fun_eq_iff same_rest_def)
  moreover have "length (tm_timers t') = length (tm_timers t) - 1"
    using mset_eq_length [OF ms] True by (simp add: length_remove1)
  ultimately show ?thesis using del(1,5) st True by (intro exI [of _ t']) simp
qed

lemma Set_spec:
  assumes ok: "Timer_ok t xs" and td: "td < length (tm_store t)" "td \<notin> set xs"
  shows "\<exists>t'. Timer_Set now td d t = Ret t' \<and> Timer_ok t' xs \<and> length (tm_store t') = length (tm_store t) \<and>
    pending t' = (pending t)(td \<mapsto> (now + d, td_fn (tm_get t td)))"
proof -
  obtain t1 where d1: "Timer_del td t = Ret t1" "Timer_ok t1 xs" "td \<notin> set (tm_timers t1)" "same_rest t t1"
      "set (tm_timers t1) = set (tm_timers t) - {td}"
    using del_ok [OF ok, of td] by (elim exE conjE) (rule that)
  have lt1: "td < length (tm_store t1)" using td d1(4) by (simp add: same_rest_def)
  define t2 where "t2 = tm_upd td (\<lambda>c. c\<lparr>td_expire := now + d\<rparr>) t1"
  have ok2: "Timer_ok t2 xs" unfolding t2_def by (rule upd_outside [OF d1(2) lt1 d1(3)]) simp
  have ts2: "tm_timers t2 = tm_timers t1" "length (tm_store t2) = length (tm_store t1)" by (simp_all add: t2_def)
  obtain t' where add: "Timer_add now td t2 = Ret t'" "index_ok t'" "heap_on (length (tm_timers t')) (tkey t')"
      "mset (tm_timers t') = add_mset td (mset (tm_timers t2))" and sr: "same_rest t2 t'"
    using add_spec [OF Timer_okD(1,2) [OF ok2], of td now] lt1 d1(3) ts2 by auto
  have st: "set (tm_timers t') = insert td (set (tm_timers t) - {td})"
    using arg_cong [OF add(4), of set_mset] ts2 d1(5) by simp
  have "Timer_ok t' xs"
    using Timer_ok_same_rest [OF ok2 sr add(2,3)] st Timer_okD(6) [OF ok] td(2) by auto
  moreover have "tm_get t2 a = (if a = td then (tm_get t1 td)\<lparr>td_expire := now + d\<rparr> else tm_get t1 a)" for a
    using lt1 by (simp add: t2_def tm_get_upd)
  then have "td_expire (tm_get t' a) = (if a = td then now + d else td_expire (tm_get t a))"
      "td_fn (tm_get t' a) = td_fn (tm_get t a)" for a
    using sr d1(4) by (auto simp: same_rest_def)
  then have "pending t' = (pending t)(td \<mapsto> (now + d, td_fn (tm_get t td)))"
    using st by (auto simp: pending_def fun_eq_iff)
  moreover have "length (tm_store t') = length (tm_store t)"
    using sr d1(4) ts2 by (simp add: same_rest_def)
  moreover have "Timer_Set now td d t = Ret t'" using d1(1) add(1) by (simp add: Timer_Set_def t2_def)
  ultimately show ?thesis by blast
qed

lemma Del_spec:
  assumes ok: "Timer_ok t xs" and td: "td < length (tm_store t)" "td \<notin> set xs"
  shows "\<exists>t'. Timer_Del td t = Ret t' \<and> Timer_ok t' (td # xs) \<and> length (tm_store t') = length (tm_store t) \<and>
    pending t' = (pending t)(td := None)"
proof -
  obtain t1 where d1: "Timer_del td t = Ret t1" "Timer_ok t1 xs" "td \<notin> set (tm_timers t1)" "same_rest t t1"
      "pending t1 = (pending t)(td := None)"
    using del_ok [OF ok, of td] by (elim exE conjE) (rule that)
  have lt1: "td < length (tm_store t1)" and len: "length (tm_store t1) = length (tm_store t)"
    using td d1(4) by (simp_all add: same_rest_def)
  define t' where "t' = Timer_put td t1"
  have get: "tm_get t' a = (if a = td then (tm_get t1 td)\<lparr>td_fn := None, td_next := tm_free t1\<rparr> else tm_get t1 a)" for a
    using lt1 tm_get_upd [OF lt1, of "\<lambda>c. c\<lparr>td_fn := None, td_next := tm_free t1\<rparr>" a]
    by (simp add: t'_def Timer_put_def tm_get_def)
  have eq: "tm_timers t' = tm_timers t1" "length (tm_store t') = length (tm_store t1)" "tm_num t' = tm_num t1" "tm_free t' = Some td"
    by (simp_all add: t'_def Timer_put_def)
  have nth: "tm_timers t1 ! i \<noteq> td" if "i < length (tm_timers t1)" for i using d1(3) that by (metis nth_mem)
  have "index_ok t'" using Timer_okD(1) [OF d1(2)] get nth by (simp add: index_ok_def eq)
  moreover have "heap_on (length (tm_timers t')) (tkey t')"
    using Timer_okD(2) [OF d1(2)] heap_on_cong [of "length (tm_timers t1)" "tkey t'" "tkey t1"] get nth
    by (simp add: tkey_def eq)
  moreover have "chain (\<lambda>a. td_next (tm_get t' a)) (tm_free t') (td # xs)"
  proof -
    have "td_next (tm_get t' a) = td_next (tm_get t1 a)" if "a \<in> set xs" for a using get td(2) that by auto
    then show ?thesis
      using Timer_okD(7) [OF d1(2)] chain_cong [of xs "\<lambda>a. td_next (tm_get t' a)" "\<lambda>a. td_next (tm_get t1 a)"] get [of td]
      by (simp add: eq)
  qed
  ultimately have "Timer_ok t' (td # xs)"
    unfolding Timer_ok_def using Timer_okD [OF d1(2)] td(2) lt1 d1(3) eq by simp
  moreover have "pending t' = pending t1"
    using d1(3) get by (auto simp: pending_def fun_eq_iff eq)
  moreover have "Timer_Del td t = Ret t'" using d1(1) by (simp add: Timer_Del_def t'_def)
  ultimately show ?thesis using d1(5) eq(2) len by (intro exI [of _ t']) simp
qed

section \<open>Expiry\<close>

lemma pending_root:
  assumes ok: "Timer_ok t xs" and ts: "tm_timers t = td # ts" and a: "pending t a = Some (e, f)"
  shows "td_expire (tm_get t td) \<le> e"
proof -
  obtain i where "i < length (tm_timers t)" "a = tm_timers t ! i" "e = td_expire (tm_get t a)"
    using a by (auto simp: pending_def in_set_conv_nth split: if_splits)
  then show ?thesis
    using heap_root [OF Timer_okD(2) [OF ok], of i] ts by (simp add: tkey_def)
qed

text \<open>
  One turn: the loop ends when no pending timer is due, with the delay to the earliest one; otherwise
  the earliest timer is taken off, and the others stay.
\<close>

lemma expire_turn_spec:
  assumes ok: "Timer_ok t xs"
  shows "(\<exists>d. expire_turn now t = Ret (Inl d) \<and> 0 < d \<and>
      (\<forall>a e f. pending t a = Some (e, f) \<longrightarrow> now + d \<le> e) \<and>
      (tm_timers t = [] \<longrightarrow> d = infiniteDuration) \<and>
      (tm_timers t \<noteq> [] \<longrightarrow> (\<exists>a f. pending t a = Some (now + d, f)))) \<or>
    (\<exists>td e f t'. expire_turn now t = Ret (Inr (f, t')) \<and> Timer_ok t' xs \<and> pending t td = Some (e, f) \<and> e \<le> now \<and>
      (\<forall>a e' f'. pending t a = Some (e', f') \<longrightarrow> e \<le> e') \<and> pending t' = (pending t)(td := None) \<and>
      length (tm_timers t') < length (tm_timers t))"
proof (cases "tm_timers t")
  case Nil
  then show ?thesis by (auto simp: expire_turn_def pending_def infiniteDuration_def)
next
  case (Cons td ts)
  have p: "pending t td = Some (td_expire (tm_get t td), td_fn (tm_get t td))" using Cons by (simp add: pending_def)
  show ?thesis
  proof (cases "td_expire (tm_get t td) - now > 0")
    case True
    have "expire_turn now t = Ret (Inl (td_expire (tm_get t td) - now))"
      using Cons True by (simp add: expire_turn_def TimerData_Delay_def)
    then show ?thesis
      using True p pending_root [OF ok Cons] Cons by (intro disjI1 exI [of _ "td_expire (tm_get t td) - now"]) auto
  next
    case False
    obtain t' where d1: "Timer_del td t = Ret t'" "Timer_ok t' xs" "pending t' = (pending t)(td := None)"
        "length (tm_timers t') = (if td \<in> set (tm_timers t) then length (tm_timers t) - 1 else length (tm_timers t))"
      using del_ok [OF ok, of td] by (elim exE conjE) (rule that)
    have "expire_turn now t = Ret (Inr (td_fn (tm_get t td), t'))"
      using Cons False d1(1) by (simp add: expire_turn_def TimerData_Delay_def)
    then show ?thesis
      using False d1 p pending_root [OF ok Cons] Cons
      by (intro disjI2 exI [of _ td] exI [of _ "td_expire (tm_get t td)"] exI [of _ "td_fn (tm_get t td)"] exI [of _ t']) auto
  qed
qed

lemma expire_loop_turn:
  "expire_turn (clock k) t = Ret (Inl d) \<Longrightarrow> expire_loop clock call k fired t = Some (Ret (fired, t\<lparr>tm_signal := d\<rparr>))"
  "expire_turn (clock k) t = Ret (Inr (f, t1)) \<Longrightarrow>
   expire_loop clock call k fired t = expire_loop clock call (k + 1) (fired @ [f]) (call f t1)"
  by (subst expire_loop.simps, simp)+

lemma signal_ok: "Timer_ok (t\<lparr>tm_signal := d\<rparr>) xs = Timer_ok t xs" "pending (t\<lparr>tm_signal := d\<rparr>) = pending t"
proof -
  have get: "tm_get (t\<lparr>tm_signal := d\<rparr>) = tm_get t" by (simp add: tm_get_def fun_eq_iff)
  have "tkey (t\<lparr>tm_signal := d\<rparr>) = tkey t" by (simp add: tkey_def fun_eq_iff get)
  then show "Timer_ok (t\<lparr>tm_signal := d\<rparr>) xs = Timer_ok t xs" "pending (t\<lparr>tm_signal := d\<rparr>) = pending t"
    unfolding Timer_ok_def index_ok_def pending_def get by simp_all
qed

text \<open>
  Without interference and with a clock that stands still, the loop ends after every due timer, and
  only they, ran, in the order of their expiry times.
\<close>

lemma expire_loop_quiet:
  assumes "Timer_ok t xs"
  shows "\<exists>tds t'. expire_loop (\<lambda>_. now) (\<lambda>_ t. t) k fired t
      = Some (Ret (fired @ map (\<lambda>a. snd (the (pending t a))) tds, t')) \<and> Timer_ok t' xs \<and> distinct tds \<and>
    set tds = {a. \<exists>e f. pending t a = Some (e, f) \<and> e \<le> now} \<and> sorted (map (\<lambda>a. fst (the (pending t a))) tds) \<and>
    pending t' = (\<lambda>a. if a \<in> set tds then None else pending t a)"
  using assms
proof (induction "length (tm_timers t)" arbitrary: t k fired rule: less_induct)
  case less
  from expire_turn_spec [OF less.prems, of now] show ?case
  proof (elim disjE exE conjE)
    fix d
    assume tn: "expire_turn now t = Ret (Inl d)" and d: "0 < d" and all: "\<forall>a e f. pending t a = Some (e, f) \<longrightarrow> now + d \<le> e"
    have "{a. \<exists>e f. pending t a = Some (e, f) \<and> e \<le> now} = {}" using all d by fastforce
    then show ?thesis
      using expire_loop_turn(1) [of "\<lambda>_. now", OF tn] less.prems
      by (intro exI [of _ "[]"] exI [of _ "t\<lparr>tm_signal := d\<rparr>"]) (simp add: signal_ok)
  next
    fix td e f t1
    assume tn: "expire_turn now t = Ret (Inr (f, t1))" and ok1: "Timer_ok t1 xs" and td: "pending t td = Some (e, f)"
      and due: "e \<le> now" and min: "\<forall>a e' f'. pending t a = Some (e', f') \<longrightarrow> e \<le> e'"
      and p1: "pending t1 = (pending t)(td := None)" and dec: "length (tm_timers t1) < length (tm_timers t)"
    obtain tds t' where ih: "expire_loop (\<lambda>_. now) (\<lambda>_ t. t) (k + 1) (fired @ [f]) t1
        = Some (Ret ((fired @ [f]) @ map (\<lambda>a. snd (the (pending t1 a))) tds, t'))" "Timer_ok t' xs" "distinct tds"
      and st: "set tds = {a. \<exists>e f. pending t1 a = Some (e, f) \<and> e \<le> now}"
      and so: "sorted (map (\<lambda>a. fst (the (pending t1 a))) tds)"
      and p': "pending t' = (\<lambda>a. if a \<in> set tds then None else pending t1 a)"
      using less.hyps [OF dec ok1, of "k + 1" "fired @ [f]"] by (elim exE conjE) (rule that)
    have nin: "td \<notin> set tds" using st p1 by simp
    have fn: "map (\<lambda>a. snd (the (pending t1 a))) tds = map (\<lambda>a. snd (the (pending t a))) tds"
      "map (\<lambda>a. fst (the (pending t1 a))) tds = map (\<lambda>a. fst (the (pending t a))) tds"
      using nin p1 by (auto intro!: map_cong)
    have "set (td # tds) = {a. \<exists>e f. pending t a = Some (e, f) \<and> e \<le> now}" using st p1 td due by auto
    moreover have "sorted (map (\<lambda>a. fst (the (pending t a))) (td # tds))"
    proof -
      have "e \<le> fst (the (pending t a))" if a: "a \<in> set tds" for a
      proof -
        obtain e' f' where "pending t1 a = Some (e', f')" using a st by blast
        then have "pending t a = Some (e', f')" using p1 by (auto split: if_splits)
        then show ?thesis using min by auto
      qed
      then show ?thesis using so td unfolding fn(2) by simp
    qed
    moreover have "pending t' = (\<lambda>a. if a \<in> set (td # tds) then None else pending t a)"
      using p' p1 by (auto simp: fun_eq_iff)
    ultimately show ?thesis
      using expire_loop_turn(2) [of "\<lambda>_. now" k t f t1 "\<lambda>_ t. t" fired] tn ih nin fn td
      by (intro exI [of _ "td # tds"] exI [of _ t']) simp
  qed
qed

text \<open>
  With interference: whatever runs while the lock is released, as long as it keeps the timer well
  formed, a loop that returns leaves a timer none of whose entries is due at the clock's last
  reading, and the signal set to the delay of the earliest one.
\<close>

lemma expire_loop_interference:
  assumes keep: "\<forall>f t xs. Timer_ok t xs \<longrightarrow> (\<exists>xs'. Timer_ok (call f t) xs')"
    and run: "expire_loop clock call k fired t = Some (Ret (fs, t'))" and ok: "Timer_ok t xs"
  shows "\<exists>n xs'. k \<le> n \<and> Timer_ok t' xs' \<and> (\<forall>a e f. pending t' a = Some (e, f) \<longrightarrow> clock n + tm_signal t' \<le> e) \<and>
    0 < tm_signal t'"
proof -
  let ?P = "\<lambda>clock call k fired t r. \<forall>fs t' xs. r = Ret (fs, t') \<longrightarrow> (\<forall>f t xs. Timer_ok t xs \<longrightarrow> (\<exists>xs'. Timer_ok (call f t) xs')) \<longrightarrow>
    Timer_ok t xs \<longrightarrow> (\<exists>n\<ge>k. \<exists>xs'. Timer_ok t' xs' \<and> (\<forall>a e f. pending t' a = Some (e, f) \<longrightarrow> clock n + tm_signal t' \<le> e) \<and>
      0 < tm_signal t')"
  have "?P clock call k fired t (Ret (fs, t'))"
  proof (rule expire_loop.raw_induct [where P = ?P, OF _ run], intro allI impI)
    fix loop and clock :: "nat \<Rightarrow> int" and call k fired t r fs t' xs
    assume IH: "\<And>clock call k fired t r. loop clock call k fired t = Some r \<Longrightarrow> ?P clock call k fired t r"
      and body: "(case expire_turn (clock k) t of Ret (Inl d) \<Rightarrow> Some (Ret (fired, t\<lparr>tm_signal := d\<rparr>))
        | Ret (Inr (fn, t1)) \<Rightarrow> loop clock call (k + 1) (fired @ [fn]) (call fn t1) | Panic p \<Rightarrow> Some (Panic p)) = Some r"
      and r: "r = Ret (fs, t')" and keep: "\<forall>f t xs. Timer_ok t xs \<longrightarrow> (\<exists>xs'. Timer_ok (call f t) xs')" and ok: "Timer_ok t xs"
    from expire_turn_spec [OF ok, of "clock k"]
    show "\<exists>n\<ge>k. \<exists>xs'. Timer_ok t' xs' \<and> (\<forall>a e f. pending t' a = Some (e, f) \<longrightarrow> clock n + tm_signal t' \<le> e) \<and> 0 < tm_signal t'"
    proof (elim disjE exE conjE)
      fix d assume "expire_turn (clock k) t = Ret (Inl d)" "0 < d" "\<forall>a e f. pending t a = Some (e, f) \<longrightarrow> clock k + d \<le> e"
      moreover from this have "t' = t\<lparr>tm_signal := d\<rparr>" using body r by simp
      ultimately show ?thesis
        using ok by (intro exI [of _ k] conjI exI [of _ xs]) (simp_all add: signal_ok)
    next
      fix td e f t1
      assume tn: "expire_turn (clock k) t = Ret (Inr (f, t1))" and ok1: "Timer_ok t1 xs"
      obtain xs1 where ok2: "Timer_ok (call f t1) xs1" using keep ok1 by blast
      have eq: "loop clock call (k + 1) (fired @ [f]) (call f t1) = Some r" using body tn by simp
      have "\<exists>n\<ge>k + 1. \<exists>xs'. Timer_ok t' xs' \<and> (\<forall>a e f. pending t' a = Some (e, f) \<longrightarrow> clock n + tm_signal t' \<le> e) \<and> 0 < tm_signal t'"
        by (rule IH [OF eq, rule_format, OF r _ ok2]) (rule keep [rule_format])
      then show ?thesis by (elim exE conjE) (intro exI conjI; assumption?; simp)
    qed
  qed
  then show ?thesis using keep ok by blast
qed

lemma NewTimer_ok:
  assumes "0 < num"
  shows "\<exists>t. NewTimer num = Ret t \<and> Timer_ok t [0..<num] \<and> length (tm_store t) = num \<and> pending t = Map.empty"
proof -
  let ?t = "\<lparr>tm_free = None, tm_timers = [], tm_signal = infiniteDuration, tm_num = num, tm_store = []\<rparr>"
  have "Timer_ok ?t []" using assms by (simp add: Timer_ok_def index_ok_def heap_on_def)
  from Timer_grow_ok [OF this] show ?thesis
    by (auto simp: NewTimer_def Timer_init_def pending_def)
qed

text \<open>
  The cells of the timer as a free list: \<open>Add\<close> gets a cell, \<open>Del\<close> gives one back.
\<close>

definition Timer_Del_state :: "addr \<Rightarrow> Timer \<Rightarrow> Timer" where
  "Timer_Del_state td t = (case Timer_Del td t of Ret t' \<Rightarrow> t' | Panic _ \<Rightarrow> t)"

interpretation timer: freelist Timer_ok "\<lambda>t. length (tm_store t)" "Timer_Add now d fn" Timer_Del_state
  for now d fn
proof
  show "distinct xs \<and> (\<forall>x\<in>set xs. x < length (tm_store t))" if "Timer_ok t xs" for t xs
    using Timer_okD(4,5) [OF that] by blast
  show "\<exists>a t' xs'. Timer_Add now d fn t = Ret (a, t') \<and> Timer_ok t' xs' \<and> length (tm_store t) \<le> length (tm_store t') \<and>
      (case xs of x # ys \<Rightarrow> a = x \<and> xs' = ys \<and> length (tm_store t') = length (tm_store t)
       | [] \<Rightarrow> a # xs' = [length (tm_store t)..<length (tm_store t')])" if "Timer_ok t xs" for t xs
    using Add_spec [OF that, of now d fn] by (elim exE conjE) (intro exI conjI; assumption)
  show "Timer_ok (Timer_Del_state a t) (a # xs) \<and> length (tm_store (Timer_Del_state a t)) = length (tm_store t)"
    if "Timer_ok t xs" "a < length (tm_store t)" "a \<notin> set xs" for t xs a
    using Del_spec [OF that] by (auto simp: Timer_Del_state_def)
qed

section \<open>Properties\<close>

text \<open>
  Add. \<open>Add\<close> never panics; it returns a cell that was not pending and was not in a client's hands
  (it was free, or is new), makes it pending with the given delay and callback, leaves every other
  pending timer as it was, and keeps the heap, the back indices and the free list well formed.
\<close>

theorem Timer_Add_refines:
  assumes "Timer_ok t xs"
  shows "\<exists>td t' xs'. Timer_Add now d fn t = Ret (td, t') \<and> Timer_ok t' xs' \<and>
    (td \<in> set xs \<or> length (tm_store t) \<le> td) \<and> td \<notin> set xs' \<and> pending t td = None \<and>
    pending t' = (pending t)(td \<mapsto> (now + d, fn))"
proof -
  obtain td t' xs' where a: "Timer_Add now d fn t = Ret (td, t')" "Timer_ok t' xs'" "td \<notin> set xs'" "pending t td = None"
    "pending t' = (pending t)(td \<mapsto> (now + d, fn))"
    and cs: "case xs of x # ys \<Rightarrow> td = x \<and> xs' = ys \<and> length (tm_store t') = length (tm_store t)
     | [] \<Rightarrow> td # xs' = [length (tm_store t)..<length (tm_store t')]"
    using Add_spec [OF assms, of now d fn] by (elim exE conjE) (rule that)
  have "td \<in> set xs \<or> length (tm_store t) \<le> td"
  proof (cases xs)
    case Nil
    then have "td \<in> set [length (tm_store t)..<length (tm_store t')]" using cs by (metis list.set_intros(1) list.simps(4))
    then show ?thesis by simp
  qed (use cs in auto)
  then show ?thesis using a by blast
qed

theorem Timer_Add_refines_witness:
  "\<exists>t td t'. NewTimer 2 = Ret t \<and> Timer_Add 100 5 (Some 7) t = Ret (td, t') \<and> pending t' = [td \<mapsto> (105, Some 7)]"
proof -
  obtain t where t: "NewTimer 2 = Ret t" "Timer_ok t [0..<2]" "pending t = Map.empty" using NewTimer_ok [of 2] by auto
  then show ?thesis using Timer_Add_refines [OF t(2), of 100 5 "Some 7"] by auto
qed

text \<open>
  C24 (Set and Del). On a cell in the client's hands (not free), pending or already expired: \<open>Set\<close> makes
  it pending with the new delay and the old callback, \<open>Del\<close> makes it free and not pending; nothing
  else changes, and neither panics.
\<close>

theorem Timer_Set_Del_refine:
  assumes "Timer_ok t xs" and "td < length (tm_store t)" and "td \<notin> set xs"
  shows "(\<exists>t'. Timer_Set now td d t = Ret t' \<and> Timer_ok t' xs \<and>
      pending t' = (pending t)(td \<mapsto> (now + d, td_fn (tm_get t td)))) \<and>
    (\<exists>t'. Timer_Del td t = Ret t' \<and> Timer_ok t' (td # xs) \<and> pending t' = (pending t)(td := None))"
  using Set_spec [OF assms, of now d] Del_spec [OF assms] by blast

theorem Timer_Set_Del_refine_witness:
  "\<exists>t td t1 t2. NewTimer 2 = Ret t \<and> Timer_Add 100 5 (Some 7) t = Ret (td, t1) \<and>
    Timer_Del td t1 = Ret t2 \<and> pending t2 = Map.empty"
proof -
  obtain t where t: "NewTimer 2 = Ret t" "Timer_ok t [0..<2]" "pending t = Map.empty" "length (tm_store t) = 2"
    using NewTimer_ok [of 2] by auto
  have l: "[0..<2] = [0, Suc 0]" by (simp add: upt_rec)
  obtain td t1 xs' where t1: "Timer_Add 100 5 (Some 7) t = Ret (td, t1)" "Timer_ok t1 xs'" "td \<notin> set xs'"
    "pending t1 = [td \<mapsto> (105, Some 7)]" "td = 0" "length (tm_store t1) = 2"
    using Add_spec [OF t(2) [unfolded l], of 100 5 "Some 7"] t(3,4) by auto
  then obtain t2 where "Timer_Del td t1 = Ret t2" "pending t2 = Map.empty"
    using Timer_Set_Del_refine [OF t1(2) _ t1(3)] by auto
  then show ?thesis using t(1) t1(1) by blast
qed

text \<open>
  C10 (what expires, and in which order). When nothing else touches the timer while callbacks run and
  the clock reads \<open>now\<close>, \<open>expire\<close> returns after running the callback of every pending timer due at \<open>now\<close>
  exactly once, in the order of their expiry times, and of no other; the other timers stay pending.
\<close>

theorem expire_in_order:
  assumes "Timer_ok t xs"
  shows "\<exists>tds t'. Timer_expire (\<lambda>_. now) (\<lambda>_ t. t) t = Some (Ret (map (\<lambda>a. snd (the (pending t a))) tds, t')) \<and>
    Timer_ok t' xs \<and> distinct tds \<and> set tds = {a. \<exists>e f. pending t a = Some (e, f) \<and> e \<le> now} \<and>
    sorted (map (\<lambda>a. fst (the (pending t a))) tds) \<and>
    pending t' = (\<lambda>a. if a \<in> set tds then None else pending t a)"
  using expire_loop_quiet [OF assms, of now 0 "[]"] by (simp add: Timer_expire_def)

theorem expire_in_order_witness:
  "\<exists>t tds t'. NewTimer 2 = Ret t \<and> Timer_expire (\<lambda>_. 9) (\<lambda>_ t. t) t = Some (Ret (map (\<lambda>a. snd (the (pending t a))) tds, t')) \<and>
    set tds = {}"
proof -
  obtain t where t: "NewTimer 2 = Ret t" "Timer_ok t [0..<2]" "pending t = Map.empty" using NewTimer_ok [of 2] by auto
  then show ?thesis using expire_in_order [OF t(2), of 9] by auto
qed



end
