(* ===== verification/Round.thy ===== *)
theory Round
  imports Bytes_Pool Timer
begin

text \<open>
  \<open>internal/comet/round.go\<close>: several pools and timers, of which connections take one in turn, so that they
  do not share one lock. A pointer into one of the arrays is its index.
\<close>

record RoundOptions =
  ro_Timer :: nat
  ro_TimerSize :: nat
  ro_Reader :: nat
  ro_ReadBuf :: nat
  ro_ReadBufSize :: nat
  ro_Writer :: nat
  ro_WriteBuf :: nat
  ro_WriteBufSize :: nat

record Round =
  rn_readers :: "Pool list"
  rn_writers :: "Pool list"
  rn_timers :: "Timer list"
  rn_options :: RoundOptions

text \<open>The loops that initialise each element of an array.\<close>

fun init_all :: "nat \<Rightarrow> 'a outcome \<Rightarrow> 'a list outcome" where
  "init_all 0 x = Ret []"
| "init_all (Suc n) x = obind x (\<lambda>a. obind (init_all n x) (\<lambda>as. Ret (a # as)))"

definition NewRound :: "RoundOptions \<Rightarrow> Round outcome" where
  "NewRound opt =
     obind (init_all (ro_Reader opt) (NewPool (ro_ReadBuf opt) (ro_ReadBufSize opt))) (\<lambda>readers.
     obind (init_all (ro_Writer opt) (NewPool (ro_WriteBuf opt) (ro_WriteBufSize opt))) (\<lambda>writers.
     obind (init_all (ro_Timer opt) (NewTimer (ro_TimerSize opt))) (\<lambda>timers.
       Ret \<lparr>rn_readers = readers, rn_writers = writers, rn_timers = timers, rn_options = opt\<rparr>)))"

definition pick :: "nat \<Rightarrow> nat \<Rightarrow> nat \<Rightarrow> nat outcome" where
  "pick rn m len =
     (if m = 0 then Panic DivideByZero else if rn mod m < len then Ret (rn mod m) else Panic IndexOutOfRange)"

definition Round_Timer :: "nat \<Rightarrow> Round \<Rightarrow> nat outcome" where
  "Round_Timer rn r = pick rn (ro_Timer (rn_options r)) (length (rn_timers r))"

definition Round_Reader :: "nat \<Rightarrow> Round \<Rightarrow> nat outcome" where
  "Round_Reader rn r = pick rn (ro_Reader (rn_options r)) (length (rn_readers r))"

definition Round_Writer :: "nat \<Rightarrow> Round \<Rightarrow> nat outcome" where
  "Round_Writer rn r = pick rn (ro_Writer (rn_options r)) (length (rn_writers r))"

lemma init_all_Ret: "x = Ret a \<Longrightarrow> init_all n x = Ret (replicate n a)"
  by (induction n) simp_all

lemma pick_ok: "0 < m \<Longrightarrow> pick rn m m = Ret (rn mod m)"
  by (simp add: pick_def)

lemma NewRound_ok:
  assumes "0 < ro_ReadBuf opt" and "0 < ro_WriteBuf opt" and "0 < ro_TimerSize opt"
  shows "\<exists>p q t. NewPool (ro_ReadBuf opt) (ro_ReadBufSize opt) = Ret p \<and> NewPool (ro_WriteBuf opt) (ro_WriteBufSize opt) = Ret q \<and>
    NewTimer (ro_TimerSize opt) = Ret t \<and>
    NewRound opt = Ret \<lparr>rn_readers = replicate (ro_Reader opt) p, rn_writers = replicate (ro_Writer opt) q,
      rn_timers = replicate (ro_Timer opt) t, rn_options = opt\<rparr>"
proof -
  obtain p where p: "NewPool (ro_ReadBuf opt) (ro_ReadBufSize opt) = Ret p" using NewPool_ok [OF assms(1)] by auto
  obtain q where q: "NewPool (ro_WriteBuf opt) (ro_WriteBufSize opt) = Ret q" using NewPool_ok [OF assms(2)] by auto
  obtain t where t: "NewTimer (ro_TimerSize opt) = Ret t" using NewTimer_ok [OF assms(3)] by auto
  show ?thesis using p q t by (simp add: NewRound_def init_all_Ret)
qed

text \<open>
  Round robin stays in range: A round made from positive sizes panics neither when it is made nor
  when a connection asks for its timer and pools, whatever the number of the connection; and connections
  whose numbers differ by the number of timers share one.
\<close>

lemma round_in_range:
  assumes "0 < ro_ReadBuf opt" and "0 < ro_WriteBuf opt" and "0 < ro_TimerSize opt"
    and "0 < ro_Reader opt" and "0 < ro_Writer opt" and "0 < ro_Timer opt"
  shows "\<exists>r. NewRound opt = Ret r \<and>
    (\<exists>i<length (rn_timers r). Round_Timer n r = Ret i \<and> Round_Timer (n + ro_Timer opt) r = Ret i) \<and>
    (\<exists>i<length (rn_readers r). Round_Reader n r = Ret i) \<and> (\<exists>i<length (rn_writers r). Round_Writer n r = Ret i)"
proof -
  obtain p q t where r: "NewRound opt = Ret \<lparr>rn_readers = replicate (ro_Reader opt) p, rn_writers = replicate (ro_Writer opt) q,
      rn_timers = replicate (ro_Timer opt) t, rn_options = opt\<rparr>"
    using NewRound_ok [OF assms(1-3)] by auto
  show ?thesis unfolding r using assms(4-6)
    by (simp add: Round_Timer_def Round_Reader_def Round_Writer_def pick_ok)
qed

lemma round_in_range_witness:
  "\<exists>r. NewRound \<lparr>ro_Timer = 2, ro_TimerSize = 8, ro_Reader = 2, ro_ReadBuf = 4, ro_ReadBufSize = 16, ro_Writer = 2,
      ro_WriteBuf = 4, ro_WriteBufSize = 16\<rparr> = Ret r \<and> (\<exists>i<length (rn_timers r). Round_Timer 5 r = Ret i)"
  using round_in_range [of "\<lparr>ro_Timer = 2, ro_TimerSize = 8, ro_Reader = 2, ro_ReadBuf = 4, ro_ReadBufSize = 16, ro_Writer = 2,
      ro_WriteBuf = 4, ro_WriteBufSize = 16\<rparr>" 5] by auto

end
