(* ===== verification/Go_Strings.thy ===== *)
theory Go_Strings
  imports Prelude
begin

text \<open>
  \<open>pkg/strings/ints.go\<close>: lists of integers as text. The functions of Go's \<open>strings\<close> and \<open>strconv\<close> packages
  that this code and the other components call are modelled first; a string is a list of bytes, as
  characters. The buffer of \<open>JoinInt32s\<close> comes from a pool and is empty there, so it is local here.
\<close>

section \<open>The standard library\<close>

text \<open>Strings and byte slices convert byte by byte.\<close>

definition go_bytes :: "string \<Rightarrow> byte list" where "go_bytes s = map of_char s"
definition go_string :: "byte list \<Rightarrow> string" where "go_string b = map (\<lambda>x. char_of (unat x)) b"

lemma char_word [simp]: "char_of (unat (of_char c :: byte)) = c"
proof -
  have "unat (of_char c :: byte) = of_char c mod 256"
    using unat_of_nat [of "of_char c", where 'a = 8] by (simp only: of_nat_of_char take_bit_eq_mod) simp
  then show ?thesis by simp
qed

lemma word_char [simp]: "of_char (char_of (unat x) :: char) = (x :: byte)"
proof -
  have "(of_char (char_of (unat x) :: char) :: byte) = of_nat (of_char (char_of (unat x) :: char))" by (simp only: of_nat_of_char)
  also have "\<dots> = of_nat (unat x mod 256)" by (simp only: of_char_of)
  finally show ?thesis using unsigned_less [of x, where 'a = nat] by simp
qed

lemma go_string_bytes [simp]: "go_string (go_bytes s) = s"
  by (induction s) (simp_all add: go_string_def go_bytes_def)

lemma go_bytes_string [simp]: "go_bytes (go_string b) = b"
  by (induction b) (simp_all add: go_string_def go_bytes_def)

lemma go_bytes_append [simp]: "go_bytes (s @ t) = go_bytes s @ go_bytes t" by (simp add: go_bytes_def)

lemma go_string_append [simp]: "go_string (s @ t) = go_string s @ go_string t" by (simp add: go_string_def)

text \<open>\<open>strings.Index\<close>: the first position of a substring, \<open>None\<close> for -1.\<close>

fun strings_Index :: "string \<Rightarrow> string \<Rightarrow> nat option" where
  "strings_Index s p =
     (if take (length p) s = p then Some 0
      else case s of [] \<Rightarrow> None | _ # t \<Rightarrow> map_option Suc (strings_Index t p))"

declare strings_Index.simps [simp del]

lemma strings_Index_Some:
  "strings_Index s p = Some i \<Longrightarrow> i + length p \<le> length s \<and> take (length p) (drop i s) = p"
proof (induction s arbitrary: i)
  case (Cons c s)
  show ?case
  proof (cases "take (length p) (c # s) = p")
    case True
    then show ?thesis using Cons.prems by (subst (asm) strings_Index.simps) (auto dest: arg_cong [where f = length])
  next
    case False
    then obtain j where "i = Suc j" "strings_Index s p = Some j"
      using Cons.prems by (subst (asm) strings_Index.simps) (auto split: if_splits)
    then show ?thesis using Cons.IH by auto
  qed
qed (auto simp: strings_Index.simps split: if_splits)

definition strings_Contains :: "string \<Rightarrow> string \<Rightarrow> bool" where
  "strings_Contains s p \<longleftrightarrow> strings_Index s p \<noteq> None"

definition strings_HasPrefix :: "string \<Rightarrow> string \<Rightarrow> bool" where
  "strings_HasPrefix s p \<longleftrightarrow> take (length p) s = p"

text \<open>\<open>strings.Split\<close>; an empty separator splits off every character (here: every byte).\<close>

function strings_Split :: "string \<Rightarrow> string \<Rightarrow> string list" where
  "strings_Split s p =
     (if p = [] then map (\<lambda>c. [c]) s
      else case strings_Index s p of
        None \<Rightarrow> [s]
      | Some i \<Rightarrow> take i s # strings_Split (drop (i + length p) s) p)"
  by pat_completeness auto
termination
proof (relation "measure (\<lambda>(s, p). length s)")
  fix s p :: string and i
  assume "p \<noteq> []" and i: "strings_Index s p = Some i"
  then have "0 < length p" by simp
  then have "length s - (i + length p) < length s" using strings_Index_Some [OF i] by linarith
  then show "((drop (i + length p) s, p), s, p) \<in> measure (\<lambda>(s, p). length s)" by simp
qed simp

declare strings_Split.simps [simp del]

text \<open>\<open>strconv.FormatInt(i, 10)\<close> and \<open>strconv.ParseInt(s, 10, bits)\<close>.\<close>

definition digit_char :: "nat \<Rightarrow> char" where "digit_char d = char_of (48 + d)"

fun dec_digits :: "nat \<Rightarrow> string" where
  "dec_digits n = (if n < 10 then [digit_char n] else dec_digits (n div 10) @ [digit_char (n mod 10)])"

declare dec_digits.simps [simp del]

definition FormatInt :: "int \<Rightarrow> string" where
  "FormatInt i = (if i < 0 then CHR ''-'' # dec_digits (nat (- i)) else dec_digits (nat i))"

definition is_digit :: "char \<Rightarrow> bool" where
  "is_digit c \<longleftrightarrow> 48 \<le> (of_char c :: nat) \<and> (of_char c :: nat) \<le> 57"

text \<open>
  The loop of \<open>ParseUint\<close>: the first character that is no digit, or the first digit that exceeds the
  maximum, ends it with an error.
\<close>

fun parse_digits :: "nat \<Rightarrow> nat \<Rightarrow> string \<Rightarrow> strconv_error + nat" where
  "parse_digits m n [] = Inr n"
| "parse_digits m n (c # cs) =
     (if \<not> is_digit c then Inl ErrSyntax
      else let n1 = 10 * n + (of_char c - 48) in if n1 > m then Inl ErrRange else parse_digits m n1 cs)"

definition ParseUint :: "string \<Rightarrow> nat \<Rightarrow> strconv_error + nat" where
  "ParseUint s bits = (if s = [] then Inl ErrSyntax else parse_digits (2 ^ bits - 1) 0 s)"

definition ParseInt :: "string \<Rightarrow> nat \<Rightarrow> strconv_error + int" where
  "ParseInt s bits =
     (case s of
        [] \<Rightarrow> Inl ErrSyntax
      | c # t \<Rightarrow>
          let neg = (c = CHR ''-''); u = (if neg \<or> c = CHR ''+'' then t else s) in
          (case ParseUint u bits of
             Inl e \<Rightarrow> Inl e
           | Inr un \<Rightarrow>
               if \<not> neg \<and> un \<ge> 2 ^ (bits - 1) then Inl ErrRange
               else if neg \<and> un > 2 ^ (bits - 1) then Inl ErrRange
               else Inr (if neg then - int un else int un)))"

section \<open>Joining and splitting\<close>

definition join_parts :: "string list \<Rightarrow> string \<Rightarrow> string" where
  "join_parts fs p =
     (let buf = concat (map (\<lambda>f. f @ p) fs)
      in if length buf > 0 then take (length buf - 1) buf else buf)"

definition JoinInt32s :: "int32 list \<Rightarrow> string \<Rightarrow> string" where
  "JoinInt32s is p =
     (if is = [] then []
      else if length is = 1 then FormatInt (sint (is ! 0))
      else join_parts (map (\<lambda>i. FormatInt (sint i)) is) p)"

definition JoinInt64s :: "int64 list \<Rightarrow> string \<Rightarrow> string" where
  "JoinInt64s is p =
     (if is = [] then []
      else if length is = 1 then FormatInt (sint (is ! 0))
      else join_parts (map (\<lambda>i. FormatInt (sint i)) is) p)"

fun parse_parts :: "nat \<Rightarrow> string list \<Rightarrow> error + int list" where
  "parse_parts bits [] = Inr []"
| "parse_parts bits (sc # scs) =
     (case ParseInt sc bits of
        Inl e \<Rightarrow> Inl (Strconv e)
      | Inr i \<Rightarrow> (case parse_parts bits scs of Inl e \<Rightarrow> Inl e | Inr is \<Rightarrow> Inr (i # is)))"

definition SplitInt32s :: "string \<Rightarrow> string \<Rightarrow> error + int32 list" where
  "SplitInt32s s p =
     (if s = [] then Inr []
      else case parse_parts 32 (strings_Split s p) of Inl e \<Rightarrow> Inl e | Inr is \<Rightarrow> Inr (map word_of_int is))"

definition SplitInt64s :: "string \<Rightarrow> string \<Rightarrow> error + int64 list" where
  "SplitInt64s s p =
     (if s = [] then Inr []
      else case parse_parts 64 (strings_Split s p) of Inl e \<Rightarrow> Inl e | Inr is \<Rightarrow> Inr (map word_of_int is))"

section \<open>Decimal numbers\<close>

lemma digit_char_simps: "d < 10 \<Longrightarrow> is_digit (digit_char d) \<and> of_char (digit_char d) = 48 + d"
  by (simp add: digit_char_def is_digit_def)

lemma dec_digits_are: "c \<in> set (dec_digits n) \<Longrightarrow> is_digit c"
proof (induction n rule: dec_digits.induct)
  case (1 n)
  then show ?case by (subst (asm) (2) dec_digits.simps) (auto simp: digit_char_simps split: if_splits)
qed

lemma dec_digits_nonempty [simp]: "dec_digits n \<noteq> []"
  by (subst dec_digits.simps) simp

lemma parse_digits_append:
  "parse_digits m n (xs @ ys) = (case parse_digits m n xs of Inl e \<Rightarrow> Inl e | Inr k \<Rightarrow> parse_digits m k ys)"
  by (induction xs arbitrary: n) (auto simp: Let_def)

lemma parse_dec: "n \<le> m \<Longrightarrow> parse_digits m 0 (dec_digits n) = Inr n"
proof (induction n rule: dec_digits.induct)
  case (1 n)
  show ?case
  proof (cases "n < 10")
    case True
    then show ?thesis using 1 by (subst dec_digits.simps) (simp add: digit_char_simps)
  next
    case False
    then show ?thesis using 1 by (subst dec_digits.simps) (simp add: parse_digits_append digit_char_simps)
  qed
qed

lemma parse_format:
  assumes "0 < bits" and "- (2 ^ (bits - 1)) \<le> i" and "i < 2 ^ (bits - 1)"
  shows "ParseInt (FormatInt i) bits = Inr i"
proof -
  have pw: "(2 :: nat) ^ (bits - 1) \<le> 2 ^ bits - 1"
  proof -
    obtain k where k: "bits = Suc k" using assms(1) by (cases bits) auto
    have "(1 :: nat) \<le> 2 ^ k" by simp
    then show ?thesis by (simp add: k)
  qed
  show ?thesis
  proof (cases "i < 0")
    case True
    then have le: "nat (- i) \<le> 2 ^ (bits - 1)" using assms(2) by (simp add: nat_le_iff)
    have "ParseUint (dec_digits (nat (- i))) bits = Inr (nat (- i))"
      using parse_dec [OF order_trans [OF le pw]] by (simp add: ParseUint_def)
    then show ?thesis using True le by (simp add: FormatInt_def ParseInt_def)
  next
    case False
    then have lt: "nat i < 2 ^ (bits - 1)" using assms(3) by (simp add: nat_less_iff)
    have u: "ParseUint (dec_digits (nat i)) bits = Inr (nat i)"
      using parse_dec [OF order_trans [OF less_imp_le [OF lt] pw]] by (simp add: ParseUint_def)
    obtain c t where ct: "dec_digits (nat i) = c # t" by (cases "dec_digits (nat i)") auto
    have "is_digit c" using dec_digits_are [of c "nat i"] ct by simp
    then have "c \<noteq> CHR ''-''" "c \<noteq> CHR ''+''" by (auto simp: is_digit_def)
    then show ?thesis using False lt u ct by (simp add: FormatInt_def ParseInt_def)
  qed
qed

lemma FormatInt_chars: "c \<in> set (FormatInt i) \<Longrightarrow> is_digit c \<or> c = CHR ''-''"
  using dec_digits_are by (auto simp: FormatInt_def split: if_splits)

section \<open>Splitting what was joined\<close>

lemma Index_char: "strings_Index s [c] = IndexByte s c"
proof (induction s)
  case (Cons x s)
  then show ?case by (subst strings_Index.simps) auto
qed (simp add: strings_Index.simps)

lemma Split_char:
  "c \<notin> set f \<Longrightarrow> strings_Split (f @ c # s) [c] = f # strings_Split s [c]" "c \<notin> set f \<Longrightarrow> strings_Split f [c] = [f]"
proof -
  have ix: "c \<notin> set f \<Longrightarrow> IndexByte (f @ c # s) c = Some (length f)" by (induction f) auto
  show "c \<notin> set f \<Longrightarrow> strings_Split (f @ c # s) [c] = f # strings_Split s [c]"
    by (subst strings_Split.simps) (simp add: Index_char ix)
  show "c \<notin> set f \<Longrightarrow> strings_Split f [c] = [f]"
    using IndexByte_None [of f c] by (subst strings_Split.simps) (simp add: Index_char)
qed

fun join_with :: "char \<Rightarrow> string list \<Rightarrow> string" where
  "join_with c [] = []"
| "join_with c [f] = f"
| "join_with c (f # fs) = f @ c # join_with c fs"

lemma join_parts_char: "fs \<noteq> [] \<Longrightarrow> join_parts fs [c] = join_with c fs"
proof -
  have "concat (map (\<lambda>f. f @ [c]) fs) = join_with c fs @ [c]" if "fs \<noteq> []"
    using that by (induction c fs rule: join_with.induct) auto
  then show "fs \<noteq> [] \<Longrightarrow> join_parts fs [c] = join_with c fs" by (simp add: join_parts_def Let_def)
qed

lemma Split_join: "fs \<noteq> [] \<Longrightarrow> \<forall>f\<in>set fs. c \<notin> set f \<Longrightarrow> strings_Split (join_with c fs) [c] = fs"
  by (induction c fs rule: join_with.induct) (auto simp: Split_char)

lemma parse_parts_format:
  "0 < bits \<Longrightarrow> \<forall>i\<in>set is. - (2 ^ (bits - 1)) \<le> i \<and> i < 2 ^ (bits - 1) \<Longrightarrow>
   parse_parts bits (map FormatInt is) = Inr is"
  by (induction "is") (auto simp: parse_format)

text \<open>The two widths share the round trip.\<close>

lemma split_join_ints:
  assumes bits: "0 < bits" "\<forall>i\<in>set is. - (2 ^ (bits - 1)) \<le> i \<and> i < 2 ^ (bits - 1)" and ne: "is \<noteq> []"
    and c: "\<not> is_digit c" "c \<noteq> CHR ''-''"
  shows "parse_parts bits (strings_Split (join_with c (map FormatInt is)) [c]) = Inr is \<and> join_with c (map FormatInt is) \<noteq> []"
proof -
  have "\<forall>f\<in>set (map FormatInt is). c \<notin> set f" using FormatInt_chars c by auto
  then have "strings_Split (join_with c (map FormatInt is)) [c] = map FormatInt is" using ne by (intro Split_join) auto
  moreover have "join_with c (map FormatInt is) \<noteq> []"
    using ne by (cases "is"; cases "tl is") (auto simp: FormatInt_def)
  ultimately show ?thesis using parse_parts_format [OF bits] by simp
qed

section \<open>Properties\<close>

text \<open>
  Round trip of integer lists. Any list of 32-bit or 64-bit integers that is joined with a separator
  of one character, which is neither a digit nor a minus sign, is read back exactly.
\<close>

theorem ints_round_trip:
  assumes "\<not> is_digit c" and "c \<noteq> CHR ''-''"
  shows "SplitInt32s (JoinInt32s is [c]) [c] = Inr is \<and> SplitInt64s (JoinInt64s js [c]) [c] = Inr js"
proof -
  have j32: "JoinInt32s is [c] = join_with c (map FormatInt (map sint is))" if "is \<noteq> []"
    using that join_parts_char [of "map (\<lambda>i. FormatInt (sint i)) is" c] by (cases "is") (auto simp: JoinInt32s_def comp_def)
  have j64: "JoinInt64s js [c] = join_with c (map FormatInt (map sint js))" if "js \<noteq> []"
    using that join_parts_char [of "map (\<lambda>i. FormatInt (sint i)) js" c] by (cases js) (auto simp: JoinInt64s_def comp_def)
  have r32: "\<forall>i\<in>set (map sint is). - (2 ^ (32 - 1)) \<le> i \<and> i < 2 ^ (32 - 1)"
    using sint_range_size [where 'a = 32] by (auto simp: word_size)
  have r64: "\<forall>i\<in>set (map sint js). - (2 ^ (64 - 1)) \<le> i \<and> i < 2 ^ (64 - 1)"
    using sint_range_size [where 'a = 64] by (auto simp: word_size)
  have "SplitInt32s (JoinInt32s is [c]) [c] = Inr is"
  proof (cases "is = []")
    case False
    then show ?thesis using split_join_ints [OF _ r32 _ assms] j32 by (simp add: SplitInt32s_def comp_def)
  qed (simp add: JoinInt32s_def SplitInt32s_def)
  moreover have "SplitInt64s (JoinInt64s js [c]) [c] = Inr js"
  proof (cases "js = []")
    case False
    then show ?thesis using split_join_ints [OF _ r64 _ assms] j64 by (simp add: SplitInt64s_def comp_def)
  qed (simp add: JoinInt64s_def SplitInt64s_def)
  ultimately show ?thesis ..
qed

theorem ints_round_trip_witness:
  "SplitInt32s (JoinInt32s [1, -7, 2147483647] '','') '','' = Inr [1, -7, 2147483647]"
  using ints_round_trip [of "CHR '',''"] by (simp add: is_digit_def)

text \<open>
  A separator of two characters loses only its last character at the end of the text, and the text is
  not read back; an empty separator loses the last digit.
\<close>

theorem join_long_separator:
  "SplitInt32s (JoinInt32s [1, 2] '', '') '', '' = Inl (Strconv ErrSyntax) \<and> JoinInt32s [1, 23] [] = ''12''"
proof -
  have d: "dec_digits (Suc 0) = ''1''" "dec_digits 2 = ''2''" "dec_digits 23 = ''23''"
    by (simp_all add: dec_digits.simps digit_char_def char_of_def bit_Suc_0_iff)
  have f: "FormatInt 1 = ''1''" "FormatInt 2 = ''2''" "FormatInt 23 = ''23''" by (simp_all add: FormatInt_def d)
  have j: "JoinInt32s [1, 2] '', '' = ''1, 2,''" "JoinInt32s [1, 23] [] = ''12''"
    by (simp_all add: JoinInt32s_def join_parts_def f)
  have s: "strings_Split ''1, 2,'' '', '' = [''1'', ''2,'']"
    by (simp add: strings_Split.simps strings_Index.simps)
  show ?thesis unfolding j SplitInt32s_def s
    by (simp add: ParseInt_def ParseUint_def is_digit_def)
qed

end
