(* ===== verification/Comet_Server.thy ===== *)
theory Comet_Server
  imports Bucket Round Go_Strings
begin

text \<open>
  \<open>internal/comet/server.go\<close>, \<open>operation.go\<close>, \<open>whitelist.go\<close> and \<open>grpc/server.go\<close>: the comet process. Its heap of
  channels and rooms is one store, which the buckets share. The logic service is reached by gRPC: the
  client stub is a parameter, a record of functions on the state of that service, and so is the hash of
  the cityhash package. Log lines are left out.
\<close>

section \<open>The logic service\<close>

record ConnectReply =
  cr_Mid :: int64
  cr_Key :: string
  cr_RoomID :: string
  cr_Accepts :: "int32 list"
  cr_Heartbeat :: int

record 'l LogicClient =
  lc_Connect :: "string \<Rightarrow> string \<Rightarrow> byte list \<Rightarrow> 'l \<Rightarrow> (error + ConnectReply) \<times> 'l"
  lc_Disconnect :: "string \<Rightarrow> int64 \<Rightarrow> string \<Rightarrow> 'l \<Rightarrow> error option \<times> 'l"
  lc_Heartbeat :: "string \<Rightarrow> int64 \<Rightarrow> string \<Rightarrow> 'l \<Rightarrow> error option \<times> 'l"
  lc_RenewOnline :: "string \<Rightarrow> (string \<times> int32) list \<Rightarrow> 'l \<Rightarrow> (error + (string \<times> int32) list) \<times> 'l"
  lc_Receive :: "int64 \<Rightarrow> Proto \<Rightarrow> 'l \<Rightarrow> error option \<times> 'l"

section \<open>State\<close>

record CometConf =
  cf_Round :: RoundOptions
  cf_CliProto :: int
  cf_SvrProto :: nat
  cf_HandshakeTimeout :: int
  cf_Bucket :: BucketConf
  cf_BucketSize :: nat
  cf_Host :: string

record 'l Server =
  sv_c :: CometConf
  sv_round :: Round
  sv_buckets :: "Bucket list"
  sv_bucketIdx :: "32 word"
  sv_serverID :: string
  sv_store :: Store
  sv_logic :: 'l

definition minServerHeartbeat :: int where "minServerHeartbeat = 10 * 60 * 10 ^ 9"
definition maxServerHeartbeat :: int where "maxServerHeartbeat = 30 * 60 * 10 ^ 9"

definition NewServer :: "CometConf \<Rightarrow> 'l \<Rightarrow> 'l Server outcome" where
  "NewServer c l =
     obind (NewRound (cf_Round c)) (\<lambda>round.
       Ret \<lparr>sv_c = c, sv_round = round, sv_buckets = replicate (cf_BucketSize c) (NewBucket (cf_Bucket c)),
            sv_bucketIdx = of_nat (cf_BucketSize c), sv_serverID = cf_Host c,
            sv_store = \<lparr>st_ch = [], st_rm = []\<rparr>, sv_logic = l\<rparr>)"

text \<open>The index of the bucket of a key.\<close>

definition Server_Bucket :: "(byte list \<Rightarrow> 32 word \<Rightarrow> 32 word) \<Rightarrow> string \<Rightarrow> 'l Server \<Rightarrow> nat outcome" where
  "Server_Bucket cityhash subKey sv =
     (if sv_bucketIdx sv = 0 then Panic DivideByZero
      else let idx = unat (cityhash (go_bytes subKey) (of_nat (length subKey)) mod sv_bucketIdx sv)
           in if idx < length (sv_buckets sv) then Ret idx else Panic IndexOutOfRange)"

text \<open>\<open>rnd\<close> is what \<open>rand.Int63n\<close> returns for its argument.\<close>

definition RandServerHearbeat :: "(int \<Rightarrow> int) \<Rightarrow> int" where
  "RandServerHearbeat rnd = minServerHeartbeat + rnd (maxServerHeartbeat - minServerHeartbeat)"

section \<open>Calls to the logic service\<close>

definition Server_Connect :: "'l LogicClient \<Rightarrow> Proto \<Rightarrow> string \<Rightarrow> 'l Server \<Rightarrow> (error + ConnectReply) \<times> 'l Server" where
  "Server_Connect lc p cookie sv =
     (let (r, l) = lc_Connect lc (sv_serverID sv) cookie (body_bytes p) (sv_logic sv) in (r, sv\<lparr>sv_logic := l\<rparr>))"

definition Server_Disconnect :: "'l LogicClient \<Rightarrow> int64 \<Rightarrow> string \<Rightarrow> 'l Server \<Rightarrow> error option \<times> 'l Server" where
  "Server_Disconnect lc mid key sv =
     (let (r, l) = lc_Disconnect lc (sv_serverID sv) mid key (sv_logic sv) in (r, sv\<lparr>sv_logic := l\<rparr>))"

definition Server_Heartbeat :: "'l LogicClient \<Rightarrow> int64 \<Rightarrow> string \<Rightarrow> 'l Server \<Rightarrow> error option \<times> 'l Server" where
  "Server_Heartbeat lc mid key sv =
     (let (r, l) = lc_Heartbeat lc (sv_serverID sv) mid key (sv_logic sv) in (r, sv\<lparr>sv_logic := l\<rparr>))"

definition Server_RenewOnline ::
    "'l LogicClient \<Rightarrow> (string \<times> int32) list \<Rightarrow> 'l Server \<Rightarrow> (error + (string \<times> int32) list) \<times> 'l Server" where
  "Server_RenewOnline lc roomCount sv =
     (let (r, l) = lc_RenewOnline lc (sv_serverID sv) roomCount (sv_logic sv) in (r, sv\<lparr>sv_logic := l\<rparr>))"

definition Server_Receive :: "'l LogicClient \<Rightarrow> int64 \<Rightarrow> Proto \<Rightarrow> 'l Server \<Rightarrow> error option \<times> 'l Server" where
  "Server_Receive lc mid p sv = (let (r, l) = lc_Receive lc mid p (sv_logic sv) in (r, sv\<lparr>sv_logic := l\<rparr>))"

section \<open>Operations of a client\<close>

definition sv_chan :: "addr \<Rightarrow> 'l Server \<Rightarrow> Channel" where "sv_chan ch sv = ch_at (sv_store sv) ch"

definition sv_upd :: "addr \<Rightarrow> (Channel \<Rightarrow> Channel) \<Rightarrow> 'l Server \<Rightarrow> 'l Server" where
  "sv_upd ch f sv = sv\<lparr>sv_store := ch_set ch f (sv_store sv)\<rparr>"

text \<open>A bucket operation: bucket \<open>i\<close> and the store.\<close>

definition sv_put :: "nat \<Rightarrow> bworld \<Rightarrow> 'l Server \<Rightarrow> 'l Server" where
  "sv_put i w sv = sv\<lparr>sv_buckets := (sv_buckets sv)[i := fst w], sv_store := snd w\<rparr>"

text \<open>
  \<open>Operate\<close>, for a channel of bucket \<open>i\<close>: the message after it (its reply) and the server. It always
  returns a nil error; it does not return when \<open>ChangeRoom\<close> blocks.
\<close>

definition Server_Operate :: "'l LogicClient \<Rightarrow> Proto \<Rightarrow> addr \<Rightarrow> nat \<Rightarrow> 'l Server \<Rightarrow> (Proto \<times> 'l Server) option" where
  "Server_Operate lc p ch i sv =
     (if Op p = OpChangeRoom then
        map_option (\<lambda>(err, w). (p\<lparr>Op := OpChangeRoomReply\<rparr>, sv_put i w sv))
          (Bucket_ChangeRoom (go_string (body_bytes p)) ch (sv_buckets sv ! i, sv_store sv))
      else if Op p = OpSub then
        Some (p\<lparr>Op := OpSubReply\<rparr>,
          case SplitInt32s (go_string (body_bytes p)) '','' of Inr ops \<Rightarrow> sv_upd ch (Channel_Watch ops) sv | Inl e \<Rightarrow> sv)
      else if Op p = OpUnsub then
        Some (p\<lparr>Op := OpUnsubReply\<rparr>,
          case SplitInt32s (go_string (body_bytes p)) '','' of Inr ops \<Rightarrow> sv_upd ch (Channel_UnWatch ops) sv | Inl e \<Rightarrow> sv)
      else Some (p\<lparr>Body := None\<rparr>, snd (Server_Receive lc (ch_Mid (sv_chan ch sv)) p sv)))"

section \<open>Reporting who is online\<close>

definition add_count :: "string \<times> int32 \<Rightarrow> (string \<times> int32) list \<Rightarrow> (string \<times> int32) list" where
  "add_count x m = AList.update (fst x) ((case map_of m (fst x) of None \<Rightarrow> 0 | Some k \<Rightarrow> k) + snd x) m"

definition room_counts :: "'l Server \<Rightarrow> (string \<times> int32) list" where
  "room_counts sv = fold (\<lambda>b. fold add_count (RoomsCount (b, sv_store sv))) (sv_buckets sv) []"

text \<open>One turn of \<open>onlineproc\<close>, and how many seconds it sleeps.\<close>

definition onlineproc :: "'l LogicClient \<Rightarrow> 'l Server \<Rightarrow> nat \<times> 'l Server" where
  "onlineproc lc sv =
     (case Server_RenewOnline lc (room_counts sv) sv of
        (Inl e, sv1) \<Rightarrow> (1, sv1)
      | (Inr all, sv1) \<Rightarrow>
          (10, sv1\<lparr>sv_store := fold (\<lambda>b s. snd (UpRoomsCount (map_of all) (b, s))) (sv_buckets sv1) (sv_store sv1)\<rparr>))"

section \<open>The gRPC interface of a comet\<close>

fun push_keys :: "(byte list \<Rightarrow> 32 word \<Rightarrow> 32 word) \<Rightarrow> string list \<Rightarrow> Proto \<Rightarrow> int32 \<Rightarrow> 'l Server \<Rightarrow> (error option \<times> 'l Server) outcome" where
  "push_keys hash [] p op sv = Ret (None, sv)"
| "push_keys hash (key # keys) p op sv =
     obind (Server_Bucket hash key sv) (\<lambda>i.
       case Bucket_Channel key (sv_buckets sv ! i) of
         None \<Rightarrow> push_keys hash keys p op sv
       | Some ch \<Rightarrow>
           if \<not> Channel_NeedPush op (sv_chan ch sv) then push_keys hash keys p op sv
           else (case Channel_Push p (sv_chan ch sv) of
               (Some e, c) \<Rightarrow> Ret (Some e, sv)
             | (None, c) \<Rightarrow> push_keys hash keys p op (sv_upd ch (\<lambda>_. c) sv)))"

definition grpc_PushMsg ::
    "(byte list \<Rightarrow> 32 word \<Rightarrow> 32 word) \<Rightarrow> string list \<Rightarrow> Proto option \<Rightarrow> int32 \<Rightarrow> 'l Server \<Rightarrow> (error option \<times> 'l Server) outcome" where
  "grpc_PushMsg hash keys proto op sv =
     (if keys = [] then Ret (Some (Comet ErrPushMsgArg), sv)
      else case proto of None \<Rightarrow> Ret (Some (Comet ErrPushMsgArg), sv) | Some p \<Rightarrow> push_keys hash keys p op sv)"

text \<open>The server after the goroutine of \<open>Broadcast\<close> is done, and how long it slept after each bucket.\<close>

definition grpc_Broadcast :: "Proto option \<Rightarrow> int32 \<Rightarrow> int32 \<Rightarrow> 'l Server \<Rightarrow> error option \<times> int list \<times> 'l Server" where
  "grpc_Broadcast proto op speed sv =
     (case proto of
        None \<Rightarrow> (Some (Comet ErrBroadCastArg), [], sv)
      | Some p \<Rightarrow>
          (None,
           map (\<lambda>b. if sint speed > 0 then int (ChannelCount b) div sint speed else 0) (sv_buckets sv),
           sv\<lparr>sv_store := fold (\<lambda>b s. snd (Bucket_Broadcast p op (b, s))) (sv_buckets sv) (sv_store sv)\<rparr>))"

fun broadcast_room_all :: "BroadcastRoomReq \<Rightarrow> Bucket list \<Rightarrow> Bucket list run" where
  "broadcast_room_all req [] = Some (Ret [])"
| "broadcast_room_all req (b # bs) =
     rbind (Bucket_BroadcastRoom req b) (\<lambda>b'. rbind (broadcast_room_all req bs) (\<lambda>bs'. Some (Ret (b' # bs'))))"

definition grpc_BroadcastRoom :: "string \<Rightarrow> Proto option \<Rightarrow> 'l Server \<Rightarrow> (error option \<times> 'l Server) run" where
  "grpc_BroadcastRoom roomID proto sv =
     (case proto of
        None \<Rightarrow> Some (Ret (Some (Comet ErrBroadCastRoomArg), sv))
      | Some p \<Rightarrow>
          if roomID = [] then Some (Ret (Some (Comet ErrBroadCastRoomArg), sv))
          else rbind (broadcast_room_all \<lparr>br_RoomID = roomID, br_Proto = p\<rparr> (sv_buckets sv))
                 (\<lambda>bs. Some (Ret (None, sv\<lparr>sv_buckets := bs\<rparr>))))"

definition grpc_Rooms :: "'l Server \<Rightarrow> string list" where
  "grpc_Rooms sv = fold (\<lambda>b. fold List.insert (Bucket_Rooms (b, sv_store sv))) (sv_buckets sv) []"

section \<open>The debug whitelist\<close>

definition Whitelist_Contains :: "int64 list \<Rightarrow> int64 \<Rightarrow> bool" where
  "Whitelist_Contains list mid \<longleftrightarrow> 0 < sint mid \<and> mid \<in> set list"

section \<open>Delivery to keys\<close>

text \<open>The buckets are well formed and indexed by the hash.\<close>

definition Server_ok :: "'l Server \<Rightarrow> bool" where
  "Server_ok sv \<longleftrightarrow> sv_buckets sv \<noteq> [] \<and> unat (sv_bucketIdx sv) = length (sv_buckets sv) \<and>
     (\<forall>b\<in>set (sv_buckets sv). \<exists>L. Bucket_ok L (b, sv_store sv))"

definition key_chan :: "(byte list \<Rightarrow> 32 word \<Rightarrow> 32 word) \<Rightarrow> string \<Rightarrow> 'l Server \<Rightarrow> ptr" where
  "key_chan hash key sv = (case Server_Bucket hash key sv of Ret i \<Rightarrow> Bucket_Channel key (sv_buckets sv ! i) | Panic _ \<Rightarrow> None)"

lemma Server_Bucket_ok:
  assumes "unat (sv_bucketIdx sv) = length (sv_buckets sv)" and "sv_buckets sv \<noteq> []"
  shows "\<exists>i<length (sv_buckets sv). Server_Bucket hash key sv = Ret i"
proof -
  have "sv_bucketIdx sv \<noteq> 0" using assms by auto
  moreover have "unat (x mod sv_bucketIdx sv) < length (sv_buckets sv)" for x
    using assms by (simp add: unat_mod)
  ultimately show ?thesis by (simp add: Server_Bucket_def Let_def)
qed

lemma Server_ok_Bucket: "Server_ok sv \<Longrightarrow> \<exists>i<length (sv_buckets sv). Server_Bucket hash key sv = Ret i"
  using Server_Bucket_ok by (auto simp: Server_ok_def)

lemma key_chan_ok:
  assumes ok: "Server_ok sv" and ch: "key_chan hash key sv = Some ch"
  shows "ch_Key (sv_chan ch sv) = key \<and> ch < length (st_ch (sv_store sv))"
proof -
  obtain i where i: "i < length (sv_buckets sv)" "Server_Bucket hash key sv = Ret i"
    using Server_ok_Bucket [OF ok, of hash key] by blast
  obtain L where "Bucket_ok L (sv_buckets sv ! i, sv_store sv)"
    using ok nth_mem [OF i(1)] unfolding Server_ok_def by blast
  then have "chs_ok L (bk_chs (sv_buckets sv ! i)) (sv_store sv)" by (simp add: Bucket_ok_def)
  moreover have "map_of (bk_chs (sv_buckets sv ! i)) key = Some ch" using ch i(2) by (simp add: key_chan_def Bucket_Channel_def)
  ultimately show ?thesis by (auto simp: chs_ok_def sv_chan_def)
qed

lemma Server_ok_links:
  "Server_ok sv \<Longrightarrow> same_links (sv_store sv) s' \<Longrightarrow> Server_ok (sv\<lparr>sv_store := s'\<rparr>)"
  unfolding Server_ok_def using Bucket_ok_cong by fastforce

text \<open>What \<open>PushMsg\<close> does to a channel that it can reach and that wants the message.\<close>

definition wants :: "(byte list \<Rightarrow> 32 word \<Rightarrow> 32 word) \<Rightarrow> string list \<Rightarrow> int32 \<Rightarrow> 'l Server \<Rightarrow> addr \<Rightarrow> bool" where
  "wants hash keys op sv x \<longleftrightarrow> (\<exists>k\<in>set keys. key_chan hash k sv = Some x) \<and> Channel_NeedPush op (sv_chan x sv)"

definition chan_full :: "Channel \<Rightarrow> bool" where "chan_full c \<longleftrightarrow> ch_cap c \<le> length (ch_signal c)"

lemma push_keys_spec:
  assumes "Server_ok sv" and "distinct keys"
  shows "\<exists>ks1 rest e sv'. push_keys hash keys p op sv = Ret (e, sv') \<and> keys = ks1 @ rest \<and>
    (\<forall>x. sv_chan x sv' = (if wants hash ks1 op sv x then snd (Channel_Push p (sv_chan x sv)) else sv_chan x sv)) \<and>
    (\<forall>x. wants hash ks1 op sv x \<longrightarrow> \<not> chan_full (sv_chan x sv)) \<and> sv_buckets sv' = sv_buckets sv \<and>
    (if rest = [] then e = None
     else e = Some (Comet ErrSignalFullMsgDropped) \<and> (\<exists>x. wants hash [hd rest] op sv x \<and> chan_full (sv_chan x sv)))"
  using assms
proof (induction keys arbitrary: sv)
  case Nil
  then show ?case by (intro exI [of _ "[]"]) (simp add: wants_def)
next
  case (Cons k keys)
  obtain i where i: "Server_Bucket hash k sv = Ret i" using Server_ok_Bucket [OF Cons.prems(1), of hash k] by blast
  have kc: "key_chan hash k sv = Bucket_Channel k (sv_buckets sv ! i)" using i by (simp add: key_chan_def)
  show ?case
  proof (cases "\<exists>x. wants hash [k] op sv x")
    case False
    have "push_keys hash (k # keys) p op sv = push_keys hash keys p op sv"
      using False i kc by (cases "Bucket_Channel k (sv_buckets sv ! i)") (auto simp: wants_def)
    moreover have w: "wants hash (k # ks1) op sv x = wants hash ks1 op sv x" for ks1 x using False by (auto simp: wants_def)
    moreover obtain ks1 rest e sv' where ih: "push_keys hash keys p op sv = Ret (e, sv')" "keys = ks1 @ rest"
      "\<forall>x. sv_chan x sv' = (if wants hash ks1 op sv x then snd (Channel_Push p (sv_chan x sv)) else sv_chan x sv)"
      "\<forall>x. wants hash ks1 op sv x \<longrightarrow> \<not> chan_full (sv_chan x sv)" "sv_buckets sv' = sv_buckets sv"
      "if rest = [] then e = None
       else e = Some (Comet ErrSignalFullMsgDropped) \<and> (\<exists>x. wants hash [hd rest] op sv x \<and> chan_full (sv_chan x sv))"
      using Cons.IH [OF Cons.prems(1)] Cons.prems(2) by auto
    ultimately show ?thesis by (intro exI [of _ "k # ks1"] exI [of _ rest] exI [of _ e] exI [of _ sv']) (simp only: w, simp)
  next
    case True
    then obtain x where x: "key_chan hash k sv = Some x" "Channel_NeedPush op (sv_chan x sv)" by (auto simp: wants_def)
    have wx: "wants hash [k] op sv y \<longleftrightarrow> y = x" for y using x by (auto simp: wants_def)
    note kx = key_chan_ok [OF Cons.prems(1) x(1)]
    have bc: "Bucket_Channel k (sv_buckets sv ! i) = Some x" using kc x(1) by simp
    show ?thesis
    proof (cases "chan_full (sv_chan x sv)")
      case True
      then have "push_keys hash (k # keys) p op sv = Ret (Some (Comet ErrSignalFullMsgDropped), sv)"
        using i bc x(2) by (simp add: Channel_Push_def chan_send_def chan_full_def)
      then show ?thesis using True wx
        by (intro exI [of _ "[]"] exI [of _ "k # keys"] exI [of _ "Some (Comet ErrSignalFullMsgDropped)"] exI [of _ sv]) (simp add: wants_def)
    next
      case False
      define sv1 where "sv1 = sv_upd x (\<lambda>_. snd (Channel_Push p (sv_chan x sv))) sv"
      have run: "push_keys hash (k # keys) p op sv = push_keys hash keys p op sv1"
        using i bc x(2) False by (simp add: Channel_Push_def chan_send_def chan_full_def sv1_def)
      have c1: "sv_chan y sv1 = (if y = x then snd (Channel_Push p (sv_chan x sv)) else sv_chan y sv)" for y
        using kx by (simp add: sv1_def sv_upd_def sv_chan_def at_set)
      have "same_links (sv_store sv) (sv_store sv1)"
        using c1 by (simp add: same_links_def sv_chan_def) (simp add: sv1_def sv_upd_def ch_set_def)
      then have ok1: "Server_ok sv1" using Server_ok_links [OF Cons.prems(1)] by (simp add: sv1_def sv_upd_def)
      have kc1: "key_chan hash k' sv1 = key_chan hash k' sv" for k' 
        by (simp add: key_chan_def Server_Bucket_def sv1_def sv_upd_def Let_def)
      have np: "Channel_NeedPush op (sv_chan y sv1) = Channel_NeedPush op (sv_chan y sv)" for y
        by (simp add: c1 Channel_NeedPush_def)
      have w1: "wants hash ks op sv1 y = wants hash ks op sv y" for ks y by (simp add: wants_def kc1 np)
      obtain ks1 rest e sv' where ih: "push_keys hash keys p op sv1 = Ret (e, sv')" "keys = ks1 @ rest"
        "\<forall>x. sv_chan x sv' = (if wants hash ks1 op sv x then snd (Channel_Push p (sv_chan x sv1)) else sv_chan x sv1)"
        "\<forall>x. wants hash ks1 op sv x \<longrightarrow> \<not> chan_full (sv_chan x sv1)" "sv_buckets sv' = sv_buckets sv1"
        "if rest = [] then e = None
         else e = Some (Comet ErrSignalFullMsgDropped) \<and> (\<exists>x. wants hash [hd rest] op sv x \<and> chan_full (sv_chan x sv1))"
        using Cons.IH [OF ok1] Cons.prems(2) unfolding w1 by auto
      have nx: "\<not> wants hash ks op sv x" if "set ks \<subseteq> set keys" for ks
        using that Cons.prems key_chan_ok [OF Cons.prems(1)] kx by (fastforce simp: wants_def)
      have nd: "\<not> wants hash ks1 op sv x" "rest \<noteq> [] \<Longrightarrow> \<not> wants hash [hd rest] op sv x" using nx [of ks1] nx [of "[hd rest]"] ih(2) by auto
      have wc: "wants hash (k # ks1) op sv y \<longleftrightarrow> y = x \<or> wants hash ks1 op sv y" for y using x by (auto simp: wants_def)
      have r4: "\<forall>y. wants hash (k # ks1) op sv y \<longrightarrow> \<not> chan_full (sv_chan y sv)"
        using ih(4) False nd(1) unfolding wc by (metis c1)
      have r3: "\<forall>y. sv_chan y sv' = (if wants hash (k # ks1) op sv y then snd (Channel_Push p (sv_chan y sv)) else sv_chan y sv)"
        using ih(3) nd(1) unfolding wc by (auto simp: c1)
      have r6: "if rest = [] then e = None
         else e = Some (Comet ErrSignalFullMsgDropped) \<and> (\<exists>x. wants hash [hd rest] op sv x \<and> chan_full (sv_chan x sv))"
        using ih(6) nd(2) by (metis c1)
      have "sv_buckets sv1 = sv_buckets sv" by (simp add: sv1_def sv_upd_def)
      then show ?thesis using run ih(1,2,5) r3 r4 r6
        by (intro exI [of _ "k # ks1"] exI [of _ rest] exI [of _ e] exI [of _ sv']) (simp only: append_Cons simp_thms)
    qed
  qed
qed

section \<open>The online counts\<close>

definition count_of :: "(string \<times> int32) list \<Rightarrow> string \<Rightarrow> int32" where
  "count_of m k = (case map_of m k of None \<Rightarrow> 0 | Some n \<Rightarrow> n)"

lemma count_of_add: "count_of (add_count x m) k = count_of m k + (if k = fst x then snd x else 0)"
  by (auto simp: count_of_def add_count_def update_conv')

lemma count_of_fold:
  "distinct (map fst xs) \<Longrightarrow> count_of (fold add_count xs m) k = count_of m k + count_of xs k"
proof (induction xs arbitrary: m)
  case (Cons x xs)
  have "map_of xs (fst x) = None" using Cons.prems by (simp add: map_of_eq_None_iff)
  then have "count_of (x # xs) k = count_of xs k + (if k = fst x then snd x else 0)" by (cases x) (auto simp: count_of_def)
  then show ?case using Cons by (simp add: count_of_add add.assoc add.left_commute)
qed (simp add: count_of_def)

lemma count_of_buckets:
  assumes "\<forall>b\<in>set bs. distinct (map fst (RoomsCount (b, s)))"
  shows "count_of (fold (\<lambda>b. fold add_count (RoomsCount (b, s))) bs m) k = count_of m k + (\<Sum>b\<leftarrow>bs. count_of (RoomsCount (b, s)) k)"
  using assms by (induction bs arbitrary: m) (simp_all add: count_of_fold add.assoc)

lemma RoomsCount_distinct: "Bucket_ok L (b, s) \<Longrightarrow> distinct (map fst (RoomsCount (b, s)))"
proof -
  have "map fst (RoomsCount (b, s)) = map fst (filter (\<lambda>(rid, r). 0 < sint (rm_Online (rm_at s r))) (bk_rooms b))"
    by (simp add: RoomsCount_def comp_def case_prod_beta)
  then show "Bucket_ok L (b, s) \<Longrightarrow> distinct (map fst (RoomsCount (b, s)))"
    by (auto simp: Bucket_ok_def rooms_inv_def distinct_map_filter)
qed

lemma RoomsCount_count:
  assumes "Bucket_ok L (b, s)" and "rid \<noteq> []"
  shows "count_of (RoomsCount (b, s)) rid = of_nat (card {x\<in>L. room_id x s = rid})"
proof (cases "\<exists>x\<in>L. room_id x s = rid")
  case False
  then have e: "{x\<in>L. room_id x s = rid} = {}" by auto
  show ?thesis unfolding e using False RoomsCount_spec [OF assms(1), of rid] by (simp add: count_of_def)
next
  case True
  then show ?thesis using assms(2) RoomsCount_spec [OF assms(1), of rid] by (simp add: count_of_def)
qed

section \<open>Properties\<close>

text \<open>
  C29 (push to keys). \<open>PushMsg\<close> with distinct keys goes through them in order. It appends the message once to
  the queue of every channel that has one of the keys and watches the operation, until the first such
  queue that is full: there it stops with \<open>ErrSignalFullMsgDropped\<close>, and the keys from that one on get
  nothing, full or not. It never panics, and other channels and the buckets keep their state.
\<close>

theorem push_msg_prefix:
  assumes "Server_ok sv" and "distinct keys" and "keys \<noteq> []"
  shows "\<exists>ks1 rest e sv'. grpc_PushMsg hash keys (Some p) op sv = Ret (e, sv') \<and> keys = ks1 @ rest \<and>
    (\<forall>x. ch_signal (sv_chan x sv') = (if wants hash ks1 op sv x then ch_signal (sv_chan x sv) @ [SigMsg p] else ch_signal (sv_chan x sv))) \<and>
    sv_buckets sv' = sv_buckets sv \<and>
    (if rest = [] then e = None
     else e = Some (Comet ErrSignalFullMsgDropped) \<and> (\<exists>x. wants hash [hd rest] op sv x \<and> chan_full (sv_chan x sv)))"
proof -
  obtain ks1 rest e sv' where r: "push_keys hash keys p op sv = Ret (e, sv')" "keys = ks1 @ rest"
    "\<forall>x. sv_chan x sv' = (if wants hash ks1 op sv x then snd (Channel_Push p (sv_chan x sv)) else sv_chan x sv)"
    "\<forall>x. wants hash ks1 op sv x \<longrightarrow> \<not> chan_full (sv_chan x sv)" "sv_buckets sv' = sv_buckets sv"
    "if rest = [] then e = None
     else e = Some (Comet ErrSignalFullMsgDropped) \<and> (\<exists>x. wants hash [hd rest] op sv x \<and> chan_full (sv_chan x sv))"
    using push_keys_spec [OF assms(1,2), of hash p op] by (elim exE conjE) (rule that)
  have "ch_signal (sv_chan x sv') = (if wants hash ks1 op sv x then ch_signal (sv_chan x sv) @ [SigMsg p] else ch_signal (sv_chan x sv))" for x
    using r(3,4) by (auto simp: Push_signal chan_full_def)
  moreover have "grpc_PushMsg hash keys (Some p) op sv = Ret (e, sv')" using r(1) assms(3) by (simp add: grpc_PushMsg_def)
  ultimately show ?thesis
    by - (rule exI [of _ ks1], rule exI [of _ rest], rule exI [of _ e], rule exI [of _ sv'], use r(2,5,6) in blast)
qed

definition demo_conf :: CometConf where
  "demo_conf = \<lparr>cf_Round = \<lparr>ro_Timer = 1, ro_TimerSize = 4, ro_Reader = 1, ro_ReadBuf = 2, ro_ReadBufSize = 32, ro_Writer = 1,
     ro_WriteBuf = 2, ro_WriteBufSize = 32\<rparr>, cf_CliProto = 2, cf_SvrProto = 2, cf_HandshakeTimeout = 5,
     cf_Bucket = \<lparr>cb_RoutineAmount = 1, cb_RoutineSize = 1\<rparr>, cf_BucketSize = 1, cf_Host = ''h''\<rparr>"

definition demo_server :: "Bucket \<Rightarrow> Store \<Rightarrow> unit Server" where
  "demo_server b s = \<lparr>sv_c = demo_conf, sv_round = \<lparr>rn_readers = [], rn_writers = [], rn_timers = [], rn_options = cf_Round demo_conf\<rparr>,
     sv_buckets = [b], sv_bucketIdx = 1, sv_serverID = ''h'', sv_store = s, sv_logic = ()\<rparr>"

lemma demo_live: "\<exists>b s. Bucket_ok {0} (b, s) \<and> room_id 0 s = ''live''"
proof -
  obtain b s where st: "bucket_step ({}, demo_bucket, demo_store) ({0}, b, s)" "room_id 0 s = ''live''" using demo_put by blast
  have "Bucket_ok {} (demo_bucket, demo_store)" by (simp add: demo_bucket_def NewBucket_ok)
  then show ?thesis using bucket_step_ok [OF st(1)] st(2) by auto
qed

theorem push_msg_prefix_witness:
  "\<exists>b s e sv'. grpc_PushMsg (\<lambda>_ n. n) [[], ''k''] (Some Proto_zero) 5 (demo_server b s) = Ret (e, sv') \<and> Bucket_ok {0} (b, s)"
proof -
  obtain b s where b: "Bucket_ok {0} (b, s)" using demo_live by blast
  then have "Server_ok (demo_server b s)" by (auto simp: Server_ok_def demo_server_def)
  from push_msg_prefix [OF this, of "[[], ''k'']" "\<lambda>_ n. n" Proto_zero 5] b show ?thesis by auto
qed



text \<open>The server heartbeat lies between its two bounds when \<open>rand.Int63n\<close> keeps its documented range.\<close>

lemma RandServerHearbeat_range:
  assumes "\<forall>n>0. 0 \<le> rnd n \<and> rnd n < n"
  shows "minServerHeartbeat \<le> RandServerHearbeat rnd \<and> RandServerHearbeat rnd < maxServerHeartbeat"
  using assms [rule_format, of "maxServerHeartbeat - minServerHeartbeat"]
  by (simp add: RandServerHearbeat_def minServerHeartbeat_def maxServerHeartbeat_def)

end
