(* ===== verification/Session.thy ===== *)
theory Session
  imports Comet_Server
begin

text \<open>
  The life of a client connection, which \<open>internal/comet/server_tcp.go\<close> and \<open>server_websocket.go\<close> share:
  the goroutine that reads messages, puts their replies into the ring of the channel and signals, and the
  goroutine that waits for signals and writes. The two files differ in how messages are read and written:
  a \<open>transport\<close> is these functions, on the state \<open>'c\<close> of a connection. The clock readings are arguments.
  Log lines and the debug whitelist change no state and are left out.
\<close>

section \<open>State\<close>

record 'c transport =
  tp_Read :: "Proto \<Rightarrow> 'c \<Rightarrow> (error option \<times> Proto \<times> 'c) run"
  tp_Write :: "Proto \<Rightarrow> 'c \<Rightarrow> (error option \<times> 'c) run"
  tp_Heart :: "Proto \<Rightarrow> int32 \<Rightarrow> 'c \<Rightarrow> (error option \<times> 'c) run"
  tp_Flush :: "'c \<Rightarrow> (error option \<times> 'c) run"
  tp_Close :: "'c \<Rightarrow> 'c"

text \<open>
  The variables of the serving function: the channel, its bucket, its timer entry, its two buffers (each
  an index of the round and an address there), the heartbeat interval and the time of the last
  heartbeat that reached the logic service.
\<close>

record session =
  ss_ch :: addr
  ss_b :: nat
  ss_tr :: nat
  ss_trd :: addr
  ss_rp :: nat
  ss_rb :: addr
  ss_wp :: nat
  ss_wb :: addr
  ss_hb :: int
  ss_lastHb :: int
  ss_serverHb :: int

section \<open>Timers and pools of the round\<close>

definition with_timer :: "nat \<Rightarrow> (Timer \<Rightarrow> ('a \<times> Timer) outcome) \<Rightarrow> 'l Server \<Rightarrow> ('a \<times> 'l Server) outcome" where
  "with_timer i f sv =
     obind (f (rn_timers (sv_round sv) ! i))
       (\<lambda>(a, t). Ret (a, sv\<lparr>sv_round := (sv_round sv)\<lparr>rn_timers := (rn_timers (sv_round sv))[i := t]\<rparr>\<rparr>))"

definition timer_set :: "int \<Rightarrow> session \<Rightarrow> 'l Server \<Rightarrow> 'l Server outcome" where
  "timer_set now ss sv =
     obind (with_timer (ss_tr ss) (\<lambda>t. obind (Timer_Set now (ss_trd ss) (ss_hb ss) t) (\<lambda>t'. Ret ((), t'))) sv)
       (\<lambda>(_, sv'). Ret sv')"

definition timer_del :: "nat \<Rightarrow> addr \<Rightarrow> 'l Server \<Rightarrow> 'l Server outcome" where
  "timer_del i trd sv =
     obind (with_timer i (\<lambda>t. obind (Timer_Del trd t) (\<lambda>t'. Ret ((), t'))) sv) (\<lambda>(_, sv'). Ret sv')"

definition reader_get :: "nat \<Rightarrow> 'l Server \<Rightarrow> (addr \<times> 'l Server) outcome" where
  "reader_get i sv =
     obind (Pool_Get (rn_readers (sv_round sv) ! i))
       (\<lambda>(b, p). Ret (b, sv\<lparr>sv_round := (sv_round sv)\<lparr>rn_readers := (rn_readers (sv_round sv))[i := p]\<rparr>\<rparr>))"

definition writer_get :: "nat \<Rightarrow> 'l Server \<Rightarrow> (addr \<times> 'l Server) outcome" where
  "writer_get i sv =
     obind (Pool_Get (rn_writers (sv_round sv) ! i))
       (\<lambda>(b, p). Ret (b, sv\<lparr>sv_round := (sv_round sv)\<lparr>rn_writers := (rn_writers (sv_round sv))[i := p]\<rparr>\<rparr>))"

definition reader_put :: "nat \<Rightarrow> addr \<Rightarrow> 'l Server \<Rightarrow> 'l Server" where
  "reader_put i b sv =
     sv\<lparr>sv_round := (sv_round sv)\<lparr>rn_readers := (rn_readers (sv_round sv))[i := Pool_Put b (rn_readers (sv_round sv) ! i)]\<rparr>\<rparr>"

definition writer_put :: "nat \<Rightarrow> addr \<Rightarrow> 'l Server \<Rightarrow> 'l Server" where
  "writer_put i b sv =
     sv\<lparr>sv_round := (sv_round sv)\<lparr>rn_writers := (rn_writers (sv_round sv))[i := Pool_Put b (rn_writers (sv_round sv) ! i)]\<rparr>\<rparr>"

section \<open>The reading goroutine\<close>

definition ring_upd :: "addr \<Rightarrow> (Ring \<Rightarrow> Ring) \<Rightarrow> 'l Server \<Rightarrow> 'l Server" where
  "ring_upd ch f sv = sv_upd ch (\<lambda>c. c\<lparr>ch_CliProto := f (ch_CliProto c)\<rparr>) sv"

text \<open>
  What the loop does with a message it read: a heartbeat sets the timer anew and, when the last one is
  long ago, tells the logic service; anything else is operated on. \<open>now\<close> and \<open>now2\<close> are the readings of the
  clock in \<open>tr.Set\<close> and for \<open>lastHb\<close>. \<open>None\<close>: \<open>Operate\<close> blocks.
\<close>

definition handle_proto :: "'l LogicClient \<Rightarrow> int \<Rightarrow> int \<Rightarrow> session \<Rightarrow> Proto \<Rightarrow> 'l Server \<Rightarrow> (Proto \<times> session \<times> 'l Server) run" where
  "handle_proto lc now now2 ss p sv =
     (if Op p = OpHeartbeat then
        rbind (Some (timer_set now ss sv)) (\<lambda>sv1.
          let p1 = p\<lparr>Op := OpHeartbeatReply, Body := None\<rparr> in
          if now2 - ss_lastHb ss > ss_serverHb ss then
            (case Server_Heartbeat lc (ch_Mid (sv_chan (ss_ch ss) sv1)) (ch_Key (sv_chan (ss_ch ss) sv1)) sv1 of
               (None, sv2) \<Rightarrow> Some (Ret (p1, ss\<lparr>ss_lastHb := now2\<rparr>, sv2))
             | (Some e, sv2) \<Rightarrow> Some (Ret (p1, ss, sv2)))
          else Some (Ret (p1, ss, sv1)))
      else
        (case Server_Operate lc p (ss_ch ss) (ss_b ss) sv of
           None \<Rightarrow> None
         | Some (p1, sv1) \<Rightarrow> Some (Ret (p1, ss, sv1))))"

text \<open>
  One turn of the loop up to \<open>SetAdv\<close>. An error ends the loop. The message is read into the slot of the
  ring, so also a failed read leaves its traces there.
\<close>

definition serve_read ::
    "'c transport \<Rightarrow> 'l LogicClient \<Rightarrow> int \<Rightarrow> int \<Rightarrow> session \<Rightarrow> 'c \<Rightarrow> 'l Server \<Rightarrow> (error option \<times> session \<times> 'c \<times> 'l Server) run" where
  "serve_read tp lc now now2 ss c sv =
     rbind (Some (Ring_Set (ch_CliProto (sv_chan (ss_ch ss) sv)))) (\<lambda>r.
       case r of
         Inl e \<Rightarrow> Some (Ret (Some e, ss, c, sv))
       | Inr i \<Rightarrow>
           rbind (tp_Read tp (Ring_read i (ch_CliProto (sv_chan (ss_ch ss) sv))) c) (\<lambda>(err, p, c1).
             let sv1 = ring_upd (ss_ch ss) (Ring_write i p) sv in
             if err \<noteq> None then Some (Ret (err, ss, c1, sv1))
             else rbind (handle_proto lc now now2 ss p sv1) (\<lambda>(p1, ss1, sv2).
               Some (Ret (None, ss1, c1, ring_upd (ss_ch ss) (\<lambda>g. Ring_SetAdv (Ring_write i p1 g)) sv2)))))"

text \<open>\<open>ch.Signal()\<close> at the end of the turn, and \<open>ch.Close()\<close> after the loop; both may block.\<close>

definition serve_signal :: "session \<Rightarrow> 'l Server \<Rightarrow> 'l Server option" where
  "serve_signal ss sv = map_option (\<lambda>c. sv_upd (ss_ch ss) (\<lambda>_. c) sv) (Channel_Signal (sv_chan (ss_ch ss) sv))"

definition serve_finish :: "session \<Rightarrow> 'l Server \<Rightarrow> 'l Server option" where
  "serve_finish ss sv = map_option (\<lambda>c. sv_upd (ss_ch ss) (\<lambda>_. c) sv) (Channel_Close (sv_chan (ss_ch ss) sv))"

text \<open>\<open>b.Del(ch)\<close> and \<open>tr.Del(trd)\<close>.\<close>

definition serve_leave :: "session \<Rightarrow> 'l Server \<Rightarrow> 'l Server run" where
  "serve_leave ss sv =
     (case Bucket_Del (ss_ch ss) (sv_buckets sv ! ss_b ss, sv_store sv) of
        None \<Rightarrow> None
      | Some w \<Rightarrow> Some (timer_del (ss_tr ss) (ss_trd ss) (sv_put (ss_b ss) w sv)))"

definition serve_disconnect :: "'l LogicClient \<Rightarrow> session \<Rightarrow> 'l Server \<Rightarrow> 'l Server" where
  "serve_disconnect lc ss sv =
     snd (Server_Disconnect lc (ch_Mid (sv_chan (ss_ch ss) sv)) (ch_Key (sv_chan (ss_ch ss) sv)) sv)"

section \<open>The writing goroutine\<close>

text \<open>
  The inner loop: write every message in the ring. The variable \<open>online\<close> of the goroutine keeps the last
  count of a room the channel was in. \<open>Some e\<close> is the jump to the end with error \<open>e\<close>.
\<close>

definition heart_online :: "addr \<Rightarrow> int32 \<Rightarrow> 'l Server \<Rightarrow> int32" where
  "heart_online ch online sv =
     (case ch_Room (sv_chan ch sv) of None \<Rightarrow> online | Some r \<Rightarrow> Room_OnlineNum r (sv_store sv))"

partial_function (option) write_ring ::
    "'c transport \<Rightarrow> addr \<Rightarrow> int32 \<Rightarrow> 'c \<Rightarrow> 'l Server \<Rightarrow> (error option \<times> int32 \<times> 'c \<times> 'l Server) outcome option" where
  "write_ring tp ch online c sv =
     (case Ring_Get (ch_CliProto (sv_chan ch sv)) of
        Panic x \<Rightarrow> Some (Panic x)
      | Ret (Inl e) \<Rightarrow> Some (Ret (None, online, c, sv))
      | Ret (Inr i) \<Rightarrow>
          (let p = Ring_read i (ch_CliProto (sv_chan ch sv));
               online1 = (if Op p = OpHeartbeatReply then heart_online ch online sv else online) in
           case (if Op p = OpHeartbeatReply then tp_Heart tp p online1 c else tp_Write tp p c) of
             None \<Rightarrow> None
           | Some (Panic x) \<Rightarrow> Some (Panic x)
           | Some (Ret (Some e, c1)) \<Rightarrow> Some (Ret (Some e, online1, c1, sv))
           | Some (Ret (None, c1)) \<Rightarrow>
               write_ring tp ch online1 c1
                 (ring_upd ch (\<lambda>g. Ring_GetAdv (Ring_write i (p\<lparr>Body := None\<rparr>) g)) sv)))"

declare write_ring.simps [code]

datatype dnext = DContinue | DFail error | DFinish

text \<open>One turn of the loop; it waits (\<open>None\<close>) at an empty queue.\<close>

definition dispatch_turn ::
    "'c transport \<Rightarrow> addr \<Rightarrow> int32 \<Rightarrow> 'c \<Rightarrow> 'l Server \<Rightarrow> (dnext \<times> int32 \<times> 'c \<times> 'l Server) run" where
  "dispatch_turn tp ch online c sv =
     (case Channel_Ready (sv_chan ch sv) of
        None \<Rightarrow> None
      | Some (sig, chan) \<Rightarrow>
          let sv1 = sv_upd ch (\<lambda>_. chan) sv;
              flush = (\<lambda>(err, online1, c1, sv2).
                case err of
                  Some e \<Rightarrow> Some (Ret (DFail e, online1, c1, sv2))
                | None \<Rightarrow> rbind (tp_Flush tp c1) (\<lambda>(err, c2).
                    Some (Ret (case err of None \<Rightarrow> DContinue | Some e \<Rightarrow> DFail e, online1, c2, sv2))))
          in (case sig of
                SigFinish \<Rightarrow> Some (Ret (DFinish, online, c, sv1))
              | SigReady \<Rightarrow> rbind (write_ring tp ch online c sv1) flush
              | SigMsg p \<Rightarrow> rbind (tp_Write tp p c) (\<lambda>(err, c1). flush (err, online, c1, sv1))))"

text \<open>After the loop: close the connection and give the buffer back; then discard signals up to the finish.\<close>

definition dispatch_end :: "'c transport \<Rightarrow> session \<Rightarrow> 'c \<Rightarrow> 'l Server \<Rightarrow> 'c \<times> 'l Server" where
  "dispatch_end tp ss c sv = (tp_Close tp c, writer_put (ss_wp ss) (ss_wb ss) sv)"

definition dispatch_drain :: "addr \<Rightarrow> 'l Server \<Rightarrow> (bool \<times> 'l Server) option" where
  "dispatch_drain ch sv =
     map_option (\<lambda>(sig, chan). (sig = SigFinish, sv_upd ch (\<lambda>_. chan) sv)) (Channel_Ready (sv_chan ch sv))"

section \<open>What operations of others leave of a channel\<close>

text \<open>
  The ring and the capacity of every channel stay, and its queue only grows, whatever an operation of
  the bucket does.
\<close>

definition chan_grows :: "Channel \<Rightarrow> Channel \<Rightarrow> bool" where
  "chan_grows c c' \<longleftrightarrow> ch_CliProto c' = ch_CliProto c \<and> ch_cap c' = ch_cap c \<and> (\<exists>q. ch_signal c' = ch_signal c @ q)"

definition queues_kept :: "Store \<Rightarrow> Store \<Rightarrow> bool" where
  "queues_kept s s' \<longleftrightarrow> length (st_ch s') = length (st_ch s) \<and> (\<forall>x. chan_grows (ch_at s x) (ch_at s' x))"

lemma chan_grows_refl [simp]: "chan_grows c c" by (simp add: chan_grows_def)

lemma chan_grows_trans: "chan_grows a b \<Longrightarrow> chan_grows b c \<Longrightarrow> chan_grows a c"
  unfolding chan_grows_def by (metis append.assoc)

lemma queues_kept_refl [simp]: "queues_kept s s" by (simp add: queues_kept_def)

lemma queues_kept_trans: "queues_kept s s' \<Longrightarrow> queues_kept s' s'' \<Longrightarrow> queues_kept s s''"
  unfolding queues_kept_def using chan_grows_trans by metis

lemma kept_ch_set: "chan_grows (ch_at s a) (f (ch_at s a)) \<Longrightarrow> queues_kept s (ch_set a f s)"
  by (cases "a < length (st_ch s)") (auto simp: queues_kept_def ch_at_def ch_set_def nth_list_update list_update_beyond)

lemma kept_rm_set: "queues_kept s (rm_set r g s)" by (simp add: queues_kept_def ch_at_def rm_set_def)

lemma kept_set_opt: "(\<And>a. chan_grows (ch_at s a) (f (ch_at s a))) \<Longrightarrow> queues_kept s (ch_set_opt p f s)"
  by (cases p) (simp_all add: ch_set_opt_def kept_ch_set)

lemma kept_fields:
  "chan_grows c (c\<lparr>ch_Prev := x\<rparr>)" "chan_grows c (c\<lparr>ch_Next := x\<rparr>)" "chan_grows c (c\<lparr>ch_Next := x, ch_Prev := y\<rparr>)"
  "chan_grows c (c\<lparr>ch_Room := x\<rparr>)" "chan_grows c (Channel_Watch ops c)" "chan_grows c (Channel_UnWatch ops c)"
  by (simp_all add: chan_grows_def Channel_Watch_def Channel_UnWatch_def)

text \<open>The same, read from the outside in.\<close>

lemma kept_outer:
  "(\<And>c. chan_grows c (f c)) \<Longrightarrow> queues_kept s t \<Longrightarrow> queues_kept s (ch_set a f t)"
  "queues_kept s t \<Longrightarrow> queues_kept s (rm_set r g t)"
  "(\<And>c. chan_grows c (f c)) \<Longrightarrow> queues_kept s t \<Longrightarrow> queues_kept s (ch_set_opt p f t)"
  by (blast intro: queues_kept_trans kept_ch_set kept_rm_set kept_set_opt)+

lemma kept_Room_Put: "queues_kept s (snd (Room_Put r ch s))"
  unfolding Room_Put_def Let_def
  by (cases "rm_drop (rm_at s r)") (simp_all add: kept_outer kept_fields)

lemma kept_Room_Del: "queues_kept s (snd (Room_Del r ch s))"
  unfolding Room_Del_def Let_def snd_conv
  by (intro kept_outer kept_fields) (simp add: kept_outer kept_fields split: option.split)

lemma kept_NewRoom: "queues_kept s (snd (NewRoom rid s))" by (simp add: NewRoom_def queues_kept_def ch_at_def)

lemma Channel_Close_grows: "Channel_Close c = Some c' \<Longrightarrow> chan_grows c c'"
  by (auto simp: Channel_Close_def chan_send_def chan_grows_def split: if_splits)

lemma kept_Room_Close_loop:
  assumes "Room_Close_loop p s = Some s'"
  shows "queues_kept s s'"
proof (rule Room_Close_loop.raw_induct [OF _ assms])
  fix loop p s s'
  assume IH: "\<And>p s s'. loop p s = Some s' \<Longrightarrow> queues_kept s s'"
    and run: "(case p of None \<Rightarrow> Some s | Some a \<Rightarrow> (case Channel_Close (ch_at s a) of None \<Rightarrow> None
       | Some c \<Rightarrow> (let s1 = ch_set a (\<lambda>_. c) s in loop (ch_Next (ch_at s1 a)) s1))) = Some s'"
  show "queues_kept s s'"
  proof (cases p)
    case None
    then show ?thesis using run by simp
  next
    case (Some a)
    then obtain c where c: "Channel_Close (ch_at s a) = Some c" using run by (auto split: option.splits)
    have "queues_kept s (ch_set a (\<lambda>_. c) s)" using Channel_Close_grows [OF c] by (rule kept_ch_set)
    moreover have "queues_kept (ch_set a (\<lambda>_. c) s) s'" using IH run Some c by (simp add: Let_def)
    ultimately show ?thesis by (rule queues_kept_trans)
  qed
qed

lemma kept_leave_room: "leave_room p ch w = Some w' \<Longrightarrow> queues_kept (snd w) (snd w')"
proof (cases p)
  case (Some r)
  assume l: "leave_room p ch w = Some w'"
  obtain last s where d: "Room_Del r ch (snd w) = (last, s)" by fastforce
  then have k: "queues_kept (snd w) s" using kept_Room_Del [of "snd w" r ch] by simp
  show ?thesis
  proof (cases last)
    case True
    then obtain s' where "Room_Close r s = Some s'" "snd w' = s'"
      using l Some d by (auto simp: leave_room_def Bucket_DelRoom_def Let_def)
    then show ?thesis using k kept_Room_Close_loop queues_kept_trans by (fastforce simp: Room_Close_def)
  next
    case False
    then show ?thesis using l Some d k by (auto simp: leave_room_def)
  qed
qed (auto simp: leave_room_def)

lemma kept_get_room: "queues_kept (snd w) (snd (snd (get_room rid w)))"
  using kept_NewRoom [of "snd w" rid] by (auto simp: get_room_def NewRoom_def Let_def split: option.split)

lemma kept_Bucket_Del: "Bucket_Del ch w = Some w' \<Longrightarrow> queues_kept (snd w) (snd w')"
  using kept_leave_room by (fastforce simp: Bucket_Del_def Let_def)

lemma kept_ChangeRoom:
  assumes "Bucket_ChangeRoom rid ch w = Some (e, w')"
  shows "queues_kept (snd w) (snd w')"
proof (cases "rid = []")
  case True
  then obtain w1 where "leave_room (ch_Room (ch_at (snd w) ch)) ch w = Some w1" "snd w' = ch_set ch (\<lambda>c. c\<lparr>ch_Room := None\<rparr>) (snd w1)"
    using assms by (auto simp: Bucket_ChangeRoom_def)
  then show ?thesis using queues_kept_trans [OF kept_leave_room kept_ch_set] kept_fields(4) by metis
next
  case False
  obtain r w0 where g: "get_room rid w = (r, w0)" by (metis surj_pair)
  then obtain w1 where l: "leave_room (ch_Room (ch_at (snd w) ch)) ch w0 = Some w1"
    using assms False by (auto simp: Bucket_ChangeRoom_def)
  obtain e1 s where p: "Room_Put r ch (snd w1) = (e1, s)" by fastforce
  have "queues_kept (snd w) s"
    using kept_get_room [of w rid] kept_leave_room [OF l] kept_Room_Put [of "snd w1" r ch] g p
    by (auto intro: queues_kept_trans)
  moreover have "queues_kept s (snd w')"
    using assms False g l p kept_ch_set [of s ch "\<lambda>c. c\<lparr>ch_Room := Some r\<rparr>"] kept_fields(4)
    by (auto simp: Bucket_ChangeRoom_def split: option.splits)
  ultimately show ?thesis by (rule queues_kept_trans)
qed

section \<open>The two goroutines together\<close>

datatype rpc = RRead | RSignal | RLeave | RFinish | RDone
datatype dpc = DRun | DDrain | DExit

record ('c, 'l) conn_state =
  cs_ss :: session
  cs_c :: 'c
  cs_sv :: "'l Server"
  cs_online :: int32
  cs_r :: rpc
  cs_d :: dpc

text \<open>
  The end of the reading goroutine: over TCP it gives its buffer back before the finish signal, over
  WebSocket (\<open>early\<close> false) after it.
\<close>

definition serve_end1 :: "bool \<Rightarrow> 'c transport \<Rightarrow> session \<Rightarrow> 'c \<Rightarrow> 'l Server \<Rightarrow> ('c \<times> 'l Server) run" where
  "serve_end1 early tp ss c sv =
     rbind (serve_leave ss sv) (\<lambda>sv1.
       Some (Ret (tp_Close tp c, if early then reader_put (ss_rp ss) (ss_rb ss) sv1 else sv1)))"

definition serve_end2 :: "bool \<Rightarrow> 'l LogicClient \<Rightarrow> session \<Rightarrow> 'l Server \<Rightarrow> 'l Server" where
  "serve_end2 early lc ss sv =
     serve_disconnect lc ss (if early then sv else reader_put (ss_rp ss) (ss_rb ss) sv)"

abbreviation cs_chan :: "('c, 'l) conn_state \<Rightarrow> Channel" where
  "cs_chan s \<equiv> sv_chan (ss_ch (cs_ss s)) (cs_sv s)"

text \<open>
  Steps of the reading goroutine, steps of the writing one, and \<open>other\<close>: whatever else happens in the
  process leaves the ring of this channel alone and puts signals behind its queue, within its capacity
  (pushes, and the finish signal when a new connection takes over its key).
\<close>

inductive conn_step :: "bool \<Rightarrow> 'c transport \<Rightarrow> 'l LogicClient \<Rightarrow> ('c, 'l) conn_state \<Rightarrow> ('c, 'l) conn_state \<Rightarrow> bool"
  for early :: bool and tp :: "'c transport" and lc :: "'l LogicClient" where
  read_ok: "cs_r s = RRead \<Longrightarrow> serve_read tp lc now now2 (cs_ss s) (cs_c s) (cs_sv s) = Some (Ret (None, ss, c, sv)) \<Longrightarrow>
    conn_step early tp lc s (s\<lparr>cs_ss := ss, cs_c := c, cs_sv := sv, cs_r := RSignal\<rparr>)"
| read_err: "cs_r s = RRead \<Longrightarrow> serve_read tp lc now now2 (cs_ss s) (cs_c s) (cs_sv s) = Some (Ret (Some e, ss, c, sv)) \<Longrightarrow>
    conn_step early tp lc s (s\<lparr>cs_ss := ss, cs_c := c, cs_sv := sv, cs_r := RLeave\<rparr>)"
| signal: "cs_r s = RSignal \<Longrightarrow> serve_signal (cs_ss s) (cs_sv s) = Some sv \<Longrightarrow>
    conn_step early tp lc s (s\<lparr>cs_sv := sv, cs_r := RRead\<rparr>)"
| leave: "cs_r s = RLeave \<Longrightarrow> serve_end1 early tp (cs_ss s) (cs_c s) (cs_sv s) = Some (Ret (c, sv)) \<Longrightarrow>
    conn_step early tp lc s (s\<lparr>cs_c := c, cs_sv := sv, cs_r := RFinish\<rparr>)"
| finish: "cs_r s = RFinish \<Longrightarrow> serve_finish (cs_ss s) (cs_sv s) = Some sv \<Longrightarrow>
    conn_step early tp lc s (s\<lparr>cs_sv := serve_end2 early lc (cs_ss s) sv, cs_r := RDone\<rparr>)"
| turn: "cs_d s = DRun \<Longrightarrow> dispatch_turn tp (ss_ch (cs_ss s)) (cs_online s) (cs_c s) (cs_sv s) = Some (Ret (DContinue, on, c, sv)) \<Longrightarrow>
    conn_step early tp lc s (s\<lparr>cs_online := on, cs_c := c, cs_sv := sv\<rparr>)"
| stop: "cs_d s = DRun \<Longrightarrow> dispatch_turn tp (ss_ch (cs_ss s)) (cs_online s) (cs_c s) (cs_sv s) = Some (Ret (n, on, c, sv)) \<Longrightarrow>
    n \<noteq> DContinue \<Longrightarrow> dispatch_end tp (cs_ss s) c sv = (c', sv') \<Longrightarrow>
    conn_step early tp lc s (s\<lparr>cs_online := on, cs_c := c', cs_sv := sv', cs_d := (if n = DFinish then DExit else DDrain)\<rparr>)"
| drain: "cs_d s = DDrain \<Longrightarrow> dispatch_drain (ss_ch (cs_ss s)) (cs_sv s) = Some (fin, sv) \<Longrightarrow>
    conn_step early tp lc s (s\<lparr>cs_sv := sv, cs_d := (if fin then DExit else DDrain)\<rparr>)"
| other: "chan_grows (cs_chan s) (sv_chan (ss_ch (cs_ss s)) sv) \<Longrightarrow>
    length (ch_signal (sv_chan (ss_ch (cs_ss s)) sv)) \<le> max (ch_cap (cs_chan s)) (length (ch_signal (cs_chan s))) \<Longrightarrow>
    length (st_ch (sv_store (cs_sv s))) \<le> length (st_ch (sv_store sv)) \<Longrightarrow>
    conn_step early tp lc s (s\<lparr>cs_sv := sv\<rparr>)"

section \<open>Effects on the channel of the connection\<close>

lemma sv_chan_upd:
  "ch < length (st_ch (sv_store sv)) \<Longrightarrow> sv_chan x (sv_upd ch f sv) = (if x = ch then f (sv_chan ch sv) else sv_chan x sv)"
  "length (st_ch (sv_store (sv_upd ch f sv))) = length (st_ch (sv_store sv))"
  by (simp_all add: sv_chan_def sv_upd_def at_set)

lemma ring_upd_chan:
  "ch < length (st_ch (sv_store sv)) \<Longrightarrow>
   sv_chan ch (ring_upd ch f sv) = (sv_chan ch sv)\<lparr>ch_CliProto := f (ch_CliProto (sv_chan ch sv))\<rparr>"
  "length (st_ch (sv_store (ring_upd ch f sv))) = length (st_ch (sv_store sv))"
  by (simp_all add: ring_upd_def sv_chan_upd)

text \<open>\<open>sv_kept\<close>: the store only changed as operations of others may change it.\<close>

definition sv_kept :: "'l Server \<Rightarrow> 'l Server \<Rightarrow> bool" where
  "sv_kept sv sv' \<longleftrightarrow> queues_kept (sv_store sv) (sv_store sv')"

lemma sv_kept_chan: "sv_kept sv sv' \<Longrightarrow> chan_grows (sv_chan x sv) (sv_chan x sv')"
  by (simp add: sv_kept_def queues_kept_def sv_chan_def)

lemma sv_kept_len: "sv_kept sv sv' \<Longrightarrow> length (st_ch (sv_store sv')) = length (st_ch (sv_store sv))"
  by (simp add: sv_kept_def queues_kept_def)

lemma sv_kept_store: "sv_store sv' = sv_store sv \<Longrightarrow> sv_kept sv sv'" by (simp add: sv_kept_def)

lemma with_timer_store: "with_timer i f sv = Ret (a, sv') \<Longrightarrow> sv_store sv' = sv_store sv"
  by (auto simp: with_timer_def outcome_simps)

lemma timer_store:
  "timer_set now ss sv = Ret sv' \<Longrightarrow> sv_store sv' = sv_store sv" "timer_del i td sv = Ret sv' \<Longrightarrow> sv_store sv' = sv_store sv"
  by (auto simp: timer_set_def timer_del_def outcome_simps dest: with_timer_store)

lemma Server_calls_store [simp]:
  "sv_store (snd (Server_Heartbeat lc mid key sv)) = sv_store sv" "sv_store (snd (Server_Receive lc mid p sv)) = sv_store sv"
  "sv_store (snd (Server_Disconnect lc mid key sv)) = sv_store sv"
  by (simp_all add: Server_Heartbeat_def Server_Receive_def Server_Disconnect_def Let_def split: prod.split)

lemma Operate_kept:
  assumes "Server_Operate lc p ch i sv = Some (p', sv')"
  shows "sv_kept sv sv'"
proof -
  have w: "sv_kept sv (sv_upd ch (Channel_Watch ops) sv)" "sv_kept sv (sv_upd ch (Channel_UnWatch ops) sv)" for ops
    by (simp_all add: sv_kept_def sv_upd_def kept_ch_set kept_fields)
  have c: "sv_kept sv (sv_put i w' sv)" if "Bucket_ChangeRoom rid ch (b, sv_store sv) = Some (e, w')" for rid b e w'
    using kept_ChangeRoom [OF that] by (simp add: sv_kept_def sv_put_def)
  consider "Op p = OpChangeRoom" | "Op p \<noteq> OpChangeRoom" "Op p = OpSub" | "Op p \<noteq> OpChangeRoom" "Op p \<noteq> OpSub" "Op p = OpUnsub"
    | "Op p \<noteq> OpChangeRoom" "Op p \<noteq> OpSub" "Op p \<noteq> OpUnsub" by blast
  then show ?thesis
  proof cases
    case 1
    then show ?thesis using assms c by (auto simp: Server_Operate_def)
  next
    case 4
    then show ?thesis using assms by (auto simp: Server_Operate_def intro: sv_kept_store)
  qed (use assms w in \<open>auto simp: Server_Operate_def sv_kept_store split: sum.splits\<close>)
qed

lemma handle_proto_kept:
  assumes "handle_proto lc now now2 ss p sv = Some (Ret (p', ss', sv'))"
  shows "sv_kept sv sv' \<and> ss_ch ss' = ss_ch ss"
proof (cases "Op p = OpHeartbeat")
  case True
  then obtain sv1 where t: "timer_set now ss sv = Ret sv1" using assms by (auto simp: handle_proto_def outcome_simps)
  obtain e sv2 where h: "Server_Heartbeat lc (ch_Mid (sv_chan (ss_ch ss) sv1)) (ch_Key (sv_chan (ss_ch ss) sv1)) sv1 = (e, sv2)" by fastforce
  have "sv_store sv2 = sv_store sv1"
    using Server_calls_store(1) [of lc "ch_Mid (sv_chan (ss_ch ss) sv1)" "ch_Key (sv_chan (ss_ch ss) sv1)" sv1] by (simp add: h)
  then have "sv_store sv' = sv_store sv \<and> ss_ch ss' = ss_ch ss"
    using assms True t h timer_store(1) [OF t] by (cases e) (auto simp: handle_proto_def Let_def split: if_splits)
  then show ?thesis by (simp add: sv_kept_store)
next
  case False
  then show ?thesis using assms Operate_kept by (auto simp: handle_proto_def split: option.splits)
qed

text \<open>A turn of the reading goroutine adds one message to the ring, or none when it ends with an error.\<close>

lemma serve_read_effect:
  assumes run: "serve_read tp lc now now2 ss c sv = Some (Ret (e, ss', c', sv'))"
    and lt: "ss_ch ss < length (st_ch (sv_store sv))" and ok: "Ring_ok (ch_CliProto (sv_chan (ss_ch ss) sv))"
  shows "ss_ch ss' = ss_ch ss \<and> length (st_ch (sv_store sv')) = length (st_ch (sv_store sv)) \<and>
    Ring_ok (ch_CliProto (sv_chan (ss_ch ss) sv')) \<and> ch_cap (sv_chan (ss_ch ss) sv') = ch_cap (sv_chan (ss_ch ss) sv) \<and>
    (\<exists>q. ch_signal (sv_chan (ss_ch ss) sv') = ch_signal (sv_chan (ss_ch ss) sv) @ q) \<and>
    (\<exists>ps. length ps = (if e = None then 1 else 0) \<and>
       Ring_contents (ch_CliProto (sv_chan (ss_ch ss) sv')) = Ring_contents (ch_CliProto (sv_chan (ss_ch ss) sv)) @ ps)"
proof -
  let ?ch = "ss_ch ss" and ?r = "ch_CliProto (sv_chan (ss_ch ss) sv)"
  show ?thesis
  proof (cases "Ring_Set ?r")
    case (Panic x)
    then show ?thesis using run by (simp add: serve_read_def)
  next
    case (Ret z)
    show ?thesis
    proof (cases z)
      case (Inl err)
      then show ?thesis using run Ret ok by (auto simp: serve_read_def)
    next
      case (Inr i)
      then have set: "Ring_Set ?r = Ret (Inr i)" using Ret by simp
      obtain e1 p c1 where rd: "tp_Read tp (Ring_read i ?r) c = Some (Ret (e1, p, c1))"
        using run set by (auto simp: serve_read_def outcome_simps)
      define sv1 where "sv1 = ring_upd ?ch (Ring_write i p) sv"
      have c1: "sv_chan ?ch sv1 = (sv_chan ?ch sv)\<lparr>ch_CliProto := Ring_write i p ?r\<rparr>"
        "length (st_ch (sv_store sv1)) = length (st_ch (sv_store sv))" using lt by (simp_all add: sv1_def ring_upd_chan)
      note w1 = Ring_Set_write [OF ok set, of p]
      show ?thesis
      proof (cases "e1 = None")
        case False
        then have "e = e1" "ss' = ss" "sv' = sv1" using run set rd by (auto simp: serve_read_def sv1_def Let_def)
        then show ?thesis using c1 w1 False by simp
      next
        case True
        then obtain p1 sv2 where h: "handle_proto lc now now2 ss p sv1 = Some (Ret (p1, ss', sv2))" and e: "e = None"
          and sv': "sv' = ring_upd ?ch (\<lambda>g. Ring_SetAdv (Ring_write i p1 g)) sv2"
          using run set rd by (auto simp: serve_read_def sv1_def Let_def outcome_simps)
        have k: "sv_kept sv1 sv2" "ss_ch ss' = ?ch" using handle_proto_kept [OF h] by auto
        have gr: "chan_grows (sv_chan ?ch sv1) (sv_chan ?ch sv2)" using sv_kept_chan [OF k(1)] .
        have lt2: "?ch < length (st_ch (sv_store sv2))" using sv_kept_len [OF k(1)] c1 lt by simp
        have r2: "ch_CliProto (sv_chan ?ch sv2) = Ring_write i p ?r" using gr c1 by (simp add: chan_grows_def)
        have "Ring_put p1 (Ring_write i p ?r) = Some (Ring_SetAdv (Ring_write i p1 (Ring_write i p ?r)))" using w1 by (simp add: Ring_put_def)
        then have "Ring_ok (Ring_SetAdv (Ring_write i p1 (Ring_write i p ?r)))"
          "Ring_contents (Ring_SetAdv (Ring_write i p1 (Ring_write i p ?r))) = Ring_contents ?r @ [p1]"
          using ring.put_some [of "Ring_write i p ?r"] w1 by auto
        moreover have "ch_CliProto (sv_chan ?ch sv') = Ring_SetAdv (Ring_write i p1 (Ring_write i p ?r))"
          "ch_signal (sv_chan ?ch sv') = ch_signal (sv_chan ?ch sv2)" "ch_cap (sv_chan ?ch sv') = ch_cap (sv_chan ?ch sv)"
          "length (st_ch (sv_store sv')) = length (st_ch (sv_store sv))"
          using sv' ring_upd_chan(1) [OF lt2] r2 gr c1 sv_kept_len [OF k(1)] by (simp_all add: chan_grows_def ring_upd_chan(2))
        moreover have "\<exists>q. ch_signal (sv_chan ?ch sv2) = ch_signal (sv_chan ?ch sv) @ q" using gr c1 by (simp add: chan_grows_def)
        ultimately show ?thesis using e k(2) by (auto intro: exI [of _ "[p1]"])
      qed
    qed
  qed
qed

text \<open>The inner loop of the writing goroutine empties the ring, unless a write fails.\<close>

lemma write_ring_effect:
  assumes "write_ring tp ch online c sv = Some (Ret (e, on', c', sv'))"
    and "ch < length (st_ch (sv_store sv))" and "Ring_ok (ch_CliProto (sv_chan ch sv))"
  shows "length (st_ch (sv_store sv')) = length (st_ch (sv_store sv)) \<and> Ring_ok (ch_CliProto (sv_chan ch sv')) \<and>
    ch_cap (sv_chan ch sv') = ch_cap (sv_chan ch sv) \<and> ch_signal (sv_chan ch sv') = ch_signal (sv_chan ch sv) \<and>
    (\<exists>k. Ring_contents (ch_CliProto (sv_chan ch sv')) = drop k (Ring_contents (ch_CliProto (sv_chan ch sv)))) \<and>
    (e = None \<longrightarrow> Ring_contents (ch_CliProto (sv_chan ch sv')) = [])"
  using assms
proof (induction "length (Ring_contents (ch_CliProto (sv_chan ch sv)))" arbitrary: online c sv)
  case 0
  then have "Ring_Get (ch_CliProto (sv_chan ch sv)) = Ret (Inl (Comet ErrRingEmpty))" using Ring_Get_cases(1) by simp
  then have "e = None" "sv' = sv" using 0 by (simp_all add: write_ring.simps [of tp ch online])
  then show ?case using 0 by (auto intro: exI [of _ 0])
next
  case (Suc n)
  let ?r = "ch_CliProto (sv_chan ch sv)"
  have ne: "Ring_contents ?r \<noteq> []" using Suc.hyps(2) by auto
  then have g: "Ring_Get ?r = Ret (Inr (Ring_slot ?r 0))" using Ring_Get_cases(1) [OF Suc.prems(3)] by simp
  define p where "p = Ring_read (Ring_slot ?r 0) ?r"
  define on1 where "on1 = (if Op p = OpHeartbeatReply then heart_online ch online sv else online)"
  define w where "w = (if Op p = OpHeartbeatReply then tp_Heart tp p on1 c else tp_Write tp p c)"
  define sv1 where "sv1 = ring_upd ch (\<lambda>g. Ring_GetAdv (Ring_write (Ring_slot ?r 0) (p\<lparr>Body := None\<rparr>) g)) sv"
  have eq: "write_ring tp ch online c sv = (case w of None \<Rightarrow> None | Some (Panic x) \<Rightarrow> Some (Panic x)
      | Some (Ret (Some e, c1)) \<Rightarrow> Some (Ret (Some e, on1, c1, sv)) | Some (Ret (None, c1)) \<Rightarrow> write_ring tp ch on1 c1 sv1)"
    by (subst write_ring.simps) (simp only: g outcome.case sum.case Let_def p_def [symmetric] on1_def [symmetric] w_def [symmetric] sv1_def [symmetric])
  note t = Ring_take_write [OF Suc.prems(3) ne, of "p\<lparr>Body := None\<rparr>"]
  have c1: "sv_chan ch sv1 = (sv_chan ch sv)\<lparr>ch_CliProto := Ring_GetAdv (Ring_write (Ring_slot ?r 0) (p\<lparr>Body := None\<rparr>) ?r)\<rparr>"
    "length (st_ch (sv_store sv1)) = length (st_ch (sv_store sv))" using Suc.prems(2) by (simp_all add: sv1_def ring_upd_chan)
  obtain e1 cc where w1: "w = Some (Ret (e1, cc))"
    using Suc.prems(1) unfolding eq by (auto split: option.splits outcome.splits)
  show ?case
  proof (cases e1)
    case (Some x)
    then have "e = Some x" "sv' = sv" using Suc.prems(1) unfolding eq w1 by simp_all
    then show ?thesis using Suc.prems(3) by (auto intro: exI [of _ 0])
  next
    case None
    then have run: "write_ring tp ch on1 cc sv1 = Some (Ret (e, on', c', sv'))" using Suc.prems(1) unfolding eq w1 by simp
    have "n = length (Ring_contents (ch_CliProto (sv_chan ch sv1)))" using c1 t Suc.hyps(2) by simp
    from Suc.hyps(1) [OF this run] obtain k where
      ih: "length (st_ch (sv_store sv')) = length (st_ch (sv_store sv))" "Ring_ok (ch_CliProto (sv_chan ch sv'))"
        "ch_cap (sv_chan ch sv') = ch_cap (sv_chan ch sv)" "ch_signal (sv_chan ch sv') = ch_signal (sv_chan ch sv)"
        "Ring_contents (ch_CliProto (sv_chan ch sv')) = drop k (tl (Ring_contents ?r))"
        "e = None \<longrightarrow> Ring_contents (ch_CliProto (sv_chan ch sv')) = []"
      using c1 t Suc.prems(2) by auto
    then show ?thesis by (simp add: drop_Suc [symmetric]) blast
  qed
qed

text \<open>A turn of the writing goroutine takes one signal; on \<open>ProtoReady\<close> it empties the ring or fails.\<close>

lemma dispatch_turn_effect:
  assumes run: "dispatch_turn tp ch online c sv = Some (Ret (n, on', c', sv'))"
    and lt: "ch < length (st_ch (sv_store sv))" and ok: "Ring_ok (ch_CliProto (sv_chan ch sv))"
  shows "\<exists>sig q. ch_signal (sv_chan ch sv) = sig # q \<and> ch_signal (sv_chan ch sv') = q \<and>
    ch_cap (sv_chan ch sv') = ch_cap (sv_chan ch sv) \<and> length (st_ch (sv_store sv')) = length (st_ch (sv_store sv)) \<and>
    Ring_ok (ch_CliProto (sv_chan ch sv')) \<and>
    (sig = SigReady \<longrightarrow> n = DContinue \<longrightarrow> Ring_contents (ch_CliProto (sv_chan ch sv')) = []) \<and>
    (sig \<noteq> SigReady \<longrightarrow> ch_CliProto (sv_chan ch sv') = ch_CliProto (sv_chan ch sv)) \<and> (n = DFinish \<longleftrightarrow> sig = SigFinish)"
proof -
  obtain sig q where sq: "ch_signal (sv_chan ch sv) = sig # q"
    using run by (cases "ch_signal (sv_chan ch sv)") (auto simp: dispatch_turn_def Channel_Ready_def)
  define sv1 where "sv1 = sv_upd ch (\<lambda>_. (sv_chan ch sv)\<lparr>ch_signal := q\<rparr>) sv"
  have c1: "sv_chan ch sv1 = (sv_chan ch sv)\<lparr>ch_signal := q\<rparr>" "length (st_ch (sv_store sv1)) = length (st_ch (sv_store sv))"
    using lt by (simp_all add: sv1_def sv_chan_upd)
  have rdy: "Channel_Ready (sv_chan ch sv) = Some (sig, (sv_chan ch sv)\<lparr>ch_signal := q\<rparr>)" using sq by (simp add: Channel_Ready_def)
  have ok1: "Ring_ok (ch_CliProto (sv_chan ch sv1))" "ch < length (st_ch (sv_store sv1))" using ok lt c1 by simp_all
  show ?thesis
  proof (cases sig)
    case SigFinish
    then have "n = DFinish" "sv' = sv1" using run rdy by (auto simp: dispatch_turn_def sv1_def Let_def)
    then show ?thesis using SigFinish sq c1 ok by (intro exI [of _ sig] exI [of _ q]) simp
  next
    case SigReady
    then obtain e on1 cc sv2 where w: "write_ring tp ch online c sv1 = Some (Ret (e, on1, cc, sv2))" and s: "sv' = sv2"
      and n: "n \<noteq> DFinish" "e \<noteq> None \<longrightarrow> n \<noteq> DContinue"
      using run rdy by (auto simp: dispatch_turn_def sv1_def Let_def outcome_simps split: option.splits)
    from write_ring_effect [OF w ok1(2,1)] show ?thesis
      using SigReady sq c1 s n by (intro exI [of _ sig] exI [of _ q]) auto
  next
    case (SigMsg p)
    then have "sv' = sv1" "n \<noteq> DFinish" using run rdy by (auto simp: dispatch_turn_def sv1_def Let_def outcome_simps split: option.splits)
    then show ?thesis using SigMsg sq c1 ok by (intro exI [of _ sig] exI [of _ q]) simp
  qed
qed

section \<open>No wake-up is lost\<close>

definition conn_inv :: "('c, 'l) conn_state \<Rightarrow> bool" where
  "conn_inv s \<longleftrightarrow> ss_ch (cs_ss s) < length (st_ch (sv_store (cs_sv s))) \<and> Ring_ok (ch_CliProto (cs_chan s)) \<and>
     (cs_d s = DRun \<longrightarrow> Ring_contents (ch_CliProto (cs_chan s)) \<noteq> [] \<longrightarrow> cs_r s = RSignal \<or> SigReady \<in> set (ch_signal (cs_chan s)))"

lemma conn_invI:
  assumes "ss_ch ss < length (st_ch (sv_store sv))" and "Ring_ok (ch_CliProto (sv_chan (ss_ch ss) sv))"
    and "d = DRun \<Longrightarrow> Ring_contents (ch_CliProto (sv_chan (ss_ch ss) sv)) \<noteq> [] \<Longrightarrow> r = RSignal \<or> SigReady \<in> set (ch_signal (sv_chan (ss_ch ss) sv))"
  shows "conn_inv \<lparr>cs_ss = ss, cs_c = c, cs_sv = sv, cs_online = on, cs_r = r, cs_d = d\<rparr>"
  using assms by (simp add: conn_inv_def)

lemma reader_put_store [simp]: "sv_store (reader_put i b sv) = sv_store sv" "sv_store (writer_put i b sv) = sv_store sv"
  by (simp_all add: reader_put_def writer_put_def)

lemma sv_chan_store: "sv_store sv' = sv_store sv \<Longrightarrow> sv_chan x sv' = sv_chan x sv" by (simp add: sv_chan_def)

lemma serve_end1_kept: "serve_end1 early tp ss c sv = Some (Ret (c', sv')) \<Longrightarrow> sv_kept sv sv'"
proof -
  assume run: "serve_end1 early tp ss c sv = Some (Ret (c', sv'))"
  then obtain w sv1 where w: "Bucket_Del (ss_ch ss) (sv_buckets sv ! ss_b ss, sv_store sv) = Some w"
    and t: "timer_del (ss_tr ss) (ss_trd ss) (sv_put (ss_b ss) w sv) = Ret sv1" and s: "sv_store sv' = sv_store sv1"
    by (auto simp: serve_end1_def serve_leave_def outcome_simps split: option.splits)
  have "sv_store sv1 = snd w" using timer_store(2) [OF t] by (simp add: sv_put_def)
  then show ?thesis using kept_Bucket_Del [OF w] s by (simp add: sv_kept_def)
qed

lemma serve_end2_store: "sv_store (serve_end2 early lc ss sv) = sv_store sv"
  by (simp add: serve_end2_def serve_disconnect_def)

text \<open>Steps that only let the queue of the channel grow keep the invariant.\<close>

lemma conn_inv_grows:
  assumes "conn_inv s" and "chan_grows (cs_chan s) (sv_chan (ss_ch (cs_ss s)) sv)"
    and "length (st_ch (sv_store (cs_sv s))) \<le> length (st_ch (sv_store sv))" and "r = cs_r s \<or> cs_r s \<noteq> RSignal"
  shows "conn_inv (s\<lparr>cs_c := c, cs_sv := sv, cs_r := r\<rparr>)"
  using assms by (auto simp: conn_inv_def chan_grows_def)

lemma conn_step_inv:
  assumes "conn_step early tp lc s s'" and inv: "conn_inv s"
  shows "conn_inv s'"
  using assms
proof (induction rule: conn_step.induct)
  case (read_ok s now now2 ss c sv)
  have pre: "ss_ch (cs_ss s) < length (st_ch (sv_store (cs_sv s)))" "Ring_ok (ch_CliProto (cs_chan s))"
    using read_ok.prems by (auto simp: conn_inv_def)
  show ?case using serve_read_effect [OF read_ok.hyps(2) pre] pre by (auto simp: conn_inv_def)
next
  case (read_err s now now2 e ss c sv)
  have pre: "ss_ch (cs_ss s) < length (st_ch (sv_store (cs_sv s)))" "Ring_ok (ch_CliProto (cs_chan s))"
    using read_err.prems by (auto simp: conn_inv_def)
  show ?case using serve_read_effect [OF read_err.hyps(2) pre] pre read_err by (auto simp: conn_inv_def)
next
  case (signal s sv)
  then obtain ch where c: "Channel_Signal (cs_chan s) = Some ch" "sv = sv_upd (ss_ch (cs_ss s)) (\<lambda>_. ch) (cs_sv s)"
    by (auto simp: serve_signal_def)
  then have "ch_CliProto ch = ch_CliProto (cs_chan s)" "SigReady \<in> set (ch_signal ch)"
    by (auto simp: Channel_Signal_def chan_send_def split: if_splits)
  then show ?case using signal c by (simp add: conn_inv_def sv_chan_upd)
next
  case (leave s c sv)
  have k: "sv_kept (cs_sv s) sv" using serve_end1_kept [OF leave.hyps(2)] .
  then show ?case
    using conn_inv_grows [OF leave.prems, of sv RFinish c] sv_kept_chan [OF k] sv_kept_len [OF k] leave.hyps(1) by simp
next
  case (finish s sv)
  then obtain ch where c: "Channel_Close (cs_chan s) = Some ch" "sv = sv_upd (ss_ch (cs_ss s)) (\<lambda>_. ch) (cs_sv s)"
    by (auto simp: serve_finish_def)
  let ?sv = "serve_end2 early lc (cs_ss s) sv"
  have "sv_chan (ss_ch (cs_ss s)) ?sv = ch" "length (st_ch (sv_store ?sv)) = length (st_ch (sv_store (cs_sv s)))"
    using finish.prems c sv_chan_store [OF serve_end2_store, of _ early lc "cs_ss s" sv] serve_end2_store [of early lc "cs_ss s" sv]
    by (simp_all add: conn_inv_def sv_chan_upd)
  then show ?case
    using conn_inv_grows [OF finish.prems, of ?sv RDone "cs_c s"] Channel_Close_grows [OF c(1)] finish.hyps(1) by simp
next
  case (turn s on c sv)
  have pre: "ss_ch (cs_ss s) < length (st_ch (sv_store (cs_sv s)))" "Ring_ok (ch_CliProto (cs_chan s))"
    using turn.prems by (auto simp: conn_inv_def)
  show ?case using dispatch_turn_effect [OF turn.hyps(2) pre] turn by (auto simp: conn_inv_def)
next
  case (stop s n on c sv c' sv')
  have pre: "ss_ch (cs_ss s) < length (st_ch (sv_store (cs_sv s)))" "Ring_ok (ch_CliProto (cs_chan s))"
    using stop.prems by (auto simp: conn_inv_def)
  have "sv_store sv' = sv_store sv" using stop.hyps(4) by (auto simp: dispatch_end_def)
  then show ?case using dispatch_turn_effect [OF stop.hyps(2) pre] pre by (auto simp: conn_inv_def sv_chan_def)
next
  case (drain s fin sv)
  then obtain sg ch where c: "Channel_Ready (cs_chan s) = Some (sg, ch)" "sv = sv_upd (ss_ch (cs_ss s)) (\<lambda>_. ch) (cs_sv s)"
    by (auto simp: dispatch_drain_def)
  then have "ch_CliProto ch = ch_CliProto (cs_chan s)" by (auto simp: Channel_Ready_def split: list.splits)
  then show ?case using drain c by (simp add: conn_inv_def sv_chan_upd)
next
  case (other s sv)
  then show ?case using conn_inv_grows [of s sv "cs_r s" "cs_c s"] by simp
qed

lemma conn_steps_inv: "(conn_step early tp lc)\<^sup>*\<^sup>* s s' \<Longrightarrow> conn_inv s \<Longrightarrow> conn_inv s'"
  by (induction rule: rtranclp_induct) (auto intro: conn_step_inv)

section \<open>A reader that waits for ever\<close>

text \<open>Once the writing goroutine is gone, nobody takes signals from the queue.\<close>

definition signal_stuck :: "('c, 'l) conn_state \<Rightarrow> bool" where
  "signal_stuck s \<longleftrightarrow> cs_d s = DExit \<and> cs_r s = RSignal \<and> ch_cap (cs_chan s) \<le> length (ch_signal (cs_chan s))"

inductive_cases conn_stepE: "conn_step early tp lc s s'"

lemma signal_stuck_step:
  assumes "conn_step early tp lc s s'" and "signal_stuck s"
  shows "signal_stuck s'"
  using assms(1)
proof cases
  case (signal sv)
  then show ?thesis using assms(2) by (auto simp: signal_stuck_def serve_signal_def Channel_Signal_def chan_send_def)
next
  case (other sv)
  then show ?thesis using assms(2) by (auto simp: signal_stuck_def chan_grows_def)
qed (use assms(2) in \<open>auto simp: signal_stuck_def\<close>)

lemma signal_stuck_for_ever:
  "(conn_step early tp lc)\<^sup>*\<^sup>* s s' \<Longrightarrow> signal_stuck s \<Longrightarrow> signal_stuck s'"
  by (induction rule: rtranclp_induct) (auto intro: signal_stuck_step)

section \<open>Properties\<close>


definition demo_session :: session where
  "demo_session = \<lparr>ss_ch = 0, ss_b = 0, ss_tr = 0, ss_trd = 0, ss_rp = 0, ss_rb = 0, ss_wp = 0, ss_wb = 0,
     ss_hb = 10, ss_lastHb = 0, ss_serverHb = 100\<rparr>"

text \<open>A transport that reads the messages of a list and remembers what it wrote.\<close>

definition list_transport :: "(Proto list \<times> Proto list) transport" where
  "list_transport =
     \<lparr>tp_Read = (\<lambda>q c. case fst c of [] \<Rightarrow> Some (Ret (Some (IO EOF), q, c)) | p # ps \<Rightarrow> Some (Ret (None, p, ps, snd c))),
      tp_Write = (\<lambda>p c. Some (Ret (None, fst c, snd c @ [p]))),
      tp_Heart = (\<lambda>p on c. Some (Ret (None, fst c, snd c @ [p]))),
      tp_Flush = (\<lambda>c. Some (Ret (None, c))), tp_Close = (\<lambda>c. ([], snd c))\<rparr>"

definition demo_client :: "unit LogicClient" where
  "demo_client = \<lparr>lc_Connect = (\<lambda>_ _ _ l. (Inl (Comet ErrLogic), l)), lc_Disconnect = (\<lambda>_ _ _ l. (None, l)),
     lc_Heartbeat = (\<lambda>_ _ _ l. (None, l)), lc_RenewOnline = (\<lambda>_ _ l. (Inr [], l)), lc_Receive = (\<lambda>_ _ l. (None, l))\<rparr>"

definition demo_conn :: "signal list \<Rightarrow> rpc \<Rightarrow> (Proto list \<times> Proto list, unit) conn_state" where
  "demo_conn q r = \<lparr>cs_ss = demo_session, cs_c = ([Proto_zero\<lparr>Op := OpSendMsg\<rparr>], []),
     cs_sv = demo_server demo_bucket (demo_store\<lparr>st_ch := [(NewChannel 1 2)\<lparr>ch_signal := q\<rparr>]\<rparr>), cs_online = 0, cs_r = r, cs_d = DRun\<rparr>"

lemma demo_conn_start:
  "ss_ch (cs_ss (demo_conn q r)) < length (st_ch (sv_store (cs_sv (demo_conn q r))))"
  "Ring_ok (ch_CliProto (cs_chan (demo_conn q r)))" "Ring_contents (ch_CliProto (cs_chan (demo_conn q r))) = []"
proof -
  have "ch_CliProto (cs_chan (demo_conn q r)) = NewRing 1"
    by (simp add: demo_conn_def demo_session_def demo_server_def sv_chan_def ch_at_def NewChannel_def Ring_Init_def NewRing_def)
  then show "Ring_ok (ch_CliProto (cs_chan (demo_conn q r)))" "Ring_contents (ch_CliProto (cs_chan (demo_conn q r))) = []"
    using NewRing_ok [of 1] by simp_all
qed (simp add: demo_conn_def demo_session_def demo_server_def)




end
