(* ===== verification/Serve_TCP.thy ===== *)
theory Serve_TCP
  imports Session
begin

text \<open>
  \<open>internal/comet/server_tcp.go\<close>: the handshake of a connection, which is over WebSocket the same but for
  the transport, and the functions of the TCP server as instances of the session. Accepting and the
  socket options are I/O; what \<open>acceptTCP\<close> computes is the number of the connection.
\<close>

section \<open>Authentication\<close>

text \<open>The loop that waits for the authentication message; a client that sends others for ever keeps it going.\<close>

partial_function (option) auth_loop ::
    "'c transport \<Rightarrow> Proto \<Rightarrow> 'c \<Rightarrow> (error option \<times> Proto \<times> 'c) outcome option" where
  "auth_loop tp p c =
     (case tp_Read tp p c of
        None \<Rightarrow> None
      | Some (Panic x) \<Rightarrow> Some (Panic x)
      | Some (Ret (Some e, p1, c1)) \<Rightarrow> Some (Ret (Some e, p1, c1))
      | Some (Ret (None, p1, c1)) \<Rightarrow> if Op p1 = OpAuth then Some (Ret (None, p1, c1)) else auth_loop tp p1 c1)"

declare auth_loop.simps [code]

definition no_reply :: ConnectReply where
  "no_reply = \<lparr>cr_Mid = 0, cr_Key = [], cr_RoomID = [], cr_Accepts = [], cr_Heartbeat = 0\<rparr>"

text \<open>The reply is part of the result also when sending the answer fails.\<close>

definition auth ::
    "'c transport \<Rightarrow> 'l LogicClient \<Rightarrow> string \<Rightarrow> Proto \<Rightarrow> 'c \<Rightarrow> 'l Server \<Rightarrow>
     (error option \<times> ConnectReply \<times> Proto \<times> 'c \<times> 'l Server) run" where
  "auth tp lc cookie p c sv =
     rbind (auth_loop tp p c) (\<lambda>(err, p1, c1).
       if err \<noteq> None then Some (Ret (err, no_reply, p1, c1, sv))
       else case Server_Connect lc p1 cookie sv of
         (Inl e, sv1) \<Rightarrow> Some (Ret (Some e, no_reply, p1, c1, sv1))
       | (Inr reply, sv1) \<Rightarrow>
           let p2 = p1\<lparr>Op := OpAuthReply, Body := Some (go_bytes (cr_Key reply))\<rparr> in
           rbind (tp_Write tp p2 c1) (\<lambda>(err, c2).
             if err \<noteq> None then Some (Ret (err, reply, p2, c2, sv1))
             else rbind (tp_Flush tp c2) (\<lambda>(err, c3). Some (Ret (err, reply, p2\<lparr>Body := None\<rparr>, c3, sv1)))))"

section \<open>The handshake\<close>

text \<open>
  From the first slot of the ring (\<open>must not setadv, only used in auth\<close>) to \<open>b.Put\<close>: an error or the
  reply and the number of the bucket. \<open>Put\<close> may wait for an old channel.
\<close>

definition handshake ::
    "(byte list \<Rightarrow> 32 word \<Rightarrow> 32 word) \<Rightarrow> 'c transport \<Rightarrow> 'l LogicClient \<Rightarrow> string \<Rightarrow> addr \<Rightarrow> 'c \<Rightarrow> 'l Server \<Rightarrow>
     ((error + (ConnectReply \<times> nat)) \<times> 'c \<times> 'l Server) run" where
  "handshake hash tp lc cookie ch c sv =
     rbind (Some (Ring_Set (ch_CliProto (sv_chan ch sv)))) (\<lambda>slot.
       case slot of
         Inl e \<Rightarrow> Some (Ret (Inl e, c, sv))
       | Inr i \<Rightarrow>
           rbind (auth tp lc cookie (Ring_read i (ch_CliProto (sv_chan ch sv))) c sv) (\<lambda>(err, reply, p, c1, sv1).
             let sv2 = sv_upd ch (\<lambda>x. x\<lparr>ch_Mid := cr_Mid reply, ch_Key := cr_Key reply\<rparr>) (ring_upd ch (Ring_write i p) sv1) in
             case err of
               Some e \<Rightarrow> Some (Ret (Inl e, c1, sv2))
             | None \<Rightarrow>
                 let sv3 = sv_upd ch (Channel_Watch (cr_Accepts reply)) sv2 in
                 rbind (Some (Server_Bucket hash (cr_Key reply) sv3)) (\<lambda>b.
                   case Bucket_Put (cr_RoomID reply) ch (sv_buckets sv3 ! b, sv_store sv3) of
                     None \<Rightarrow> None
                   | Some (Some e, w) \<Rightarrow> Some (Ret (Inl e, c1, sv_put b w sv3))
                   | Some (None, w) \<Rightarrow> Some (Ret (Inr (reply, b), c1, sv_put b w sv3)))))"

text \<open>
  A failed handshake closes the connection and gives back what it took; otherwise the timer entry gets
  the key and the heartbeat interval, and the session starts.
\<close>

definition serve_begin ::
    "'c transport \<Rightarrow> int \<Rightarrow> session \<Rightarrow> (error + (ConnectReply \<times> nat)) \<times> 'c \<times> 'l Server \<Rightarrow> ((error + session) \<times> 'c \<times> 'l Server) outcome" where
  "serve_begin tp now ss h =
     (case h of
        (Inl e, c, sv) \<Rightarrow>
          obind (timer_del (ss_tr ss) (ss_trd ss) (writer_put (ss_wp ss) (ss_wb ss) (reader_put (ss_rp ss) (ss_rb ss) sv)))
            (\<lambda>sv1. Ret (Inl e, tp_Close tp c, sv1))
      | (Inr (reply, b), c, sv) \<Rightarrow>
          let ss1 = ss\<lparr>ss_b := b, ss_hb := cr_Heartbeat reply\<rparr> in
          obind (with_timer (ss_tr ss) (\<lambda>t. Ret ((), tm_upd (ss_trd ss) (\<lambda>d. d\<lparr>td_Key := cr_Key reply\<rparr>) t)) sv) (\<lambda>(_, sv1).
          obind (timer_set now ss1 sv1) (\<lambda>sv2. Ret (Inr ss1, c, sv2))))"

section \<open>TCP\<close>

record ('s, 't) tcp_conn =
  tc_rr :: "'s Reader"
  tc_wr :: "'t Writer"

text \<open>\<open>close\<close> is what closing the socket does to its two directions.\<close>

definition tcp_transport :: "'s io_read \<Rightarrow> 't io_write \<Rightarrow> (('s, 't) tcp_conn \<Rightarrow> ('s, 't) tcp_conn) \<Rightarrow> ('s, 't) tcp_conn transport" where
  "tcp_transport read wrt close =
     \<lparr>tp_Read = (\<lambda>p c. Some (obind (Proto_ReadTCP read (tc_rr c) p) (\<lambda>(e, p1, r). Ret (e, p1, c\<lparr>tc_rr := r\<rparr>)))),
      tp_Write = (\<lambda>p c. rbind (Proto_WriteTCP wrt p (tc_wr c)) (\<lambda>(e, w). Some (Ret (e, c\<lparr>tc_wr := w\<rparr>)))),
      tp_Heart = (\<lambda>p on c. Some (obind (Proto_WriteTCPHeart wrt p on (tc_wr c)) (\<lambda>(e, w). Ret (e, c\<lparr>tc_wr := w\<rparr>)))),
      tp_Flush = (\<lambda>c. case Writer_Flush wrt (tc_wr c) of (e, w) \<Rightarrow> Some (Ret (e, c\<lparr>tc_wr := w\<rparr>))),
      tp_Close = close\<rparr>"

text \<open>\<open>if r++; r == maxInt\<close>: the number of the next connection.\<close>

definition next_conn :: "nat \<Rightarrow> nat" where
  "next_conn r = (if r + 1 = 2 ^ 31 - 1 then 0 else r + 1)"

definition authTCP ::
    "'s io_read \<Rightarrow> 't io_write \<Rightarrow> (('s, 't) tcp_conn \<Rightarrow> ('s, 't) tcp_conn) \<Rightarrow> 'l LogicClient \<Rightarrow> Proto \<Rightarrow> ('s, 't) tcp_conn \<Rightarrow> 'l Server \<Rightarrow>
     (error option \<times> ConnectReply \<times> Proto \<times> ('s, 't) tcp_conn \<times> 'l Server) run" where
  "authTCP read wrt close lc p c sv = auth (tcp_transport read wrt close) lc [] p c sv"

definition new_channel :: "string \<Rightarrow> 'l Server \<Rightarrow> addr \<times> 'l Server" where
  "new_channel ip sv =
     (length (st_ch (sv_store sv)),
      sv\<lparr>sv_store := (sv_store sv)\<lparr>st_ch := st_ch (sv_store sv) @
           [(NewChannel (cf_CliProto (sv_c sv)) (cf_SvrProto (sv_c sv)))\<lparr>ch_IP := ip\<rparr>]\<rparr>\<rparr>)"

text \<open>
  The start of \<open>ServeTCP\<close>, with \<open>serveTCP\<close> before it: take the timer and the pools of connection number \<open>r\<close>,
  take buffers, make the channel, arm the handshake timer (its callback, which closes the connection, is
  the address of the channel), shake hands. The clock reads \<open>now0\<close> at first, \<open>now1\<close> in \<open>tr.Add\<close>, \<open>now2\<close> in
  \<open>tr.Set\<close>; \<open>in0\<close> and \<open>out0\<close> are the two directions of the socket and \<open>ip\<close> its remote address.
\<close>

definition ServeTCP_start ::
    "(byte list \<Rightarrow> 32 word \<Rightarrow> 32 word) \<Rightarrow> 's io_read \<Rightarrow> 't io_write \<Rightarrow> (('s, 't) tcp_conn \<Rightarrow> ('s, 't) tcp_conn) \<Rightarrow> 'l LogicClient \<Rightarrow>
     (int \<Rightarrow> int) \<Rightarrow> int \<Rightarrow> int \<Rightarrow> int \<Rightarrow> nat \<Rightarrow> 's \<Rightarrow> 't \<Rightarrow> string \<Rightarrow> 'l Server \<Rightarrow> ((error + session) \<times> ('s, 't) tcp_conn \<times> 'l Server) run" where
  "ServeTCP_start hash read wrt close lc rnd now0 now1 now2 r in0 out0 ip sv =
     rbind (Some (Round_Timer r (sv_round sv))) (\<lambda>tr.
     rbind (Some (Round_Reader r (sv_round sv))) (\<lambda>rp.
     rbind (Some (Round_Writer r (sv_round sv))) (\<lambda>wp.
     rbind (Some (reader_get rp sv)) (\<lambda>(rb, sv1).
     rbind (Some (writer_get wp sv1)) (\<lambda>(wb, sv2).
     let (ch, sv3) = new_channel ip sv2;
         rpool = rn_readers (sv_round sv3) ! rp;
         c = \<lparr>tc_rr = Reader_reset (Buffer_Bytes rpool rb) (Buffer_spare rpool rb) in0,
              tc_wr = \<lparr>wr_err = None, wr_buf = Buffer_Bytes (rn_writers (sv_round sv3) ! wp) wb, wr_n = 0, wr_wr = out0\<rparr>\<rparr> in
     rbind (Some (with_timer tr (Timer_Add now1 (cf_HandshakeTimeout (sv_c sv3)) (Some ch)) sv3)) (\<lambda>(trd, sv4).
     let ss = \<lparr>ss_ch = ch, ss_b = 0, ss_tr = tr, ss_trd = trd, ss_rp = rp, ss_rb = rb, ss_wp = wp, ss_wb = wb,
               ss_hb = 0, ss_lastHb = now0, ss_serverHb = RandServerHearbeat rnd\<rparr> in
     rbind (handshake hash (tcp_transport read wrt close) lc [] ch c sv4) (\<lambda>h.
       Some (serve_begin (tcp_transport read wrt close) now2 ss h))))))))"

text \<open>The reading loop, its end, and the writing goroutine of a TCP connection.\<close>

definition ServeTCP_read ::
    "'s io_read \<Rightarrow> 't io_write \<Rightarrow> (('s, 't) tcp_conn \<Rightarrow> ('s, 't) tcp_conn) \<Rightarrow> 'l LogicClient \<Rightarrow> int \<Rightarrow> int \<Rightarrow> session \<Rightarrow>
     ('s, 't) tcp_conn \<Rightarrow> 'l Server \<Rightarrow> (error option \<times> session \<times> ('s, 't) tcp_conn \<times> 'l Server) run" where
  "ServeTCP_read read wrt close lc now now2 ss c sv = serve_read (tcp_transport read wrt close) lc now now2 ss c sv"

definition dispatchTCP_turn ::
    "'s io_read \<Rightarrow> 't io_write \<Rightarrow> (('s, 't) tcp_conn \<Rightarrow> ('s, 't) tcp_conn) \<Rightarrow> addr \<Rightarrow> int32 \<Rightarrow> ('s, 't) tcp_conn \<Rightarrow> 'l Server \<Rightarrow>
     (dnext \<times> int32 \<times> ('s, 't) tcp_conn \<times> 'l Server) run" where
  "dispatchTCP_turn read wrt close ch online c sv = dispatch_turn (tcp_transport read wrt close) ch online c sv"

section \<open>What the writing goroutine sends\<close>

text \<open>
  The contract of a transport towards its peer: a call that writes returns, and without an error it
  appends the encoding of the message to the output.
\<close>

locale message_out =
  fixes tp :: "'c transport" and cok :: "'c \<Rightarrow> bool" and out :: "'c \<Rightarrow> byte list"
    and enc :: "Proto \<Rightarrow> byte list" and enc_heart :: "int32 \<Rightarrow> Proto \<Rightarrow> byte list"
  assumes write_out: "cok c \<Longrightarrow> \<exists>e c'. tp_Write tp p c = Some (Ret (e, c')) \<and> cok c' \<and> (e = None \<longrightarrow> out c' = out c @ enc p)"
    and heart_out: "cok c \<Longrightarrow> \<exists>e c'. tp_Heart tp p on c = Some (Ret (e, c')) \<and> cok c' \<and> (e = None \<longrightarrow> out c' = out c @ enc_heart on p)"
    and flush_out: "cok c \<Longrightarrow> \<exists>e c'. tp_Flush tp c = Some (Ret (e, c')) \<and> cok c' \<and> (e = None \<longrightarrow> out c' = out c)"

text \<open>The encoding of a reply that waits in the ring.\<close>

definition reply_bytes :: "(Proto \<Rightarrow> byte list) \<Rightarrow> (int32 \<Rightarrow> Proto \<Rightarrow> byte list) \<Rightarrow> int32 \<Rightarrow> Proto \<Rightarrow> byte list" where
  "reply_bytes enc enc_heart on p = (if Op p = OpHeartbeatReply then enc_heart on p else enc p)"

lemma OnlineNum_upd: "Room_OnlineNum r (sv_store (sv_upd ch f sv)) = Room_OnlineNum r (sv_store sv)"
  by (simp add: Room_OnlineNum_def sv_upd_def rm_at_def ch_set_def)

lemma heart_online_upd:
  "ch < length (st_ch (sv_store sv)) \<Longrightarrow> ch_Room (f (sv_chan ch sv)) = ch_Room (sv_chan ch sv) \<Longrightarrow>
   heart_online ch on (sv_upd ch f sv) = heart_online ch on sv"
  by (simp add: heart_online_def sv_chan_upd OnlineNum_upd split: option.split)

lemma heart_online_ring: "ch < length (st_ch (sv_store sv)) \<Longrightarrow> heart_online ch on (ring_upd ch f sv) = heart_online ch on sv"
  by (simp add: ring_upd_def heart_online_upd)

lemma heart_online_idem: "heart_online ch (heart_online ch on sv) sv = heart_online ch on sv"
  by (simp add: heart_online_def split: option.split)

context message_out
begin

lemma write_ring_out:
  assumes "cok c" and "ch < length (st_ch (sv_store sv))" and "Ring_ok (ch_CliProto (sv_chan ch sv))"
  shows "\<exists>e on' c' sv'. write_ring tp ch online c sv = Some (Ret (e, on', c', sv')) \<and> cok c' \<and>
    (e = None \<longrightarrow> out c' = out c @ concat (map (reply_bytes enc enc_heart (heart_online ch online sv)) (Ring_contents (ch_CliProto (sv_chan ch sv)))))"
  using assms
proof (induction "length (Ring_contents (ch_CliProto (sv_chan ch sv)))" arbitrary: online c sv)
  case 0
  then have "Ring_Get (ch_CliProto (sv_chan ch sv)) = Ret (Inl (Comet ErrRingEmpty))" using Ring_Get_cases(1) by simp
  then show ?case using 0 by (simp add: write_ring.simps [of tp ch online])
next
  case (Suc n)
  let ?r = "ch_CliProto (sv_chan ch sv)" and ?on = "heart_online ch online sv"
  have ne: "Ring_contents ?r \<noteq> []" using Suc.hyps(2) by auto
  then have g: "Ring_Get ?r = Ret (Inr (Ring_slot ?r 0))" using Ring_Get_cases(1) [OF Suc.prems(3)] by simp
  define p where "p = Ring_read (Ring_slot ?r 0) ?r"
  have hd: "Ring_contents ?r = p # tl (Ring_contents ?r)" using Ring_Get_cases(2) [OF Suc.prems(3) ne] ne by (simp add: p_def)
  define on1 where "on1 = (if Op p = OpHeartbeatReply then ?on else online)"
  define w where "w = (if Op p = OpHeartbeatReply then tp_Heart tp p on1 c else tp_Write tp p c)"
  define sv1 where "sv1 = ring_upd ch (\<lambda>g. Ring_GetAdv (Ring_write (Ring_slot ?r 0) (p\<lparr>Body := None\<rparr>) g)) sv"
  have eq: "write_ring tp ch online c sv = (case w of None \<Rightarrow> None | Some (Panic x) \<Rightarrow> Some (Panic x)
      | Some (Ret (Some e, c1)) \<Rightarrow> Some (Ret (Some e, on1, c1, sv)) | Some (Ret (None, c1)) \<Rightarrow> write_ring tp ch on1 c1 sv1)"
    by (subst write_ring.simps) (simp only: g outcome.case sum.case Let_def p_def [symmetric] on1_def [symmetric] w_def [symmetric] sv1_def [symmetric])
  obtain e1 cc where w1: "w = Some (Ret (e1, cc))" "cok cc" "e1 = None \<longrightarrow> out cc = out c @ reply_bytes enc enc_heart ?on p"
  proof (cases "Op p = OpHeartbeatReply")
    case True
    then show ?thesis using that heart_out [OF Suc.prems(1), of p on1] by (auto simp: w_def reply_bytes_def on1_def)
  next
    case False
    then show ?thesis using that write_out [OF Suc.prems(1), of p] by (auto simp: w_def reply_bytes_def)
  qed
  show ?case
  proof (cases e1)
    case (Some x)
    then show ?thesis using w1 unfolding eq by simp
  next
    case None
    note tk = Ring_take_write [OF Suc.prems(3) ne, of "p\<lparr>Body := None\<rparr>"]
    have c1: "ch_CliProto (sv_chan ch sv1) = Ring_GetAdv (Ring_write (Ring_slot ?r 0) (p\<lparr>Body := None\<rparr>) ?r)"
      "ch < length (st_ch (sv_store sv1))" using Suc.prems(2) by (simp_all add: sv1_def ring_upd_chan)
    have n: "n = length (Ring_contents (ch_CliProto (sv_chan ch sv1)))" using c1 tk Suc.hyps(2) by simp
    have on: "heart_online ch on1 sv1 = ?on"
      using Suc.prems(2) by (simp add: sv1_def heart_online_ring on1_def heart_online_idem)
    have r1: "Ring_ok (ch_CliProto (sv_chan ch sv1))" "Ring_contents (ch_CliProto (sv_chan ch sv1)) = tl (Ring_contents ?r)"
      using c1 tk by simp_all
    obtain e on' c' sv' where
      ih: "write_ring tp ch on1 cc sv1 = Some (Ret (e, on', c', sv'))" "cok c'"
        "e = None \<longrightarrow> out c' = out cc @ concat (map (reply_bytes enc enc_heart ?on) (tl (Ring_contents ?r)))"
      using Suc.hyps(1) [OF n w1(2) c1(2) r1(1), of on1] unfolding on r1(2) by (elim exE conjE) (rule that)
    have "concat (map (reply_bytes enc enc_heart ?on) (Ring_contents ?r)) = reply_bytes enc enc_heart ?on p @ concat (map (reply_bytes enc enc_heart ?on) (tl (Ring_contents ?r)))"
      using hd by (cases "Ring_contents ?r") auto
    then show ?thesis using ih w1 None unfolding eq by simp
  qed
qed

text \<open>A turn that takes \<open>ProtoReady\<close>, and one that takes a pushed message.\<close>

lemma dispatch_turn_out:
  assumes "cok c" and "ch < length (st_ch (sv_store sv))" and "Ring_ok (ch_CliProto (sv_chan ch sv))"
    and "ch_signal (sv_chan ch sv) = sig # q" and "sig \<noteq> SigFinish"
  shows "\<exists>n on' c' sv'. dispatch_turn tp ch online c sv = Some (Ret (n, on', c', sv')) \<and> cok c' \<and> n \<noteq> DFinish \<and>
    (n = DContinue \<longrightarrow> out c' = out c @ (case sig of SigMsg p \<Rightarrow> enc p
       | _ \<Rightarrow> concat (map (reply_bytes enc enc_heart (heart_online ch online sv)) (Ring_contents (ch_CliProto (sv_chan ch sv))))))"
proof -
  define sv1 where "sv1 = sv_upd ch (\<lambda>_. (sv_chan ch sv)\<lparr>ch_signal := q\<rparr>) sv"
  have c1: "sv_chan ch sv1 = (sv_chan ch sv)\<lparr>ch_signal := q\<rparr>" "ch < length (st_ch (sv_store sv1))"
    using assms(2) by (simp_all add: sv1_def sv_chan_upd)
  have ho: "heart_online ch online sv1 = heart_online ch online sv"
    using assms(2) by (simp add: sv1_def heart_online_upd)
  have rdy: "Channel_Ready (sv_chan ch sv) = Some (sig, (sv_chan ch sv)\<lparr>ch_signal := q\<rparr>)" using assms(4) by (simp add: Channel_Ready_def)
  show ?thesis
  proof (cases sig)
    case SigReady
    have ok1: "Ring_ok (ch_CliProto (sv_chan ch sv1))" using c1 assms(3) by simp
    obtain e on' cc sv2 where w: "write_ring tp ch online c sv1 = Some (Ret (e, on', cc, sv2))" "cok cc"
      "e = None \<longrightarrow> out cc = out c @ concat (map (reply_bytes enc enc_heart (heart_online ch online sv)) (Ring_contents (ch_CliProto (sv_chan ch sv))))"
      using write_ring_out [OF assms(1) c1(2) ok1, of online] c1 ho by auto
    show ?thesis using w rdy SigReady flush_out [OF w(2)]
      by (cases e) (auto simp: dispatch_turn_def sv1_def [symmetric] Let_def split: option.splits)
  next
    case (SigMsg p)
    obtain e cc where w: "tp_Write tp p c = Some (Ret (e, cc))" "cok cc" "e = None \<longrightarrow> out cc = out c @ enc p"
      using write_out [OF assms(1), of p] by auto
    show ?thesis using w rdy SigMsg flush_out [OF w(2)]
      by (cases e) (auto simp: dispatch_turn_def sv1_def [symmetric] Let_def split: option.splits)
  qed (use assms(5) in simp)
qed

end

definition tcp_frame :: "Proto \<Rightarrow> byte list" where
  "tcp_frame p = (if Op p = OpRaw then body_bytes p else proto_frame p)"

definition heart_frame :: "int32 \<Rightarrow> Proto \<Rightarrow> byte list" where
  "heart_frame on p = proto_frame (p\<lparr>Body := Some (be32 on)\<rparr>)"

text \<open>Writing leaves the reader of the connection alone.\<close>

lemma tcp_message_out:
  assumes "io_writer wrt sent"
  shows "message_out (tcp_transport read wrt close) (\<lambda>c. Writer_ok (tc_wr c) \<and> P (tc_rr c)) (\<lambda>c. Writer_out sent (tc_wr c)) tcp_frame heart_frame"
proof
  fix c :: "('b, 'a) tcp_conn" and p :: Proto and on :: int32
  assume cok: "Writer_ok (tc_wr c) \<and> P (tc_rr c)"
  then have ok: "Writer_ok (tc_wr c)" and r: "P (tc_rr c)" by auto
  show "\<exists>e c'. tp_Write (tcp_transport read wrt close) p c = Some (Ret (e, c')) \<and> (Writer_ok (tc_wr c') \<and> P (tc_rr c')) \<and>
    (e = None \<longrightarrow> Writer_out sent (tc_wr c') = Writer_out sent (tc_wr c) @ tcp_frame p)"
    using io_writer.WriteTCP_spec [OF assms ok, of p] r by (auto simp: tcp_transport_def tcp_frame_def Writer_took_def)
  show "\<exists>e c'. tp_Heart (tcp_transport read wrt close) p on c = Some (Ret (e, c')) \<and> (Writer_ok (tc_wr c') \<and> P (tc_rr c')) \<and>
    (e = None \<longrightarrow> Writer_out sent (tc_wr c') = Writer_out sent (tc_wr c) @ heart_frame on p)"
    using io_writer.WriteTCPHeart_spec [OF assms ok, of p on] r
    by (auto simp: tcp_transport_def heart_frame_def Writer_took_def length_proto_frame body_bytes_def)
  obtain e w where fl: "Writer_flush wrt (tc_wr c) = (e, w)" by fastforce
  show "\<exists>e c'. tp_Flush (tcp_transport read wrt close) c = Some (Ret (e, c')) \<and> (Writer_ok (tc_wr c') \<and> P (tc_rr c')) \<and>
    (e = None \<longrightarrow> Writer_out sent (tc_wr c') = Writer_out sent (tc_wr c))"
    using io_writer.flush_spec(1,2) [OF assms ok fl] fl r by (simp add: tcp_transport_def Writer_Flush_def)
qed

interpretation tcpout: message_out "tcp_transport conn_read conn_write id" "\<lambda>c. Writer_ok (tc_wr c) \<and> P (tc_rr c)"
  "\<lambda>c. Writer_out co_log (tc_wr c)" tcp_frame heart_frame for P
  by (rule tcp_message_out) (rule conn_out.io_writer_axioms)

text \<open>The writing goroutine does not call the logic service.\<close>

lemma sv_logic_upd [simp]: "sv_logic (sv_upd ch f sv) = sv_logic sv" "sv_logic (ring_upd ch g sv) = sv_logic sv"
  by (simp_all add: sv_upd_def ring_upd_def)

lemma write_ring_logic:
  assumes "write_ring tp ch online c sv = Some (Ret (e, on', c', sv'))"
  shows "sv_logic sv' = sv_logic sv"
proof -
  have "\<forall>e on' c' sv'. y = Ret (e, on', c', sv') \<longrightarrow> sv_logic sv' = sv_logic sv"
    if "write_ring tp ch online c sv = Some y" for y
  proof (rule write_ring.raw_induct [OF _ that], goal_cases)
    case (1 loop tp ch online c sv y)
    then show ?case by (fastforce simp: Let_def split: outcome.splits sum.splits option.splits prod.splits)
  qed
  then show ?thesis using assms by blast
qed

lemma dispatch_turn_logic:
  assumes "dispatch_turn tp ch online c sv = Some (Ret (n, on', c', sv'))"
  shows "sv_logic sv' = sv_logic sv"
proof -
  obtain sig chan where "Channel_Ready (sv_chan ch sv) = Some (sig, chan)" using assms by (auto simp: dispatch_turn_def split: option.splits)
  then show ?thesis using assms write_ring_logic
    by (cases sig) (fastforce simp: dispatch_turn_def Let_def outcome_simps split: option.splits)+
qed

section \<open>One request\<close>

text \<open>The operations that \<open>Operate\<close> handles itself, and the heartbeat; every other message is forwarded.\<close>

definition forwarded :: "Proto \<Rightarrow> bool" where
  "forwarded p \<longleftrightarrow> Op p \<notin> {OpHeartbeat, OpChangeRoom, OpSub, OpUnsub}"

lemma proto_canon_Op [simp]: "Op (proto_canon p) = Op p" by (simp add: proto_canon_def)

text \<open>Reading a message that is forwarded: the ring gets its reply, the logic service the message.\<close>

lemma read_forwarded:
  assumes rd: "tp_Read tp (Ring_read i (ch_CliProto (sv_chan (ss_ch ss) sv))) c = Some (Ret (None, p, c1))" and fwd: "forwarded p"
    and lt: "ss_ch ss < length (st_ch (sv_store sv))" and ok: "Ring_ok (ch_CliProto (sv_chan (ss_ch ss) sv))"
    and set: "Ring_Set (ch_CliProto (sv_chan (ss_ch ss) sv)) = Ret (Inr i)"
  shows "\<exists>sv'. serve_read tp lc now now2 ss c sv = Some (Ret (None, ss, c1, sv')) \<and>
    Ring_ok (ch_CliProto (sv_chan (ss_ch ss) sv')) \<and>
    Ring_contents (ch_CliProto (sv_chan (ss_ch ss) sv')) = Ring_contents (ch_CliProto (sv_chan (ss_ch ss) sv)) @ [p\<lparr>Body := None\<rparr>] \<and>
    sv_logic sv' = snd (lc_Receive lc (ch_Mid (sv_chan (ss_ch ss) sv)) p (sv_logic sv)) \<and>
    sv_chan (ss_ch ss) sv' = (sv_chan (ss_ch ss) sv)\<lparr>ch_CliProto := ch_CliProto (sv_chan (ss_ch ss) sv')\<rparr> \<and>
    length (st_ch (sv_store sv')) = length (st_ch (sv_store sv)) \<and> st_rm (sv_store sv') = st_rm (sv_store sv)"
proof -
  let ?ch = "ss_ch ss" and ?r = "ch_CliProto (sv_chan (ss_ch ss) sv)"
  define sv1 where "sv1 = ring_upd ?ch (Ring_write i p) sv"
  define sv2 where "sv2 = snd (Server_Receive lc (ch_Mid (sv_chan ?ch sv1)) p sv1)"
  define sv3 where "sv3 = ring_upd ?ch (\<lambda>g. Ring_SetAdv (Ring_write i (p\<lparr>Body := None\<rparr>) g)) sv2"
  have h: "handle_proto lc now now2 ss p sv1 = Some (Ret (p\<lparr>Body := None\<rparr>, ss, sv2))"
    using fwd by (simp add: forwarded_def handle_proto_def Server_Operate_def sv2_def)
  have run: "serve_read tp lc now now2 ss c sv = Some (Ret (None, ss, c1, sv3))"
    using set rd h by (simp add: serve_read_def sv1_def sv3_def Let_def)
  have c1: "sv_chan ?ch sv1 = (sv_chan ?ch sv)\<lparr>ch_CliProto := Ring_write i p ?r\<rparr>" using lt by (simp add: sv1_def ring_upd_chan)
  have st2: "sv_store sv2 = sv_store sv1" by (simp add: sv2_def)
  have len: "length (st_ch (sv_store sv1)) = length (st_ch (sv_store sv))" by (simp add: sv1_def ring_upd_chan(2))
  have lt2: "?ch < length (st_ch (sv_store sv2))" using lt st2 len by simp
  have c3: "sv_chan ?ch sv3 = (sv_chan ?ch sv)\<lparr>ch_CliProto := Ring_SetAdv (Ring_write i (p\<lparr>Body := None\<rparr>) (Ring_write i p ?r))\<rparr>"
    using ring_upd_chan(1) [OF lt2] c1 sv_chan_store [OF st2] by (simp add: sv3_def)
  note w1 = Ring_Set_write [OF ok set, of p]
  have "Ring_put (p\<lparr>Body := None\<rparr>) (Ring_write i p ?r) = Some (Ring_SetAdv (Ring_write i (p\<lparr>Body := None\<rparr>) (Ring_write i p ?r)))"
    using w1 by (simp add: Ring_put_def)
  then have r3: "Ring_ok (ch_CliProto (sv_chan ?ch sv3))" "Ring_contents (ch_CliProto (sv_chan ?ch sv3)) = Ring_contents ?r @ [p\<lparr>Body := None\<rparr>]"
    using ring.put_some [of "Ring_write i p ?r"] w1 c3 by auto
  have "sv_logic sv3 = snd (lc_Receive lc (ch_Mid (sv_chan ?ch sv)) p (sv_logic sv))"
    using c1 by (simp add: sv3_def ring_upd_def sv_upd_def sv2_def Server_Receive_def sv1_def Let_def split: prod.split)
  moreover have "st_rm (sv_store sv3) = st_rm (sv_store sv)" "length (st_ch (sv_store sv3)) = length (st_ch (sv_store sv))"
    using st2 len by (simp_all add: sv3_def ring_upd_chan(2)) (simp add: ring_upd_def sv_upd_def ch_set_def sv1_def)
  ultimately show ?thesis using run r3 c3 by (intro exI [of _ sv3]) simp
qed

text \<open>Reading, signalling and writing such a message, whatever the transport.\<close>

context message_out
begin

lemma answered:
  assumes r: "cs_r s = RRead" and d: "cs_d s = DRun" and lt: "ss_ch (cs_ss s) < length (st_ch (sv_store (cs_sv s)))"
    and ring: "Ring_ok (ch_CliProto (cs_chan s))" and empty: "Ring_contents (ch_CliProto (cs_chan s)) = []"
    and sig: "ch_signal (cs_chan s) = []" and cap: "0 < ch_cap (cs_chan s)"
    and rd: "\<And>q. tp_Read tp q (cs_c s) = Some (Ret (None, p, rc q))" and ok: "\<And>q. cok (rc q)" and same: "\<And>q. out (rc q) = o1" and fwd: "forwarded p"
  shows "\<exists>s'. (conn_step early tp lc)\<^sup>*\<^sup>* s s' \<and> cs_r s' = RRead \<and>
    sv_logic (cs_sv s') = snd (lc_Receive lc (ch_Mid (cs_chan s)) p (sv_logic (cs_sv s))) \<and>
    (cs_d s' = DRun \<longrightarrow> cok (cs_c s') \<and>
       out (cs_c s') = o1 @ reply_bytes enc enc_heart (heart_online (ss_ch (cs_ss s)) (cs_online s) (cs_sv s)) (p\<lparr>Body := None\<rparr>))"
proof -
  let ?ch = "ss_ch (cs_ss s)" and ?q = "p\<lparr>Body := None\<rparr>"
  obtain i where set: "Ring_Set (ch_CliProto (cs_chan s)) = Ret (Inr i)"
    using Ring_Set_cases(1) [OF ring] empty ring_data_pos [OF ring] by auto
  define c1 where "c1 = rc (Ring_read i (ch_CliProto (cs_chan s)))"
  obtain sv1 where run: "serve_read tp lc 0 0 (cs_ss s) (cs_c s) (cs_sv s) = Some (Ret (None, cs_ss s, c1, sv1))"
    and r1: "Ring_ok (ch_CliProto (sv_chan ?ch sv1))" "Ring_contents (ch_CliProto (sv_chan ?ch sv1)) = [?q]"
    and l1: "sv_logic sv1 = snd (lc_Receive lc (ch_Mid (cs_chan s)) p (sv_logic (cs_sv s)))"
    and k1: "sv_chan ?ch sv1 = (cs_chan s)\<lparr>ch_CliProto := ch_CliProto (sv_chan ?ch sv1)\<rparr>"
    and st1: "length (st_ch (sv_store sv1)) = length (st_ch (sv_store (cs_sv s)))" "st_rm (sv_store sv1) = st_rm (sv_store (cs_sv s))"
    using read_forwarded [OF rd fwd lt ring set, of lc 0 0] unfolding empty append_Nil c1_def [symmetric] by (elim exE conjE) (rule that)
  define s1 where "s1 = s\<lparr>cs_ss := cs_ss s, cs_c := c1, cs_sv := sv1, cs_r := RSignal\<rparr>"
  have step1: "conn_step early tp lc s s1" unfolding s1_def by (rule conn_step.read_ok [OF r run])
  have f1: "ch_signal (sv_chan ?ch sv1) = []" "ch_cap (sv_chan ?ch sv1) = ch_cap (cs_chan s)" "ch_Room (sv_chan ?ch sv1) = ch_Room (cs_chan s)"
    using sig by (subst k1, simp)+
  define sv2 where "sv2 = sv_upd ?ch (\<lambda>_. (sv_chan ?ch sv1)\<lparr>ch_signal := [SigReady]\<rparr>) sv1"
  have sg: "serve_signal (cs_ss s1) (cs_sv s1) = Some sv2"
    using f1 cap by (simp add: serve_signal_def s1_def Channel_Signal_def chan_send_def sv2_def)
  define s2 where "s2 = s1\<lparr>cs_sv := sv2, cs_r := RRead\<rparr>"
  have step2: "conn_step early tp lc s1 s2" unfolding s2_def by (rule conn_step.signal [OF _ sg]) (simp add: s1_def)
  have lt1: "?ch < length (st_ch (sv_store sv1))" using lt st1 by simp
  have c2: "sv_chan ?ch sv2 = (sv_chan ?ch sv1)\<lparr>ch_signal := [SigReady]\<rparr>" "?ch < length (st_ch (sv_store sv2))"
    using lt1 by (simp_all add: sv2_def sv_chan_upd)
  have ho: "heart_online ?ch (cs_online s) sv2 = heart_online ?ch (cs_online s) (cs_sv s)"
    using heart_online_upd [OF lt1, of "\<lambda>_. (sv_chan ?ch sv1)\<lparr>ch_signal := [SigReady]\<rparr>" "cs_online s"] f1(3) st1(2)
    by (simp add: sv2_def heart_online_def Room_OnlineNum_def rm_at_def split: option.split)
  have pre: "cok c1" "out c1 = o1" "Ring_ok (ch_CliProto (sv_chan ?ch sv2))" "ch_signal (sv_chan ?ch sv2) = SigReady # []"
    using ok same r1(1) c2(1) by (simp_all add: c1_def)
  obtain n on' c' sv3 where t: "dispatch_turn tp ?ch (cs_online s) c1 sv2 = Some (Ret (n, on', c', sv3))" and cok: "cok c'"
    and out: "n = DContinue \<longrightarrow> out c' = o1 @ reply_bytes enc enc_heart (heart_online ?ch (cs_online s) (cs_sv s)) ?q"
    using dispatch_turn_out [OF pre(1) c2(2) pre(3,4), of "cs_online s"] pre(2) c2(1) ho r1(2) by auto
  have l3: "sv_logic sv3 = sv_logic sv1" using dispatch_turn_logic [OF t] by (simp add: sv2_def)
  have d2: "cs_d s2 = DRun" "dispatch_turn tp (ss_ch (cs_ss s2)) (cs_online s2) (cs_c s2) (cs_sv s2) = Some (Ret (n, on', c', sv3))"
    using t d by (simp_all add: s2_def s1_def)
  have two: "(conn_step early tp lc)\<^sup>*\<^sup>* s s2" using step1 step2 by auto
  show ?thesis
  proof (cases "n = DContinue")
    case True
    let ?s = "s2\<lparr>cs_online := on', cs_c := c', cs_sv := sv3\<rparr>"
    have "conn_step early tp lc s2 ?s" using conn_step.turn [OF d2(1)] d2(2) True by simp
    then have "(conn_step early tp lc)\<^sup>*\<^sup>* s ?s" using two by simp
    then show ?thesis using out cok True l1 l3 by (intro exI [of _ ?s]) (simp add: s2_def)
  next
    case False
    obtain c'' sv4 where e: "dispatch_end tp (cs_ss s2) c' sv3 = (c'', sv4)" by fastforce
    let ?s = "s2\<lparr>cs_online := on', cs_c := c'', cs_sv := sv4, cs_d := (if n = DFinish then DExit else DDrain)\<rparr>"
    have "conn_step early tp lc s2 ?s" by (rule conn_step.stop [OF d2 False e])
    then have "(conn_step early tp lc)\<^sup>*\<^sup>* s ?s" using two by simp
    moreover have "sv_logic sv4 = sv_logic sv3" using e by (auto simp: dispatch_end_def writer_put_def)
    ultimately show ?thesis using l1 l3 by (intro exI [of _ ?s]) (simp add: s2_def)
  qed
qed

end


definition demo_request :: Proto where "demo_request = \<lparr>Ver = 1, Op = 4, Seq = 7, Body = Some [65, 66]\<rparr>"

definition demo_tcp :: "((byte list list, conn_out) tcp_conn, unit) conn_state" where
  "demo_tcp = \<lparr>cs_ss = demo_session,
     cs_c = \<lparr>tc_rr = Reader_reset (replicate 4096 0) [] (map (\<lambda>b. [b]) (proto_frame demo_request)),
             tc_wr = \<lparr>wr_err = None, wr_buf = replicate 16 0, wr_n = 0, wr_wr = \<lparr>co_quota = 100, co_log = []\<rparr>\<rparr>\<rparr>,
     cs_sv = demo_server demo_bucket (demo_store\<lparr>st_ch := [NewChannel 1 2]\<rparr>), cs_online = 0, cs_r = RRead, cs_d = DRun\<rparr>"


end
