(* ===== verification/Accept_Key.thy ===== *)
theory Accept_Key
  imports Go_Strings Endian
begin

text \<open>
  \<open>computeAcceptKey\<close> of \<open>pkg/websocket/server.go\<close>, with the two functions of Go's standard library it calls:
  the hash of \<open>crypto/sha1\<close> (FIPS 180-4) and the standard encoding of \<open>encoding/base64\<close> (RFC 4648).
\<close>

section \<open>crypto/sha1\<close>

text \<open>The message, a bit 1, zeros up to 56 modulo 64 bytes, and the length in bits.\<close>

definition sha1_pad :: "byte list \<Rightarrow> byte list" where
  "sha1_pad m = m @ 128 # replicate ((119 - length m mod 64) mod 64) 0 @ be64 (of_nat (8 * length m))"

fun be_words :: "byte list \<Rightarrow> 32 word list" where
  "be_words (a # b # c # d # bs) =
     (push_bit 24 (ucast a) OR push_bit 16 (ucast b) OR push_bit 8 (ucast c) OR ucast d) # be_words bs"
| "be_words _ = []"

definition rotl :: "nat \<Rightarrow> 32 word \<Rightarrow> 32 word" where
  "rotl n x = push_bit n x OR drop_bit (32 - n) x"

type_synonym sha1_state = "32 word \<times> 32 word \<times> 32 word \<times> 32 word \<times> 32 word"

definition sha1_f :: "nat \<Rightarrow> 32 word \<Rightarrow> 32 word \<Rightarrow> 32 word \<Rightarrow> 32 word" where
  "sha1_f t b c d =
     (if t < 20 then (b AND c) OR (NOT b AND d)
      else if t < 40 then b XOR c XOR d
      else if t < 60 then (b AND c) OR (b AND d) OR (c AND d)
      else b XOR c XOR d)"

definition sha1_k :: "nat \<Rightarrow> 32 word" where
  "sha1_k t = (if t < 20 then 0x5A827999 else if t < 40 then 0x6ED9EBA1 else if t < 60 then 0x8F1BBCDC else 0xCA62C1D6)"

text \<open>Rounds \<open>t\<close> to 79; \<open>w\<close> holds the sixteen words of the schedule from round \<open>t\<close> on.\<close>

definition sha1_next :: "32 word list \<Rightarrow> 32 word list" where
  "sha1_next w = tl w @ [rotl 1 (w ! 13 XOR w ! 8 XOR w ! 2 XOR w ! 0)]"

definition sha1_round :: "nat \<Rightarrow> 32 word \<Rightarrow> sha1_state \<Rightarrow> sha1_state" where
  "sha1_round t w s =
     (case s of (a, b, c, d, e) \<Rightarrow> (rotl 5 a + sha1_f t b c d + e + sha1_k t + w, a, rotl 30 b, c, d))"

primrec sha1_rounds :: "nat \<Rightarrow> 32 word list \<Rightarrow> sha1_state \<Rightarrow> sha1_state" where
  "sha1_rounds 0 w s = s"
| "sha1_rounds (Suc n) w s = sha1_rounds n (sha1_next w) (sha1_round (79 - n) (hd w) s)"

fun sha1_blocks :: "32 word list \<Rightarrow> sha1_state \<Rightarrow> sha1_state" where
  "sha1_blocks ws (a, b, c, d, e) =
     (if length ws < 16 then (a, b, c, d, e)
      else case sha1_rounds 80 (take 16 ws) (a, b, c, d, e) of
        (a', b', c', d', e') \<Rightarrow> sha1_blocks (drop 16 ws) (a + a', b + b', c + c', d + d', e + e'))"

declare sha1_blocks.simps [simp del]

definition sha1_Sum :: "byte list \<Rightarrow> byte list" where
  "sha1_Sum m =
     (case sha1_blocks (be_words (sha1_pad m)) (0x67452301, 0xEFCDAB89, 0x98BADCFE, 0x10325476, 0xC3D2E1F0) of
        (a, b, c, d, e) \<Rightarrow> be32 a @ be32 b @ be32 c @ be32 d @ be32 e)"

section \<open>encoding/base64\<close>

definition base64_char :: "nat \<Rightarrow> char" where
  "base64_char n =
     (if n < 26 then char_of (65 + n) else if n < 52 then char_of (71 + n) else if n < 62 then char_of (n - 4)
      else if n = 62 then CHR ''+'' else CHR ''/'')"

fun base64_EncodeToString :: "byte list \<Rightarrow> string" where
  "base64_EncodeToString [] = []"
| "base64_EncodeToString [a] =
     [base64_char (unat a div 4), base64_char (unat a mod 4 * 16), CHR ''='', CHR ''='']"
| "base64_EncodeToString [a, b] =
     [base64_char (unat a div 4), base64_char (unat a mod 4 * 16 + unat b div 16), base64_char (unat b mod 16 * 4), CHR ''='']"
| "base64_EncodeToString (a # b # c # bs) =
     base64_char (unat a div 4) # base64_char (unat a mod 4 * 16 + unat b div 16) #
     base64_char (unat b mod 16 * 4 + unat c div 64) # base64_char (unat c mod 64) # base64_EncodeToString bs"

section \<open>The accept key\<close>

definition keyGUID :: string where
  "keyGUID = ''258EAFA5-E914-47DA-95CA-C5AB0DC85B11''"

definition computeAcceptKey :: "string \<Rightarrow> string" where
  "computeAcceptKey challengeKey = base64_EncodeToString (sha1_Sum (go_bytes challengeKey @ go_bytes keyGUID))"

text \<open>The hash is 20 bytes long, so the key is 28 characters, the last of them the padding.\<close>

lemma length_sha1: "length (sha1_Sum m) = 20"
  by (simp add: sha1_Sum_def be32_def split: prod.split)

lemma length_base64: "length (base64_EncodeToString bs) = (length bs + 2) div 3 * 4"
  by (induction bs rule: base64_EncodeToString.induct) (simp_all, presburger)

lemma length_computeAcceptKey: "length (computeAcceptKey k) = 28"
  by (simp add: computeAcceptKey_def length_base64 length_sha1)

text \<open>Every character of the encoding is one of the alphabet or the padding, so it cannot end a header line.\<close>

lemma base64_char_range: "n < 64 \<Longrightarrow> of_char (base64_char n) \<in> {43::nat..122}"
  by (auto simp: base64_char_def of_char_of take_bit_eq_mod)

lemma base64_range: "c \<in> set (base64_EncodeToString bs) \<Longrightarrow> of_char c \<in> {43::nat..122}"
proof (induction bs rule: base64_EncodeToString.induct)
  case (2 a)
  have "unat a div 4 < 64" "unat a mod 4 * 16 < 64" using unsigned_less [of a, where 'a = nat] by auto
  then show ?case using 2 base64_char_range by auto
next
  case (3 a b)
  have "unat a div 4 < 64" "unat a mod 4 * 16 + unat b div 16 < 64" "unat b mod 16 * 4 < 64"
    using unsigned_less [of a, where 'a = nat] unsigned_less [of b, where 'a = nat] by (auto simp: less_mult_imp_div_less)
  then show ?case using 3 base64_char_range by auto
next
  case (4 a b c bs)
  have "unat a div 4 < 64" "unat a mod 4 * 16 + unat b div 16 < 64" "unat b mod 16 * 4 + unat c div 64 < 64" "unat c mod 64 < 64"
    using unsigned_less [of a, where 'a = nat] unsigned_less [of b, where 'a = nat] unsigned_less [of c, where 'a = nat] by auto
  then show ?case using 4 base64_char_range by auto
qed simp

end
