(* ===== verification/Websocket_Upgrade.thy ===== *)
theory Websocket_Upgrade
  imports Websocket_Conn Accept_Key
begin

text \<open>
  \<open>pkg/websocket/request.go\<close> and \<open>server.go\<close>: the HTTP request that opens a WebSocket connection, read line by
  line off the buffered reader, and the answer to it. \<open>http.Header\<close> and the canonical form of its keys are
  modelled as the standard library has them; of \<open>strings.ToLower\<close> only the Unicode tables, which it uses
  for a string that is not ASCII, are a parameter (\<open>ulower\<close>).
\<close>

section \<open>http.Header\<close>

type_synonym header = "string \<rightharpoonup> string list"

definition is_lower :: "char \<Rightarrow> bool" where "is_lower c \<longleftrightarrow> (97::nat) \<le> of_char c \<and> of_char c \<le> (122::nat)"
definition is_upper :: "char \<Rightarrow> bool" where "is_upper c \<longleftrightarrow> (65::nat) \<le> of_char c \<and> of_char c \<le> (90::nat)"
definition to_upper :: "char \<Rightarrow> char" where "to_upper c = (if is_lower c then char_of (of_char c - 32 :: nat) else c)"
definition to_lower :: "char \<Rightarrow> char" where "to_lower c = (if is_upper c then char_of (of_char c + 32 :: nat) else c)"

definition validHeaderFieldByte :: "char \<Rightarrow> bool" where
  "validHeaderFieldByte c \<longleftrightarrow> is_lower c \<or> is_upper c \<or> is_digit c \<or> c \<in> set ''!#$%&*+-.^_|~'' \<or> (of_char c :: nat) \<in> {39, 96}"

text \<open>Upper case at the start and behind a dash, lower case elsewhere; other keys are kept as they are.\<close>

fun canonical_case :: "bool \<Rightarrow> string \<Rightarrow> string" where
  "canonical_case up [] = []"
| "canonical_case up (c # s) =
     (let d = (if up then to_upper c else to_lower c) in d # canonical_case (d = CHR ''-'') s)"

definition CanonicalMIMEHeaderKey :: "string \<Rightarrow> string" where
  "CanonicalMIMEHeaderKey s = (if list_all validHeaderFieldByte s then canonical_case True s else s)"

definition Header_Add :: "string \<Rightarrow> string \<Rightarrow> header \<Rightarrow> header" where
  "Header_Add k v h =
     (let c = CanonicalMIMEHeaderKey k
      in h(c \<mapsto> (case h c of None \<Rightarrow> [v] | Some vs \<Rightarrow> vs @ [v])))"

definition Header_Get :: "string \<Rightarrow> header \<Rightarrow> string" where
  "Header_Get k h = (case h (CanonicalMIMEHeaderKey k) of Some (v # vs) \<Rightarrow> v | _ \<Rightarrow> [])"

definition strings_ToLower :: "(string \<Rightarrow> string) \<Rightarrow> string \<Rightarrow> string" where
  "strings_ToLower ulower s = (if list_all (\<lambda>c. (of_char c :: nat) < 128) s then map to_lower s else ulower s)"

section \<open>Requests\<close>

record Request =
  rq_Method :: string
  rq_RequestURI :: string
  rq_Proto :: string
  rq_Host :: string
  rq_Header :: header

definition Request_zero :: Request where
  "Request_zero = \<lparr>rq_Method = [], rq_RequestURI = [], rq_Proto = [], rq_Host = [], rq_Header = Map.empty\<rparr>"

text \<open>
  A line that does not fit into the buffer is put together from pieces; a peer that never ends its line
  keeps the loop going. A \<open>nil\<close> line is the empty one.
\<close>

partial_function (option) readLine_loop ::
    "'s io_read \<Rightarrow> byte list \<Rightarrow> 's Reader \<Rightarrow> ((error + byte list) \<times> 's Reader) outcome option" where
  "readLine_loop read line b =
     (case Reader_ReadLine read b of
        Panic x \<Rightarrow> Some (Panic x)
      | Ret (l, pre, Some e, b1) \<Rightarrow> Some (Ret (Inl e, b1))
      | Ret (l, pre, None, b1) \<Rightarrow>
          if pre then readLine_loop read (line @ l) b1 else Some (Ret (Inr (line @ l), b1)))"

declare readLine_loop.simps [code]

definition Request_readLine :: "'s io_read \<Rightarrow> 's Reader \<Rightarrow> ((error + byte list) \<times> 's Reader) run" where
  "Request_readLine read b = readLine_loop read [] b"

definition is_blank :: "byte \<Rightarrow> bool" where "is_blank c \<longleftrightarrow> c = 32 \<or> c = 9"

definition trim :: "byte list \<Rightarrow> byte list" where
  "trim s = rev (dropWhile is_blank (rev (dropWhile is_blank s)))"

text \<open>The key and the value of a header line; \<open>None\<close> is a malformed line.\<close>

definition header_line :: "byte list \<Rightarrow> (string \<times> string) option" where
  "header_line line =
     (case IndexByte line 58 of
        None \<Rightarrow> None
      | Some i \<Rightarrow> if i = 0 then None else Some (go_string (take i line), go_string (dropWhile is_blank (drop (i + 1) line))))"

partial_function (option) readMIMEHeader_loop ::
    "'s io_read \<Rightarrow> header \<Rightarrow> 's Reader \<Rightarrow> (header \<times> error option \<times> 's Reader) outcome option" where
  "readMIMEHeader_loop read h b =
     (case Request_readLine read b of
        None \<Rightarrow> None
      | Some (Panic x) \<Rightarrow> Some (Panic x)
      | Some (Ret (Inl e, b1)) \<Rightarrow> Some (Ret (h, Some e, b1))
      | Some (Ret (Inr l, b1)) \<Rightarrow>
          if trim l = [] then Some (Ret (h, None, b1))
          else (case header_line (trim l) of
                  None \<Rightarrow> Some (Ret (h, Some (Errorf (''malformed MIME header line: '' @ go_string (trim l))), b1))
                | Some (k, v) \<Rightarrow> readMIMEHeader_loop read (Header_Add k v h) b1))"

declare readMIMEHeader_loop.simps [code]

definition readMIMEHeader :: "'s io_read \<Rightarrow> 's Reader \<Rightarrow> (header \<times> error option \<times> 's Reader) run" where
  "readMIMEHeader read b = readMIMEHeader_loop read Map.empty b"

definition parseRequestLine :: "string \<Rightarrow> (string \<times> string \<times> string) option" where
  "parseRequestLine line =
     (case strings_Index line '' '' of
        None \<Rightarrow> None
      | Some s1 \<Rightarrow>
          (case strings_Index (drop (s1 + 1) line) '' '' of
             None \<Rightarrow> None
           | Some s2 \<Rightarrow> Some (take s1 line, take s2 (drop (s1 + 1) line), drop (s1 + 1 + s2 + 1) line)))"

definition ReadRequest :: "'s io_read \<Rightarrow> 's Reader \<Rightarrow> (Request option \<times> error option \<times> 's Reader) run" where
  "ReadRequest read r =
     rbind (Request_readLine read r) (\<lambda>(l, r1).
       case l of
         Inl e \<Rightarrow> Some (Ret (Some Request_zero, Some e, r1))
       | Inr b \<Rightarrow>
           (case parseRequestLine (go_string b) of
              None \<Rightarrow> Some (Ret (None, Some (Errorf ''malformed HTTP request %s''), r1))
            | Some (m, u, p) \<Rightarrow>
                let req = Request_zero\<lparr>rq_Method := m, rq_RequestURI := u, rq_Proto := p\<rparr> in
                rbind (readMIMEHeader read r1) (\<lambda>(h, err, r2).
                  if err \<noteq> None then Some (Ret (Some (req\<lparr>rq_Header := h\<rparr>), err, r2))
                  else Some (Ret (Some (req\<lparr>rq_Header := h, rq_Host := Header_Get ''Host'' h\<rparr>), None, r2)))))"

section \<open>Switching protocols\<close>

text \<open>The checks of \<open>Upgrade\<close>, in their order.\<close>

definition upgrade_check :: "(string \<Rightarrow> string) \<Rightarrow> Request \<Rightarrow> upgrade_error option" where
  "upgrade_check ulower req =
     (if rq_Method req \<noteq> ''GET'' then Some ErrBadRequestMethod
      else if Header_Get ''Sec-Websocket-Version'' (rq_Header req) \<noteq> ''13'' then Some ErrBadWebSocketVersion
      else if strings_ToLower ulower (Header_Get ''Upgrade'' (rq_Header req)) \<noteq> ''websocket'' then Some ErrNotWebSocket
      else if \<not> strings_Contains (strings_ToLower ulower (Header_Get ''Connection'' (rq_Header req))) ''upgrade'' then Some ErrNotWebSocket
      else if Header_Get ''Sec-Websocket-Key'' (rq_Header req) = [] then Some ErrChallengeResponse
      else None)"

definition crlf :: string where "crlf = [CHR 0x0D, CHR 0x0A]"

definition switching :: string where
  "switching = ''HTTP/1.1 101 Switching Protocols'' @ crlf @ ''Upgrade: websocket'' @ crlf @ ''Connection: Upgrade'' @ crlf"

definition accept_line :: "string \<Rightarrow> string" where
  "accept_line key = ''Sec-WebSocket-Accept: '' @ computeAcceptKey key @ crlf @ crlf"

text \<open>\<open>None\<close>: with an empty buffer \<open>WriteString\<close> does not return.\<close>

definition Upgrade ::
    "(string \<Rightarrow> string) \<Rightarrow> 't io_write \<Rightarrow> 's Reader \<Rightarrow> 't Writer \<Rightarrow> Request \<Rightarrow> ((error + ('s, 't) Conn) \<times> 't Writer) option" where
  "Upgrade ulower wrt rr wr req =
     (case upgrade_check ulower req of
        Some e \<Rightarrow> Some (Inl (Upgrading e), wr)
      | None \<Rightarrow>
          (case Writer_WriteString wrt (go_bytes switching) wr of
             None \<Rightarrow> None
           | Some (_, _, w1) \<Rightarrow>
               (case Writer_WriteString wrt (go_bytes (accept_line (Header_Get ''Sec-Websocket-Key'' (rq_Header req)))) w1 of
                  None \<Rightarrow> None
                | Some (_, _, w2) \<Rightarrow>
                    (case Writer_Flush wrt w2 of
                       (Some e, w3) \<Rightarrow> Some (Inl e, w3)
                     | (None, w3) \<Rightarrow> Some (Inr (newConn rr w3), w3)))))"

section \<open>Lines of a stream\<close>

text \<open>A line without the carriage return that may end it.\<close>

definition chomp :: "byte list \<Rightarrow> byte list" where
  "chomp l = (if l \<noteq> [] \<and> last l = 13 then butlast l else l)"

lemma chomp_append: "l2 \<noteq> [] \<or> l1 = [] \<or> last l1 \<noteq> 13 \<Longrightarrow> chomp (l1 @ l2) = l1 @ chomp l2"
  by (cases "l2 = []") (auto simp: chomp_def butlast_append)

lemma chomp_cr [simp]: "chomp (l @ [13]) = l" by (simp add: chomp_def)

lemma prefix_before_newline:
  fixes l r line u :: "byte list"
  assumes "l @ 10 # r = line @ u" and "10 \<notin> set line"
  shows "\<exists>l2. l = line @ l2 \<and> u = l2 @ 10 # r"
proof -
  have "us = []" if "10 # r = us @ u" "line = l @ us" for us using that assms(2) by (cases us) auto
  then show ?thesis using assms(1) by (auto simp: append_eq_append_conv2)
qed

lemma split_at_newline:
  fixes l r m r' :: "byte list"
  assumes "10 \<notin> set l" and "10 \<notin> set m" and "l @ 10 # r = m @ 10 # r'"
  shows "l = m \<and> r = r'"
proof -
  obtain l2 where l2: "l = m @ l2" "10 # r' = l2 @ 10 # r" using prefix_before_newline [OF assms(3,2)] by auto
  then have "l2 = []" using assms(1) by (cases l2) auto
  then show ?thesis using l2 by simp
qed

context live_reader
begin

text \<open>While the delimiter is still to come, \<open>ReadSlice\<close> fails only when the buffer is full.\<close>

lemma ReadSlice_live:
  assumes "Reader_ok sok b" and "Reader_drained future b" and "0 < length (rd_buf b)" and "delim \<in> set (Reader_unread future b)"
    and "Reader_ReadSlice read delim b = Ret (line, e, b')"
  shows "Reader_drained future b' \<and> (e = None \<or> e = Some (Bufio ErrBufferFull) \<and> length line = length (rd_buf b))"
  using assms
proof (induction "if rd_err b = None then Suc (length (rd_buf b) - Reader_Buffered b) else 0" arbitrary: b rule: less_induct)
  case less
  let ?d = "seg (rd_buf b) (rd_r b) (rd_w b)"
  have ok: "rd_r b \<le> rd_w b" "rd_w b \<le> length (rd_buf b)" using less.prems(1) by (auto simp: Reader_ok_def)
  note un = less.prems(5) [unfolded Reader_ReadSlice.simps [of read delim b]]
  show ?case
  proof (cases "IndexByte ?d delim")
    case (Some i)
    have "rd_r b + (i + 1) \<le> length (rd_buf b)" using IndexByte_Some [OF Some] ok by auto
    then show ?thesis using un ok Some less.prems(2) by (auto simp: Reader_drained_def)
  next
    case None
    then have nin: "delim \<notin> set ?d" by (simp add: IndexByte_None)
    consider (pending) "rd_err b \<noteq> None" | (full) "rd_err b = None" "length (rd_buf b) \<le> Reader_Buffered b"
      | (fill) "rd_err b = None" "Reader_Buffered b < length (rd_buf b)" by force
    then show ?thesis
    proof cases
      case pending
      then have "Reader_unread future b = ?d" using less.prems(2) by (auto simp: Reader_drained_def Reader_unread_def)
      then show ?thesis using less.prems(4) nin by metis
    next
      case full
      then show ?thesis using un ok None by (auto simp: Reader_drained_def)
    next
      case fill
      obtain b1 where fl: "Reader_fill read b = Ret b1" and s1: "Reader_same future sok b b1"
        using fill_same [OF less.prems(1)] fill by auto
      have rs: "Reader_ReadSlice read delim b1 = Ret (line, e, b')" using un ok fill fl None by simp
      have dec: "(if rd_err b1 = None then Suc (length (rd_buf b1) - Reader_Buffered b1) else 0)
          < (if rd_err b = None then Suc (length (rd_buf b) - Reader_Buffered b) else 0)"
        using Reader_fill_progress [OF fl] fill by auto
      have "Reader_drained future b1" using fill_drained [OF less.prems(1) fill(1) fl] .
      moreover have "0 < length (rd_buf b1)" "delim \<in> set (Reader_unread future b1)" "length (rd_buf b1) = length (rd_buf b)"
        using s1 less.prems(3,4) by (simp_all add: Reader_same_def)
      ultimately show ?thesis using less.hyps [OF dec Reader_same_ok [OF s1] _ _ _ rs] by metis
    qed
  qed
qed

lemma ReadLine_live:
  assumes at: "Reader_at future sok N (l @ 10 # rest) b" and nl: "10 \<notin> set l" and N: "2 \<le> N"
  shows "(\<exists>b'. Reader_ReadLine read b = Ret (chomp l, False, None, b') \<and> Reader_at future sok N rest b') \<or>
    (\<exists>l1 l2 b'. l = l1 @ l2 \<and> l1 \<noteq> [] \<and> chomp l = l1 @ chomp l2 \<and> Reader_ReadLine read b = Ret (l1, True, None, b') \<and>
       Reader_at future sok N (l2 @ 10 # rest) b')"
proof -
  have ok: "Reader_ok sok b" "Reader_drained future b" "length (rd_buf b) = N" "Reader_unread future b = l @ 10 # rest"
    using at by (auto simp: Reader_at_def)
  have len: "0 < length (rd_buf b)" using ok N by simp
  obtain line e b1 where rs: "Reader_ReadSlice read 10 b = Ret (line, e, b1)" and ok1: "Reader_ok sok b1"
    and un: "Reader_unread future b = line @ Reader_unread future b1"
    and lb: "length (rd_buf b1) = length (rd_buf b)" and ll: "length line \<le> rd_r b1"
    and sg: "seg (rd_buf b1) (rd_r b1 - length line) (rd_r b1) = line"
    and nl1: "if e = None then \<exists>l. line = l @ [10] \<and> 10 \<notin> set l else 10 \<notin> set line"
    using ReadSlice_spec [OF ok(1) len, of 10] by (elim exE conjE)
  have lv: "Reader_drained future b1" "e = None \<or> e = Some (Bufio ErrBufferFull) \<and> length line = length (rd_buf b)"
    using ReadSlice_live [OF ok(1,2) len _ rs] ok(4) by auto
  note rl = Reader_ReadLine_def [of read b, unfolded rs obind.simps prod.case]
  have at1: "Reader_at future sok N (Reader_unread future b1) b1" using ok1 lv(1) lb ok(3) by (simp add: Reader_at_def)
  show ?thesis
  proof (cases e)
    case None
    then obtain m where m: "line = m @ [10]" "10 \<notin> set m" using nl1 by auto
    then have "l = m" "rest = Reader_unread future b1" using un ok(4) nl split_at_newline [of l m] by auto
    moreover have "Reader_ReadLine read b = Ret (chomp m, False, None, b1)"
      using None m by (auto simp: rl chomp_def nth_append last_conv_nth butlast_conv_take)
    ultimately show ?thesis using at1 by simp
  next
    case (Some e1)
    then have full: "e = Some (Bufio ErrBufferFull)" "length line = N" "10 \<notin> set line" "line \<noteq> []"
      using lv(2) nl1 ok(3) N by auto
    obtain l2 where l2: "l = line @ l2" "Reader_unread future b1 = l2 @ 10 # rest"
      using prefix_before_newline [of l rest line] un ok(4) full(3) by auto
    have lst: "line ! (length line - Suc 0) = last line" using full(4) by (simp add: last_conv_nth)
    show ?thesis
    proof (cases "last line = 13")
      case True
      let ?b = "b1\<lparr>rd_r := rd_r b1 - 1\<rparr>"
      have ul: "Reader_unread future ?b = 13 # l2 @ 10 # rest" "Reader_ok sok ?b"
        using unread_last [OF ok1 sg ll full(4)] True l2 by simp_all
      have "0 < rd_r b1" using ll full(4) by (cases line) auto
      then have "Reader_ReadLine read b = Ret (butlast line, True, None, ?b)"
        using full(1,4) True lst by (simp add: rl butlast_conv_take)
      moreover have "butlast line \<noteq> []" using full(2) N by (metis Suc_1 diff_is_0_eq length_butlast list.size(3) not_less_eq_eq)
      moreover have "l = butlast line @ (13 # l2)" using l2 True full(4) by (metis append.assoc append_Cons append_Nil append_butlast_last_id)
      moreover have "Reader_at future sok N ((13 # l2) @ 10 # rest) ?b"
        using ul lv(1) lb ok(3) by (simp add: Reader_at_def Reader_drained_def)
      ultimately show ?thesis using chomp_append [of "13 # l2" "butlast line"] by (metis list.distinct(1))
    next
      case False
      then have "Reader_ReadLine read b = Ret (line, True, None, b1)" using full lst by (simp add: rl)
      then show ?thesis using l2 full(4) at1 chomp_append [of l2 line] False by metis
    qed
  qed
qed

lemma readLine_loop_live:
  assumes "Reader_at future sok N (l @ 10 # rest) b" and "10 \<notin> set l" and "2 \<le> N"
  shows "\<exists>b'. readLine_loop read line b = Some (Ret (Inr (line @ chomp l), b')) \<and> Reader_at future sok N rest b'"
  using assms(1,2)
proof (induction "length l" arbitrary: l line b rule: less_induct)
  case less
  from ReadLine_live [OF less.prems assms(3)] show ?case
  proof (elim disjE exE conjE)
    fix b' assume "Reader_ReadLine read b = Ret (chomp l, False, None, b')" "Reader_at future sok N rest b'"
    then show ?thesis by (subst readLine_loop.simps) simp
  next
    fix l1 l2 b'
    assume l: "l = l1 @ l2" "l1 \<noteq> []" "chomp l = l1 @ chomp l2" and rl: "Reader_ReadLine read b = Ret (l1, True, None, b')"
      and at: "Reader_at future sok N (l2 @ 10 # rest) b'"
    have "length l2 < length l" "10 \<notin> set l2" using l less.prems(2) by auto
    then show ?thesis using less.hyps [OF _ at, of "line @ l1"] l rl by (subst readLine_loop.simps) simp
  qed
qed

lemma readLine_live:
  assumes "Reader_at future sok N (l @ 10 # rest) b" and "10 \<notin> set l" and "2 \<le> N"
  shows "\<exists>b'. Request_readLine read b = Some (Ret (Inr (chomp l), b')) \<and> Reader_at future sok N rest b'"
  using readLine_loop_live [OF assms, of "[]"] by (simp add: Request_readLine_def)

end

section \<open>Headers\<close>

text \<open>The first value sent for a key, which \<open>Get\<close> returns.\<close>

fun header_value :: "string \<Rightarrow> (string \<times> string) list \<Rightarrow> string" where
  "header_value k [] = []"
| "header_value k ((k', v) # hs) = (if CanonicalMIMEHeaderKey k' = CanonicalMIMEHeaderKey k then v else header_value k hs)"

lemma header_value_canon: "CanonicalMIMEHeaderKey k = CanonicalMIMEHeaderKey k' \<Longrightarrow> header_value k hs = header_value k' hs"
  by (induction k hs rule: header_value.induct) simp_all

definition headers :: "(string \<times> string) list \<Rightarrow> header" where
  "headers hs = fold (\<lambda>(k, v). Header_Add k v) hs Map.empty"

lemma Header_Get_Add_same:
  "Header_Get k (Header_Add k' v h) =
     (if CanonicalMIMEHeaderKey k' = CanonicalMIMEHeaderKey k \<and> (h (CanonicalMIMEHeaderKey k) = None \<or> h (CanonicalMIMEHeaderKey k) = Some [])
      then v else Header_Get k h)"
  by (auto simp: Header_Get_def Header_Add_def Let_def split: option.splits list.splits)

lemma Header_Get_fold:
  "h c \<noteq> Some [] \<Longrightarrow> c = CanonicalMIMEHeaderKey k \<Longrightarrow>
   Header_Get k (fold (\<lambda>(k, v). Header_Add k v) hs h) = (if h c = None then header_value k hs else Header_Get k h)"
proof (induction hs arbitrary: h)
  case (Cons kv hs)
  obtain k' v where kv: "kv = (k', v)" by fastforce
  have "Header_Add k' v h c \<noteq> Some []" using Cons.prems by (auto simp: Header_Add_def Let_def split: option.splits)
  moreover have "Header_Add k' v h c = None \<longleftrightarrow> h c = None \<and> CanonicalMIMEHeaderKey k' \<noteq> c" by (simp add: Header_Add_def Let_def)
  ultimately show ?case using Cons kv by (simp add: Header_Get_Add_same)
qed (auto simp: Header_Get_def)

lemma Header_Get_headers: "Header_Get k (headers hs) = header_value k hs"
  using Header_Get_fold [of Map.empty _ k hs] by (simp add: headers_def)

text \<open>A header as a client writes it, and what makes it well formed.\<close>

definition header_bytes :: "string \<times> string \<Rightarrow> byte list" where
  "header_bytes kv = go_bytes (fst kv) @ [58, 32] @ go_bytes (snd kv) @ [13, 10]"

definition header_ok :: "string \<times> string \<Rightarrow> bool" where
  "header_ok kv \<longleftrightarrow> (let k = go_bytes (fst kv); v = go_bytes (snd kv) in
     k \<noteq> [] \<and> \<not> is_blank (hd k) \<and> 58 \<notin> set k \<and> 10 \<notin> set k \<and> 10 \<notin> set v \<and>
     (v = [] \<or> \<not> is_blank (hd v) \<and> \<not> is_blank (last v)))"

lemma dropWhile_hd: "xs = [] \<or> \<not> P (hd xs) \<Longrightarrow> dropWhile P xs = xs" by (cases xs) auto

lemma trim_id: "xs \<noteq> [] \<Longrightarrow> \<not> is_blank (hd xs) \<Longrightarrow> \<not> is_blank (last xs) \<Longrightarrow> trim xs = xs"
  by (simp add: trim_def dropWhile_hd hd_rev)

lemma trim_blank: "xs \<noteq> [] \<Longrightarrow> \<not> is_blank (hd xs) \<Longrightarrow> is_blank x \<Longrightarrow> trim (xs @ [x]) = rev (dropWhile is_blank (rev xs))"
  by (simp add: trim_def dropWhile_hd)

lemma IndexByte_append: "c \<notin> set xs \<Longrightarrow> IndexByte (xs @ c # ys) c = Some (length xs)"
  by (induction xs) auto

lemma header_line_sent:
  assumes "header_ok kv"
  shows "trim (go_bytes (fst kv) @ [58, 32] @ go_bytes (snd kv)) \<noteq> [] \<and>
    header_line (trim (go_bytes (fst kv) @ [58, 32] @ go_bytes (snd kv))) = Some kv"
proof -
  let ?k = "go_bytes (fst kv)" and ?v = "go_bytes (snd kv)"
  have k: "?k \<noteq> []" "\<not> is_blank (hd ?k)" "58 \<notin> set ?k" and v: "?v = [] \<or> \<not> is_blank (hd ?v) \<and> \<not> is_blank (last ?v)"
    using assms by (auto simp: header_ok_def Let_def)
  have col: "\<not> is_blank 58" "is_blank 32" by (simp_all add: is_blank_def)
  have "trim (?k @ [58, 32] @ ?v) = ?k @ 58 # (if ?v = [] then [] else 32 # ?v)"
  proof (cases "?v = []")
    case True
    then show ?thesis using trim_blank [of "?k @ [58]" 32] k col by simp
  next
    case False
    then show ?thesis using trim_id [of "?k @ [58, 32] @ ?v"] k v by simp
  qed
  moreover have "header_line (?k @ 58 # (if ?v = [] then [] else 32 # ?v)) = Some kv"
  proof -
    have "dropWhile is_blank ?v = ?v" using v by (intro dropWhile_hd) auto
    moreover have "go_string [] = snd kv" if "?v = []" using that go_string_bytes [of "snd kv"] by simp
    ultimately show ?thesis using k col by (cases kv) (simp add: header_line_def IndexByte_append)
  qed
  ultimately show ?thesis by simp
qed

context live_reader
begin

lemma readMIMEHeader_live:
  assumes "\<forall>kv\<in>set hs. header_ok kv" and "2 \<le> N" and "Reader_at future sok N (concat (map header_bytes hs) @ [13, 10] @ rest) b"
  shows "\<exists>b'. readMIMEHeader_loop read h b = Some (Ret (fold (\<lambda>(k, v). Header_Add k v) hs h, None, b')) \<and> Reader_at future sok N rest b'"
  using assms(1,3)
proof (induction hs arbitrary: h b)
  case Nil
  then have "Reader_at future sok N ([13] @ 10 # rest) b" by simp
  then obtain b' where "Request_readLine read b = Some (Ret (Inr (chomp [13]), b'))" "Reader_at future sok N rest b'"
    using readLine_live [of N "[13]" rest b] assms(2) by auto
  then show ?case by (subst readMIMEHeader_loop.simps) (simp add: chomp_def trim_def)
next
  case (Cons kv hs)
  let ?l = "go_bytes (fst kv) @ [58, 32] @ go_bytes (snd kv)"
  have ok: "header_ok kv" using Cons.prems(1) by simp
  then have nl: "10 \<notin> set (?l @ [13])" by (auto simp: header_ok_def Let_def)
  have "Reader_at future sok N ((?l @ [13]) @ 10 # (concat (map header_bytes hs) @ [13, 10] @ rest)) b"
    using Cons.prems(2) by (simp add: header_bytes_def [of kv])
  from readLine_live [OF this nl assms(2)]
  obtain b1 where rl: "Request_readLine read b = Some (Ret (Inr ?l, b1))"
    and at: "Reader_at future sok N (concat (map header_bytes hs) @ [13, 10] @ rest) b1" unfolding chomp_cr by (elim exE conjE)
  obtain k v where kv: "kv = (k, v)" by fastforce
  have "readMIMEHeader_loop read h b = readMIMEHeader_loop read (Header_Add k v h) b1"
    using rl header_line_sent [OF ok] kv by (subst readMIMEHeader_loop.simps) simp
  then show ?case using Cons.IH [OF _ at, of "Header_Add k v h"] Cons.prems(1) kv by simp
qed

end

section \<open>Reading a request\<close>

definition request_bytes :: "string \<Rightarrow> string \<Rightarrow> string \<Rightarrow> (string \<times> string) list \<Rightarrow> byte list" where
  "request_bytes m u p hs =
     go_bytes m @ 32 # go_bytes u @ 32 # go_bytes p @ [13, 10] @ concat (map header_bytes hs) @ [13, 10]"

definition word_ok :: "string \<Rightarrow> bool" where
  "word_ok s \<longleftrightarrow> CHR '' '' \<notin> set s \<and> 10 \<notin> set (go_bytes s)"

lemma parseRequestLine_sent:
  assumes "CHR '' '' \<notin> set m" and "CHR '' '' \<notin> set u"
  shows "parseRequestLine (m @ CHR '' '' # u @ CHR '' '' # p) = Some (m, u, p)"
  using assms by (simp add: parseRequestLine_def Index_char IndexByte_append)

context live_reader
begin

lemma ReadRequest_live:
  assumes "word_ok m" and "word_ok u" and "10 \<notin> set (go_bytes p)" and "\<forall>kv\<in>set hs. header_ok kv" and "2 \<le> N"
    and "Reader_at future sok N (request_bytes m u p hs @ rest) r"
  shows "\<exists>r'. ReadRequest read r = Some (Ret (Some \<lparr>rq_Method = m, rq_RequestURI = u, rq_Proto = p,
      rq_Host = header_value ''Host'' hs, rq_Header = headers hs\<rparr>, None, r')) \<and> Reader_at future sok N rest r'"
proof -
  let ?l = "go_bytes m @ 32 # go_bytes u @ 32 # go_bytes p"
  have nl: "10 \<notin> set (?l @ [13])" using assms(1-3) by (auto simp: word_ok_def)
  have "Reader_at future sok N ((?l @ [13]) @ 10 # (concat (map header_bytes hs) @ [13, 10] @ rest)) r"
    using assms(6) by (simp add: request_bytes_def)
  from readLine_live [OF this nl assms(5)]
  obtain r1 where rl: "Request_readLine read r = Some (Ret (Inr ?l, r1))"
    and at: "Reader_at future sok N (concat (map header_bytes hs) @ [13, 10] @ rest) r1" unfolding chomp_cr by (elim exE conjE)
  have l: "go_string ?l = m @ CHR '' '' # u @ CHR '' '' # p"
  proof -
    have "?l = go_bytes (m @ CHR '' '' # u @ CHR '' '' # p)" by (simp add: go_bytes_def)
    then show ?thesis by (simp only: go_string_bytes)
  qed
  obtain r2 where "readMIMEHeader read r1 = Some (Ret (headers hs, None, r2))" "Reader_at future sok N rest r2"
    using readMIMEHeader_live [OF assms(4,5) at, of Map.empty] by (auto simp: readMIMEHeader_def headers_def)
  then show ?thesis
    using rl l assms(1,2) parseRequestLine_sent [of m u p] by (simp add: ReadRequest_def word_ok_def Request_zero_def Let_def Header_Get_headers)
qed

end

section \<open>Properties\<close>

text \<open>The answer of \<open>Upgrade\<close> to a request that passes the checks.\<close>

lemma Upgrade_spec:
  assumes wr: "io_writer wrt sent" and ok: "Writer_ok w" "wr_buf w \<noteq> []" and chk: "upgrade_check ulower req = None"
  shows "\<exists>res w'. Upgrade ulower wrt rr w req = Some (res, w') \<and> Writer_ok w' \<and>
    (\<forall>c. res = Inr c \<longrightarrow> c = newConn rr w' \<and>
       sent (wr_wr w') = Writer_out sent w @ go_bytes (switching @ accept_line (Header_Get ''Sec-Websocket-Key'' (rq_Header req))))"
proof -
  let ?s1 = "go_bytes switching" and ?s2 = "go_bytes (accept_line (Header_Get ''Sec-Websocket-Key'' (rq_Header req)))"
  obtain k1 e1 w1 where s1: "Writer_WriteString wrt ?s1 w = Some (k1, e1, w1)" "Writer_took sent k1 ?s1 w w1"
      "e1 = wr_err w1" "e1 = None \<longrightarrow> k1 = length ?s1"
    using io_writer.WriteString_spec [OF wr ok, of ?s1] by (elim exE conjE) (rule that)
  have ok1: "Writer_ok w1" "wr_buf w1 \<noteq> []" using s1(2) ok(2) by (auto simp: Writer_took_def)
  obtain k2 e2 w2 where s2: "Writer_WriteString wrt ?s2 w1 = Some (k2, e2, w2)" "Writer_took sent k2 ?s2 w1 w2"
      "e2 = wr_err w2" "e2 = None \<longrightarrow> k2 = length ?s2"
    using io_writer.WriteString_spec [OF wr ok1, of ?s2] by (elim exE conjE) (rule that)
  obtain e w' where fl: "Writer_Flush wrt w2 = (e, w')" by fastforce
  note f = io_writer.flush_spec [OF wr _ fl [unfolded Writer_Flush_def]]
  have ok2: "Writer_ok w2" using s2(2) by (rule Writer_took_ok)
  have all: "sent (wr_wr w') = Writer_out sent w @ ?s1 @ ?s2" if "e = None"
  proof -
    have n2: "wr_err w2 = None" using fl that by (auto simp: Writer_Flush_def Writer_flush_def split: if_splits)
    then have "wr_err w1 = None" using s2(1) Writer_error_sticky(4) [of w1 _ wrt ?s2] by (cases "wr_err w1") auto
    then show ?thesis using n2 s1 s2 f(4) [OF ok2 that] by (simp add: Writer_took_def)
  qed
  have "Upgrade ulower wrt rr w req = Some (case e of Some e \<Rightarrow> Inl e | None \<Rightarrow> Inr (newConn rr w'), w')"
    using chk s1(1) s2(1) fl by (simp add: Upgrade_def split: option.split)
  then show ?thesis using f(2) [OF ok2] all by (auto split: option.splits)
qed


definition demo_headers :: "(string \<times> string) list" where
  "demo_headers = [(''Host'', ''server.example.com''), (''upgrade'', ''WebSocket''), (''Connection'', ''keep-alive, Upgrade''),
     (''Sec-WebSocket-Key'', ''dGhlIHNhbXBsZSBub25jZQ==''), (''sec-websocket-version'', ''13'')]"


end
