(* ===== verification/Serve_Websocket.thy ===== *)
theory Serve_Websocket
  imports Serve_TCP Websocket_Upgrade
begin

text \<open>
  \<open>internal/comet/server_websocket.go\<close>: the WebSocket server. The session is the one of the TCP server over
  another transport; the start differs, since the HTTP request comes first and the buffer for writing is
  taken only after it. A connection before the upgrade is a WebSocket connection with an empty writer.
\<close>

section \<open>The server\<close>

definition ws_transport ::
    "(nat \<Rightarrow> nat \<Rightarrow> nat) \<Rightarrow> 's io_read \<Rightarrow> 't io_write \<Rightarrow> (('s, 't) Conn \<Rightarrow> ('s, 't) Conn) \<Rightarrow> ('s, 't) Conn transport" where
  "ws_transport newcap read wrt close =
     \<lparr>tp_Read = (\<lambda>p c. Proto_ReadWebsocket newcap read wrt c p),
      tp_Write = (\<lambda>p c. Proto_WriteWebsocket wrt p c),
      tp_Heart = (\<lambda>p on c. Some (Proto_WriteWebsocketHeart wrt p on c)),
      tp_Flush = (\<lambda>c. Some (Ret (Conn_Flush wrt c))),
      tp_Close = close\<rparr>"

definition authWebsocket ::
    "(nat \<Rightarrow> nat \<Rightarrow> nat) \<Rightarrow> 's io_read \<Rightarrow> 't io_write \<Rightarrow> (('s, 't) Conn \<Rightarrow> ('s, 't) Conn) \<Rightarrow> 'l LogicClient \<Rightarrow> string \<Rightarrow> Proto \<Rightarrow>
     ('s, 't) Conn \<Rightarrow> 'l Server \<Rightarrow> (error option \<times> ConnectReply \<times> Proto \<times> ('s, 't) Conn \<times> 'l Server) run" where
  "authWebsocket newcap read wrt close lc cookie p c sv = auth (ws_transport newcap read wrt close) lc cookie p c sv"

text \<open>What a connection holds before its session: channel, timer entry, buffer for reading.\<close>

definition ws_session :: "addr \<Rightarrow> nat \<Rightarrow> addr \<Rightarrow> nat \<Rightarrow> addr \<Rightarrow> nat \<Rightarrow> addr \<Rightarrow> int \<Rightarrow> int \<Rightarrow> session" where
  "ws_session ch tr trd rp rb wp wb now0 hb =
     \<lparr>ss_ch = ch, ss_b = 0, ss_tr = tr, ss_trd = trd, ss_rp = rp, ss_rb = rb, ss_wp = wp, ss_wb = wb,
      ss_hb = 0, ss_lastHb = now0, ss_serverHb = hb\<rparr>"

text \<open>The way out of a request that is not an upgrade: close, \<open>tr.Del\<close>, \<open>rp.Put\<close>, and \<open>wp.Put\<close> when a buffer was taken.\<close>

definition ws_reject ::
    "nat \<Rightarrow> addr \<Rightarrow> nat \<Rightarrow> addr \<Rightarrow> (nat \<times> addr) option \<Rightarrow> error option \<Rightarrow> 'c \<Rightarrow> 'l Server \<Rightarrow> ((error option + session) \<times> 'c \<times> 'l Server) outcome" where
  "ws_reject tr trd rp rb wb err c sv =
     obind (timer_del tr trd sv) (\<lambda>sv1.
       Ret (Inl err, c, (case wb of None \<Rightarrow> id | Some (wp, b) \<Rightarrow> writer_put wp b) (reader_put rp rb sv1)))"

text \<open>
  From the upgrade on: \<open>wp.Get\<close>, \<open>Upgrade\<close>, then the handshake on the new connection with the cookie of the
  request.
\<close>

definition ws_upgraded ::
    "(byte list \<Rightarrow> 32 word \<Rightarrow> 32 word) \<Rightarrow> (string \<Rightarrow> string) \<Rightarrow> (nat \<Rightarrow> nat \<Rightarrow> nat) \<Rightarrow> 's io_read \<Rightarrow> 't io_write \<Rightarrow>
     (('s, 't) Conn \<Rightarrow> ('s, 't) Conn) \<Rightarrow> 'l LogicClient \<Rightarrow> int \<Rightarrow> session \<Rightarrow> 't \<Rightarrow> Request \<Rightarrow> 's Reader \<Rightarrow> 'l Server \<Rightarrow>
     ((error option + session) \<times> ('s, 't) Conn \<times> 'l Server) run" where
  "ws_upgraded hash ulower newcap read wrt close lc now2 ss0 out0 req rr sv =
     rbind (Some (writer_get (ss_wp ss0) sv)) (\<lambda>(wb, sv1).
     let ss = ss0\<lparr>ss_wb := wb\<rparr>;
         w = \<lparr>wr_err = None, wr_buf = Buffer_Bytes (rn_writers (sv_round sv1) ! ss_wp ss) wb, wr_n = 0, wr_wr = out0\<rparr> in
     (case Upgrade ulower wrt rr w req of
        None \<Rightarrow> None
      | Some (Inl e, w1) \<Rightarrow>
          Some (ws_reject (ss_tr ss) (ss_trd ss) (ss_rp ss) (ss_rb ss) (Some (ss_wp ss, wb)) (Some e) (close (newConn rr w1)) sv1)
      | Some (Inr ws, w1) \<Rightarrow>
          rbind (handshake hash (ws_transport newcap read wrt close) lc (Header_Get ''Cookie'' (rq_Header req)) (ss_ch ss) ws sv1) (\<lambda>h.
            Some (obind (serve_begin (ws_transport newcap read wrt close) now2 ss h) (\<lambda>(r, c, sv2).
              Ret (map_sum Some id r, c, sv2))))))"

definition ServeWebsocket_start ::
    "(byte list \<Rightarrow> 32 word \<Rightarrow> 32 word) \<Rightarrow> (string \<Rightarrow> string) \<Rightarrow> (nat \<Rightarrow> nat \<Rightarrow> nat) \<Rightarrow> 's io_read \<Rightarrow> 't io_write \<Rightarrow>
     (('s, 't) Conn \<Rightarrow> ('s, 't) Conn) \<Rightarrow> 'l LogicClient \<Rightarrow> (int \<Rightarrow> int) \<Rightarrow> int \<Rightarrow> int \<Rightarrow> int \<Rightarrow> nat \<Rightarrow> 's \<Rightarrow> 't \<Rightarrow> string \<Rightarrow> 'l Server \<Rightarrow>
     ((error option + session) \<times> ('s, 't) Conn \<times> 'l Server) run" where
  "ServeWebsocket_start hash ulower newcap read wrt close lc rnd now0 now1 now2 r in0 out0 ip sv =
     rbind (Some (Round_Timer r (sv_round sv))) (\<lambda>tr.
     rbind (Some (Round_Reader r (sv_round sv))) (\<lambda>rp.
     rbind (Some (Round_Writer r (sv_round sv))) (\<lambda>wp.
     rbind (Some (reader_get rp sv)) (\<lambda>(rb, sv1).
     let (ch, sv2) = new_channel ip sv1;
         rpool = rn_readers (sv_round sv2) ! rp;
         rr = Reader_reset (Buffer_Bytes rpool rb) (Buffer_spare rpool rb) in0;
         w0 = \<lparr>wr_err = None, wr_buf = [], wr_n = 0, wr_wr = out0\<rparr> in
     rbind (Some (with_timer tr (Timer_Add now1 (cf_HandshakeTimeout (sv_c sv2)) (Some ch)) sv2)) (\<lambda>(trd, sv3).
     rbind (ReadRequest read rr) (\<lambda>(req, err, rr1).
       case (req, err) of
         (Some q, None) \<Rightarrow>
           if rq_RequestURI q \<noteq> ''/sub'' then Some (ws_reject tr trd rp rb None None (close (newConn rr1 w0)) sv3)
           else ws_upgraded hash ulower newcap read wrt close lc now2
                  (ws_session ch tr trd rp rb wp 0 now0 (RandServerHearbeat rnd)) out0 q rr1 sv3
       | (None, None) \<Rightarrow> Some (Panic NilDereference)
       | (_, Some e) \<Rightarrow> Some (ws_reject tr trd rp rb None (Some e) (close (newConn rr1 w0)) sv3)))))))"

text \<open>The reading loop and the writing goroutine of a WebSocket connection.\<close>

definition ServeWebsocket_read ::
    "(nat \<Rightarrow> nat \<Rightarrow> nat) \<Rightarrow> 's io_read \<Rightarrow> 't io_write \<Rightarrow> (('s, 't) Conn \<Rightarrow> ('s, 't) Conn) \<Rightarrow> 'l LogicClient \<Rightarrow> int \<Rightarrow> int \<Rightarrow> session \<Rightarrow>
     ('s, 't) Conn \<Rightarrow> 'l Server \<Rightarrow> (error option \<times> session \<times> ('s, 't) Conn \<times> 'l Server) run" where
  "ServeWebsocket_read newcap read wrt close lc now now2 ss c sv = serve_read (ws_transport newcap read wrt close) lc now now2 ss c sv"

definition dispatchWebsocket_turn ::
    "(nat \<Rightarrow> nat \<Rightarrow> nat) \<Rightarrow> 's io_read \<Rightarrow> 't io_write \<Rightarrow> (('s, 't) Conn \<Rightarrow> ('s, 't) Conn) \<Rightarrow> addr \<Rightarrow> int32 \<Rightarrow> ('s, 't) Conn \<Rightarrow> 'l Server \<Rightarrow>
     (dnext \<times> int32 \<times> ('s, 't) Conn \<times> 'l Server) run" where
  "dispatchWebsocket_turn newcap read wrt close ch online c sv = dispatch_turn (ws_transport newcap read wrt close) ch online c sv"

text \<open>The end of the reading goroutine, its buffer given back after the finish signal.\<close>

definition ServeWebsocket_end1 ::
    "(nat \<Rightarrow> nat \<Rightarrow> nat) \<Rightarrow> 's io_read \<Rightarrow> 't io_write \<Rightarrow> (('s, 't) Conn \<Rightarrow> ('s, 't) Conn) \<Rightarrow> session \<Rightarrow> ('s, 't) Conn \<Rightarrow> 'l Server \<Rightarrow>
     (('s, 't) Conn \<times> 'l Server) run" where
  "ServeWebsocket_end1 newcap read wrt close ss c sv = serve_end1 False (ws_transport newcap read wrt close) ss c sv"

definition ServeWebsocket_end2 :: "'l LogicClient \<Rightarrow> session \<Rightarrow> 'l Server \<Rightarrow> 'l Server" where
  "ServeWebsocket_end2 lc ss sv = serve_end2 False lc ss sv"

text \<open>The end of the writing goroutine, before it discards what is left in the queue.\<close>

definition dispatchWebsocket_end ::
    "(nat \<Rightarrow> nat \<Rightarrow> nat) \<Rightarrow> 's io_read \<Rightarrow> 't io_write \<Rightarrow> (('s, 't) Conn \<Rightarrow> ('s, 't) Conn) \<Rightarrow> session \<Rightarrow> ('s, 't) Conn \<Rightarrow> 'l Server \<Rightarrow>
     ('s, 't) Conn \<times> 'l Server" where
  "dispatchWebsocket_end newcap read wrt close ss c sv = dispatch_end (ws_transport newcap read wrt close) ss c sv"

section \<open>A request over a WebSocket\<close>

definition ws_binary :: "Proto \<Rightarrow> byte list" where
  "ws_binary p = ws_frame True BinaryMessage None (proto_frame p)"

definition ws_heart :: "int32 \<Rightarrow> Proto \<Rightarrow> byte list" where
  "ws_heart on p = ws_binary (p\<lparr>Body := Some (be32 on)\<rparr>)"

lemma ws_message_out:
  assumes "io_writer wrt sent"
  shows "message_out (ws_transport newcap read wrt close) (\<lambda>c. Writer_ok (ws_w c) \<and> P (ws_r c)) (\<lambda>c. Writer_out sent (ws_w c)) ws_binary ws_heart"
proof
  fix c :: "('b, 'a) Conn" and p :: Proto and on :: int32
  assume cok: "Writer_ok (ws_w c) \<and> P (ws_r c)"
  then have ok: "Writer_ok (ws_w c)" by simp
  show "\<exists>e c'. tp_Write (ws_transport newcap read wrt close) p c = Some (Ret (e, c')) \<and> (Writer_ok (ws_w c') \<and> P (ws_r c')) \<and>
    (e = None \<longrightarrow> Writer_out sent (ws_w c') = Writer_out sent (ws_w c) @ ws_binary p)"
    using io_writer.WriteWebsocket_spec [OF assms ok, of p] cok by (auto simp: ws_transport_def ws_binary_def Writer_took_def)
  show "\<exists>e c'. tp_Heart (ws_transport newcap read wrt close) p on c = Some (Ret (e, c')) \<and> (Writer_ok (ws_w c') \<and> P (ws_r c')) \<and>
    (e = None \<longrightarrow> Writer_out sent (ws_w c') = Writer_out sent (ws_w c) @ ws_heart on p)"
    using io_writer.WriteWebsocketHeart_spec [OF assms ok, of p on] cok by (auto simp: ws_transport_def ws_heart_def ws_binary_def Writer_took_def)
  obtain e w where fl: "Writer_flush wrt (ws_w c) = (e, w)" by fastforce
  show "\<exists>e c'. tp_Flush (ws_transport newcap read wrt close) c = Some (Ret (e, c')) \<and> (Writer_ok (ws_w c') \<and> P (ws_r c')) \<and>
    (e = None \<longrightarrow> Writer_out sent (ws_w c') = Writer_out sent (ws_w c))"
    using io_writer.flush_spec(1,2) [OF assms ok fl] fl cok by (simp add: ws_transport_def Conn_Flush_def Writer_Flush_def)
qed

interpretation wsout: message_out "ws_transport newcap conn_read conn_write id" "\<lambda>c. Writer_ok (ws_w c) \<and> P (ws_r c)"
  "\<lambda>c. Writer_out co_log (ws_w c)" ws_binary ws_heart for newcap P
  by (rule ws_message_out) (rule conn_out.io_writer_axioms)


definition demo_ws :: "((byte list list, conn_out) Conn, unit) conn_state" where
  "demo_ws = \<lparr>cs_ss = demo_session,
     cs_c = newConn (Reader_reset (replicate 64 0) [] [ws_frame True BinaryMessage (Some [1, 2, 3, 4]) (proto_frame demo_request)])
              \<lparr>wr_err = None, wr_buf = replicate 16 0, wr_n = 0, wr_wr = \<lparr>co_quota = 100, co_log = []\<rparr>\<rparr>,
     cs_sv = demo_server demo_bucket (demo_store\<lparr>st_ch := [NewChannel 1 2]\<rparr>), cs_online = 0, cs_r = RRead, cs_d = DRun\<rparr>"


end
