(* ===== verification/Resources.thy ===== *)
theory Resources
  imports Serve_Websocket
begin

text \<open>
  What a connection takes from the round and gives back: a buffer for reading and one for writing, of the
  pools of its number, and a cell of its timer. A start that fails, for whatever reason, leaves the round as
  it found it; one that succeeds holds one of each.
\<close>

section \<open>Cells in use\<close>

definition cells_used :: "('s \<Rightarrow> addr list \<Rightarrow> bool) \<Rightarrow> ('s \<Rightarrow> nat) \<Rightarrow> 's \<Rightarrow> addr set \<Rightarrow> bool" where
  "cells_used ok alloc s U \<longleftrightarrow> (\<exists>xs. ok s xs \<and> U = {..<alloc s} - set xs)"

context freelist
begin

lemma get_used:
  assumes "cells_used inv alloc s U"
  shows "\<exists>a s'. get s = Ret (a, s') \<and> a \<notin> U \<and> cells_used inv alloc s' (insert a U)"
proof -
  obtain xs where ok: "inv s xs" "U = {..<alloc s} - set xs" using assms by (auto simp: cells_used_def)
  obtain a s' xs' where g: "get s = Ret (a, s')" "inv s' xs'"
    "case xs of x # ys \<Rightarrow> a = x \<and> xs' = ys \<and> alloc s' = alloc s | [] \<Rightarrow> a # xs' = [alloc s..<alloc s']"
    using get_spec [OF ok(1)] by (elim exE conjE) (rule that)
  have "a \<notin> U \<and> insert a U = {..<alloc s'} - set xs'"
  proof (cases xs)
    case Nil
    then have l: "a # xs' = [alloc s..<alloc s']" using g(3) by simp
    moreover have lt: "alloc s < alloc s'" using l by (cases "alloc s < alloc s'") auto
    ultimately have a: "a = alloc s" and "xs' = [Suc (alloc s)..<alloc s']" by (simp_all add: upt_conv_Cons)
    then have "set xs' = {Suc (alloc s)..<alloc s'}" by simp
    then show ?thesis using ok(2) Nil a lt by (simp add: set_eq_iff) arith
  next
    case (Cons x ys)
    then show ?thesis using g(3) ok inv_cells [OF ok(1)] by auto
  qed
  then show ?thesis using g(1,2) by (auto simp: cells_used_def)
qed

lemma put_used:
  assumes "cells_used inv alloc s U" and "a \<in> U"
  shows "cells_used inv alloc (put a s) (U - {a})"
proof -
  obtain xs where ok: "inv s xs" "U = {..<alloc s} - set xs" using assms by (auto simp: cells_used_def)
  then have "inv (put a s) (a # xs)" "alloc (put a s) = alloc s" using put_spec [OF ok(1)] assms(2) by auto
  then show ?thesis using ok(2) unfolding cells_used_def by (intro exI [of _ "a # xs"]) auto
qed

end

abbreviation pool_used :: "Pool \<Rightarrow> addr set \<Rightarrow> bool" where
  "pool_used \<equiv> cells_used Pool_ok (\<lambda>p. length (pl_store p))"

text \<open>For a timer also its pending entries.\<close>

definition timer_used :: "Timer \<Rightarrow> addr set \<Rightarrow> (addr \<rightharpoonup> int \<times> nat option) \<Rightarrow> bool" where
  "timer_used t U P \<longleftrightarrow> cells_used Timer_ok (\<lambda>t. length (tm_store t)) t U \<and> pending t = P"

lemma Timer_Add_used:
  assumes "timer_used t U P"
  shows "\<exists>td t'. Timer_Add now d fn t = Ret (td, t') \<and> td \<notin> U \<and> P td = None \<and> timer_used t' (insert td U) (P(td \<mapsto> (now + d, fn)))"
proof -
  obtain xs where ok: "Timer_ok t xs" and p: "pending t = P" using assms by (auto simp: timer_used_def cells_used_def)
  obtain td t' where "Timer_Add now d fn t = Ret (td, t')" "td \<notin> U" "cells_used Timer_ok (\<lambda>t. length (tm_store t)) t' (insert td U)"
    using timer.get_used [of t U now d fn] assms by (auto simp: timer_used_def)
  moreover have "pending t td = None" "pending t' = (pending t)(td \<mapsto> (now + d, fn))"
    using Add_spec [OF ok, of now d fn] calculation(1) by auto
  ultimately show ?thesis using p by (auto simp: timer_used_def)
qed

lemma Timer_Del_used:
  assumes "timer_used t U P" and "td \<in> U"
  shows "\<exists>t'. Timer_Del td t = Ret t' \<and> timer_used t' (U - {td}) (P(td := None))"
proof -
  obtain xs where ok: "Timer_ok t xs" and u: "U = {..<length (tm_store t)} - set xs" and p: "pending t = P"
    using assms by (auto simp: timer_used_def cells_used_def)
  have td: "td < length (tm_store t)" "td \<notin> set xs" using u assms(2) by auto
  obtain t' where t': "Timer_Del td t = Ret t'" "Timer_ok t' (td # xs)" "length (tm_store t') = length (tm_store t)" "pending t' = P(td := None)"
    using Del_spec [OF ok td] p by auto
  have "U - {td} = {..<length (tm_store t')} - set (td # xs)" using u t'(3) by auto
  then show ?thesis using t' unfolding timer_used_def cells_used_def by blast
qed

lemma Timer_Set_used:
  assumes "timer_used t U P" and "td \<in> U" and "P td = Some (x, fn)"
  shows "\<exists>t'. Timer_Set now td d t = Ret t' \<and> timer_used t' U (P(td \<mapsto> (now + d, fn)))"
proof -
  obtain xs where ok: "Timer_ok t xs" and u: "U = {..<length (tm_store t)} - set xs" and p: "pending t = P"
    using assms by (auto simp: timer_used_def cells_used_def)
  have td: "td < length (tm_store t)" "td \<notin> set xs" using u assms(2) by auto
  have "td_fn (tm_get t td) = fn" using p assms(3) by (auto simp: pending_def split: if_splits)
  then obtain t' where t': "Timer_Set now td d t = Ret t'" "Timer_ok t' xs" "length (tm_store t') = length (tm_store t)" "pending t' = P(td \<mapsto> (now + d, fn))"
    using Set_spec [OF ok td, of now d] p by auto
  then show ?thesis using u unfolding timer_used_def cells_used_def by auto
qed

text \<open>The key of a cell is for the log only.\<close>

lemma timer_key_used: "timer_used (tm_upd a (\<lambda>d. d\<lparr>td_Key := k\<rparr>) t) U P = timer_used t U P"
proof -
  let ?t = "tm_upd a (\<lambda>d. d\<lparr>td_Key := k\<rparr>) t"
  have f: "td_next (tm_get ?t b) = td_next (tm_get t b)" "td_expire (tm_get ?t b) = td_expire (tm_get t b)"
    "td_fn (tm_get ?t b) = td_fn (tm_get t b)" "td_index (tm_get ?t b) = td_index (tm_get t b)" for b
    by (cases "a < length (tm_store t)"; simp add: tm_upd_def tm_get_def nth_list_update list_update_beyond)+
  have "Timer_ok ?t xs = Timer_ok t xs" for xs
    by (simp add: Timer_ok_def index_ok_def tkey_def [abs_def] f)
  moreover have "pending ?t = pending t" by (rule ext) (auto simp: pending_def f)
  ultimately show ?thesis by (simp add: timer_used_def cells_used_def)
qed

section \<open>The round\<close>

text \<open>Buffers of reader pool \<open>i\<close> in use are \<open>R i\<close>, of writer pool \<open>i\<close> are \<open>W i\<close>, cells of timer \<open>i\<close> are \<open>U i\<close>, its pending entries \<open>P i\<close>.\<close>

definition round_used ::
    "Round \<Rightarrow> (nat \<Rightarrow> addr set) \<Rightarrow> (nat \<Rightarrow> addr set) \<Rightarrow> (nat \<Rightarrow> addr set) \<Rightarrow> (nat \<Rightarrow> addr \<rightharpoonup> int \<times> nat option) \<Rightarrow> bool" where
  "round_used r R W U P \<longleftrightarrow>
     (\<forall>i<length (rn_readers r). pool_used (rn_readers r ! i) (R i)) \<and> (\<forall>i<length (rn_writers r). pool_used (rn_writers r ! i) (W i)) \<and>
     (\<forall>i<length (rn_timers r). timer_used (rn_timers r ! i) (U i) (P i))"

text \<open>The number of pools and timers, and whatever is not the round, stay.\<close>

definition round_size :: "Round \<Rightarrow> nat \<times> nat \<times> nat" where
  "round_size r = (length (rn_readers r), length (rn_writers r), length (rn_timers r))"

lemma reader_get_used:
  assumes "round_used (sv_round sv) R W U P" and "i < length (rn_readers (sv_round sv))" and "reader_get i sv = Ret (b, sv')"
  shows "b \<notin> R i \<and> round_used (sv_round sv') (R(i := insert b (R i))) W U P \<and> round_size (sv_round sv') = round_size (sv_round sv)"
proof -
  have "pool_used (rn_readers (sv_round sv) ! i) (R i)" using assms(1,2) by (simp add: round_used_def)
  then obtain a p where "Pool_Get (rn_readers (sv_round sv) ! i) = Ret (a, p)" "a \<notin> R i" "pool_used p (insert a (R i))"
    using pool.get_used by blast
  then show ?thesis using assms by (auto simp: reader_get_def round_used_def round_size_def nth_list_update)
qed

lemma writer_get_used:
  assumes "round_used (sv_round sv) R W U P" and "i < length (rn_writers (sv_round sv))" and "writer_get i sv = Ret (b, sv')"
  shows "b \<notin> W i \<and> round_used (sv_round sv') R (W(i := insert b (W i))) U P \<and> round_size (sv_round sv') = round_size (sv_round sv)"
proof -
  have "pool_used (rn_writers (sv_round sv) ! i) (W i)" using assms(1,2) by (simp add: round_used_def)
  then obtain a p where "Pool_Get (rn_writers (sv_round sv) ! i) = Ret (a, p)" "a \<notin> W i" "pool_used p (insert a (W i))"
    using pool.get_used by blast
  then show ?thesis using assms by (auto simp: writer_get_def round_used_def round_size_def nth_list_update)
qed

lemma reader_put_used:
  assumes "round_used (sv_round sv) R W U P" and "i < length (rn_readers (sv_round sv))" and "b \<in> R i"
  shows "round_used (sv_round (reader_put i b sv)) (R(i := R i - {b})) W U P \<and> round_size (sv_round (reader_put i b sv)) = round_size (sv_round sv)"
  using assms pool.put_used [of "rn_readers (sv_round sv) ! i" "R i" b] by (simp add: reader_put_def round_used_def round_size_def nth_list_update)

lemma writer_put_used:
  assumes "round_used (sv_round sv) R W U P" and "i < length (rn_writers (sv_round sv))" and "b \<in> W i"
  shows "round_used (sv_round (writer_put i b sv)) R (W(i := W i - {b})) U P \<and> round_size (sv_round (writer_put i b sv)) = round_size (sv_round sv)"
  using assms pool.put_used [of "rn_writers (sv_round sv) ! i" "W i" b] by (simp add: writer_put_def round_used_def round_size_def nth_list_update)

lemma with_timer_used:
  assumes "round_used (sv_round sv) R W U P" and "i < length (rn_timers (sv_round sv))" and "with_timer i f sv = Ret (a, sv')"
    and "\<And>t'. f (rn_timers (sv_round sv) ! i) = Ret (a, t') \<Longrightarrow> timer_used t' U' P'"
  shows "round_used (sv_round sv') R W (U(i := U')) (P(i := P')) \<and> round_size (sv_round sv') = round_size (sv_round sv)"
  using assms by (auto simp: with_timer_def outcome_simps round_used_def round_size_def nth_list_update)

lemma timer_add_used:
  assumes "round_used (sv_round sv) R W U P" and "i < length (rn_timers (sv_round sv))" and "with_timer i (Timer_Add now d fn) sv = Ret (td, sv')"
  shows "td \<notin> U i \<and> P i td = None \<and> round_used (sv_round sv') R W (U(i := insert td (U i))) (P(i := (P i)(td \<mapsto> (now + d, fn)))) \<and>
    round_size (sv_round sv') = round_size (sv_round sv)"
proof -
  have "timer_used (rn_timers (sv_round sv) ! i) (U i) (P i)" using assms(1,2) by (simp add: round_used_def)
  then obtain t where "Timer_Add now d fn (rn_timers (sv_round sv) ! i) = Ret (td, t)" "td \<notin> U i" "P i td = None"
    "timer_used t (insert td (U i)) ((P i)(td \<mapsto> (now + d, fn)))"
    using Timer_Add_used [of _ "U i" "P i" now d fn] assms(3) by (fastforce simp: with_timer_def outcome_simps)
  then show ?thesis using with_timer_used [OF assms] by auto
qed

lemma timer_del_used:
  assumes "round_used (sv_round sv) R W U P" and "i < length (rn_timers (sv_round sv))" and "td \<in> U i" and "timer_del i td sv = Ret sv'"
  shows "round_used (sv_round sv') R W (U(i := U i - {td})) (P(i := (P i)(td := None))) \<and> round_size (sv_round sv') = round_size (sv_round sv)"
proof -
  have "timer_used (rn_timers (sv_round sv) ! i) (U i) (P i)" using assms(1,2) by (simp add: round_used_def)
  then obtain t where t: "Timer_Del td (rn_timers (sv_round sv) ! i) = Ret t" "timer_used t (U i - {td}) ((P i)(td := None))"
    using Timer_Del_used assms(3) by blast
  obtain u where "with_timer i (\<lambda>t. obind (Timer_Del td t) (\<lambda>t'. Ret ((), t'))) sv = Ret (u, sv')"
    using assms(4) by (auto simp: timer_del_def outcome_simps)
  from with_timer_used [OF assms(1,2) this, of "U i - {td}" "(P i)(td := None)"] t show ?thesis by simp
qed

lemma timer_set_used:
  assumes "round_used (sv_round sv) R W U P" and "ss_tr ss < length (rn_timers (sv_round sv))" and "ss_trd ss \<in> U (ss_tr ss)"
    and "P (ss_tr ss) (ss_trd ss) = Some (x, fn)" and "timer_set now ss sv = Ret sv'"
  shows "round_used (sv_round sv') R W U (P(ss_tr ss := (P (ss_tr ss))(ss_trd ss \<mapsto> (now + ss_hb ss, fn)))) \<and>
    round_size (sv_round sv') = round_size (sv_round sv)"
proof -
  have "timer_used (rn_timers (sv_round sv) ! ss_tr ss) (U (ss_tr ss)) (P (ss_tr ss))" using assms(1,2) by (simp add: round_used_def)
  then obtain t where t: "Timer_Set now (ss_trd ss) (ss_hb ss) (rn_timers (sv_round sv) ! ss_tr ss) = Ret t"
    "timer_used t (U (ss_tr ss)) ((P (ss_tr ss))(ss_trd ss \<mapsto> (now + ss_hb ss, fn)))"
    using Timer_Set_used assms(3,4) by blast
  obtain u where "with_timer (ss_tr ss) (\<lambda>t. obind (Timer_Set now (ss_trd ss) (ss_hb ss) t) (\<lambda>t'. Ret ((), t'))) sv = Ret (u, sv')"
    using assms(5) by (auto simp: timer_set_def outcome_simps)
  from with_timer_used [OF assms(1,2) this, of "U (ss_tr ss)"] t show ?thesis by simp
qed

section \<open>Starting a connection\<close>

text \<open>The session holds its two buffers and its timer entry, which expires at \<open>x\<close>, on top of what was in use.\<close>

definition round_held ::
    "int \<Rightarrow> session \<Rightarrow> Round \<Rightarrow> (nat \<Rightarrow> addr set) \<Rightarrow> (nat \<Rightarrow> addr set) \<Rightarrow> (nat \<Rightarrow> addr set) \<Rightarrow> (nat \<Rightarrow> addr \<rightharpoonup> int \<times> nat option) \<Rightarrow> bool" where
  "round_held x ss r R W U P \<longleftrightarrow>
     ss_rb ss \<notin> R (ss_rp ss) \<and> ss_wb ss \<notin> W (ss_wp ss) \<and> ss_trd ss \<notin> U (ss_tr ss) \<and> P (ss_tr ss) (ss_trd ss) = None \<and>
     round_used r (R(ss_rp ss := insert (ss_rb ss) (R (ss_rp ss)))) (W(ss_wp ss := insert (ss_wb ss) (W (ss_wp ss))))
       (U(ss_tr ss := insert (ss_trd ss) (U (ss_tr ss)))) (P(ss_tr ss := (P (ss_tr ss))(ss_trd ss \<mapsto> (x, Some (ss_ch ss)))))"

definition ss_in_range :: "session \<Rightarrow> Round \<Rightarrow> bool" where
  "ss_in_range ss r \<longleftrightarrow> ss_rp ss < length (rn_readers r) \<and> ss_wp ss < length (rn_writers r) \<and> ss_tr ss < length (rn_timers r)"

text \<open>The handshake does not touch the round.\<close>

lemma sv_round_upd [simp]: "sv_round (sv_upd ch f sv) = sv_round sv" "sv_round (ring_upd ch g sv) = sv_round sv" "sv_round (sv_put i w sv) = sv_round sv"
  by (simp_all add: sv_upd_def ring_upd_def sv_put_def)

lemma Server_Connect_round [simp]: "sv_round (snd (Server_Connect lc p cookie sv)) = sv_round sv"
  by (simp add: Server_Connect_def split: prod.split)

lemma auth_round:
  assumes "auth tp lc cookie p c sv = Some (Ret (err, reply, p', c', sv'))"
  shows "sv_round sv' = sv_round sv"
proof -
  obtain e p1 c1 where l: "auth_loop tp p c = Some (Ret (e, p1, c1))" using assms by (auto simp: auth_def outcome_simps)
  obtain r sv1 where k: "Server_Connect lc p1 cookie sv = (r, sv1)" by fastforce
  have "sv_round sv1 = sv_round sv" using Server_Connect_round [of lc p1 cookie sv] k by simp
  moreover have "sv' = (if e = None then sv1 else sv)"
    using assms l k by (cases e; cases r) (auto simp: auth_def outcome_simps Let_def split: if_splits)
  ultimately show ?thesis by simp
qed

lemma handshake_round:
  assumes "handshake hash tp lc cookie ch c sv = Some (Ret (h, c', sv'))"
  shows "sv_round sv' = sv_round sv"
proof -
  obtain slot where sl: "Ring_Set (ch_CliProto (sv_chan ch sv)) = Ret slot" using assms by (auto simp: handshake_def outcome_simps)
  show ?thesis
  proof (cases slot)
    case (Inl e)
    then show ?thesis using assms sl by (simp add: handshake_def)
  next
    case (Inr i)
    obtain err reply p c1 sv1 where a: "auth tp lc cookie (Ring_read i (ch_CliProto (sv_chan ch sv))) c sv = Some (Ret (err, reply, p, c1, sv1))"
      using assms sl Inr by (auto simp: handshake_def outcome_simps)
    have "sv_round sv1 = sv_round sv" by (rule auth_round [OF a])
    show ?thesis
    proof (cases err)
      case (Some e)
      then show ?thesis using assms sl Inr a \<open>sv_round sv1 = sv_round sv\<close> by (auto simp: handshake_def outcome_simps Let_def)
    next
      case None
      define sv3 where "sv3 = sv_upd ch (Channel_Watch (cr_Accepts reply)) (sv_upd ch (\<lambda>x. x\<lparr>ch_Mid := cr_Mid reply, ch_Key := cr_Key reply\<rparr>)
        (ring_upd ch (Ring_write i p) sv1))"
      obtain b where b: "Server_Bucket hash (cr_Key reply) sv3 = Ret b"
        and put: "(case Bucket_Put (cr_RoomID reply) ch (sv_buckets sv3 ! b, sv_store sv3) of None \<Rightarrow> None
          | Some (Some e, w) \<Rightarrow> Some (Ret (Inl e, c1, sv_put b w sv3)) | Some (None, w) \<Rightarrow> Some (Ret (Inr (reply, b), c1, sv_put b w sv3)))
          = Some (Ret (h, c', sv'))"
        using assms unfolding handshake_def sl Inr rbind.simps a prod.case sum.case Let_def None option.case sv3_def [symmetric] rbind_eq_Ret
        by (elim exE conjE) (rule that; simp)
      obtain e w where "Bucket_Put (cr_RoomID reply) ch (sv_buckets sv3 ! b, sv_store sv3) = Some (e, w)"
        using put by (cases "Bucket_Put (cr_RoomID reply) ch (sv_buckets sv3 ! b, sv_store sv3)") auto
      then have "sv' = sv_put b w sv3" using put by (cases e) auto
      then show ?thesis using \<open>sv_round sv1 = sv_round sv\<close> by (simp add: sv3_def)
    qed
  qed
qed

lemma serve_begin_used:
  assumes held: "round_held x ss (sv_round sv) R W U P" and rng: "ss_in_range ss (sv_round sv)"
    and run: "serve_begin tp now ss (h, c, sv) = Ret (res, c', sv')"
  shows "case res of Inl e \<Rightarrow> round_used (sv_round sv') R W U P
    | Inr ss' \<Rightarrow> round_held (now + ss_hb ss') ss' (sv_round sv') R W U P"
proof -
  let ?R = "R(ss_rp ss := insert (ss_rb ss) (R (ss_rp ss)))" and ?W = "W(ss_wp ss := insert (ss_wb ss) (W (ss_wp ss)))"
  let ?U = "U(ss_tr ss := insert (ss_trd ss) (U (ss_tr ss)))" and ?P = "P(ss_tr ss := (P (ss_tr ss))(ss_trd ss \<mapsto> (x, Some (ss_ch ss))))"
  have fresh: "ss_rb ss \<notin> R (ss_rp ss)" "ss_wb ss \<notin> W (ss_wp ss)" "ss_trd ss \<notin> U (ss_tr ss)" "P (ss_tr ss) (ss_trd ss) = None"
    and used: "round_used (sv_round sv) ?R ?W ?U ?P" using held by (auto simp: round_held_def)
  show ?thesis
  proof (cases h)
    case (Inl e)
    define sv1 where "sv1 = reader_put (ss_rp ss) (ss_rb ss) sv"
    define sv2 where "sv2 = writer_put (ss_wp ss) (ss_wb ss) sv1"
    have d: "timer_del (ss_tr ss) (ss_trd ss) sv2 = Ret sv'" and res: "res = Inl e"
      using run Inl by (auto simp: serve_begin_def outcome_simps sv1_def sv2_def)
    have 1: "round_used (sv_round sv1) R ?W ?U ?P" "round_size (sv_round sv1) = round_size (sv_round sv)"
      using reader_put_used [OF used, of "ss_rp ss" "ss_rb ss"] rng fresh(1) by (auto simp: sv1_def ss_in_range_def)
    have 2: "round_used (sv_round sv2) R W ?U ?P" "round_size (sv_round sv2) = round_size (sv_round sv)"
      using writer_put_used [OF 1(1), of "ss_wp ss" "ss_wb ss"] rng fresh(2) 1(2) by (auto simp: sv2_def ss_in_range_def round_size_def)
    have "(P (ss_tr ss))(ss_trd ss := None) = P (ss_tr ss)" using fresh(4) by auto
    then have "round_used (sv_round sv') R W U P"
      using timer_del_used [OF 2(1) _ _ d] rng fresh(3) 2(2) by (auto simp: ss_in_range_def round_size_def)
    then show ?thesis using res by simp
  next
    case (Inr rb)
    obtain reply b where rb: "rb = (reply, b)" by fastforce
    define ss1 where "ss1 = ss\<lparr>ss_b := b, ss_hb := cr_Heartbeat reply\<rparr>"
    obtain u sv1 where k: "with_timer (ss_tr ss) (\<lambda>t. Ret ((), tm_upd (ss_trd ss) (\<lambda>d. d\<lparr>td_Key := cr_Key reply\<rparr>) t)) sv = Ret (u, sv1)"
      and st: "timer_set now ss1 sv1 = Ret sv'" and res: "res = Inr ss1"
      using run Inr rb by (auto simp: serve_begin_def outcome_simps Let_def ss1_def)
    have t: "timer_used (rn_timers (sv_round sv) ! ss_tr ss) (?U (ss_tr ss)) (?P (ss_tr ss))"
      using used rng unfolding round_used_def ss_in_range_def by blast
    have 1: "round_used (sv_round sv1) ?R ?W (?U(ss_tr ss := ?U (ss_tr ss))) (?P(ss_tr ss := ?P (ss_tr ss)))" "round_size (sv_round sv1) = round_size (sv_round sv)"
      using with_timer_used [OF used _ k, of "?U (ss_tr ss)" "?P (ss_tr ss)"] rng t by (auto simp: ss_in_range_def timer_key_used)
    have eq: "ss_tr ss1 = ss_tr ss" "ss_trd ss1 = ss_trd ss" "ss_rp ss1 = ss_rp ss" "ss_rb ss1 = ss_rb ss" "ss_wp ss1 = ss_wp ss" "ss_wb ss1 = ss_wb ss"
      "ss_ch ss1 = ss_ch ss" by (simp_all add: ss1_def)
    have "round_used (sv_round sv') ?R ?W ?U (?P(ss_tr ss := (?P (ss_tr ss))(ss_trd ss \<mapsto> (now + ss_hb ss1, Some (ss_ch ss)))))"
      using timer_set_used [OF 1(1)  _ _ _ st, of x "Some (ss_ch ss)"] eq rng 1(2) by (auto simp: ss_in_range_def round_size_def)
    then show ?thesis using res fresh by (simp add: round_held_def eq)
  qed
qed

lemma new_channel_round: "new_channel ip sv = (ch, sv') \<Longrightarrow> sv_round sv' = sv_round sv \<and> sv_c sv' = sv_c sv"
  by (auto simp: new_channel_def)

lemma pick_range: "pick n m len = Ret i \<Longrightarrow> i < len" by (auto simp: pick_def split: if_splits)

lemma Round_range:
  "Round_Timer r rnd = Ret i \<Longrightarrow> i < length (rn_timers rnd)" "Round_Reader r rnd = Ret i \<Longrightarrow> i < length (rn_readers rnd)"
  "Round_Writer r rnd = Ret i \<Longrightarrow> i < length (rn_writers rnd)"
  by (auto simp: Round_Timer_def Round_Reader_def Round_Writer_def dest: pick_range)

text \<open>The two ways out before the handshake.\<close>

lemma ws_reject_used:
  assumes used: "round_used (sv_round sv) (R(rp := insert rb (R rp))) W' (U(tr := insert trd (U tr))) (P(tr := (P tr)(trd \<mapsto> y)))"
    and fresh: "rb \<notin> R rp" "trd \<notin> U tr" "P tr trd = None"
    and rng: "rp < length (rn_readers (sv_round sv))" "tr < length (rn_timers (sv_round sv))"
    and wb: "case wb of None \<Rightarrow> W' = W | Some (wp, b) \<Rightarrow> W' = W(wp := insert b (W wp)) \<and> b \<notin> W wp \<and> wp < length (rn_writers (sv_round sv))"
    and run: "ws_reject tr trd rp rb wb err c sv = Ret (res, c', sv')"
  shows "res = Inl err \<and> round_used (sv_round sv') R W U P"
proof -
  obtain sv1 where d: "timer_del tr trd sv = Ret sv1" using run by (auto simp: ws_reject_def outcome_simps)
  have p: "(P tr)(trd := None) = P tr" using fresh(3) by auto
  have 1: "round_used (sv_round sv1) (R(rp := insert rb (R rp))) W' U P" "round_size (sv_round sv1) = round_size (sv_round sv)"
    using timer_del_used [OF used rng(2) _ d] fresh(2) p by auto
  define sv2 where "sv2 = reader_put rp rb sv1"
  have 2: "round_used (sv_round sv2) R W' U P" "round_size (sv_round sv2) = round_size (sv_round sv)"
    using reader_put_used [OF 1(1), of rp rb] rng(1) fresh(1) 1(2) by (auto simp: sv2_def round_size_def)
  show ?thesis
  proof (cases wb)
    case None
    then show ?thesis using run d 2 wb by (auto simp: ws_reject_def sv2_def)
  next
    case (Some x)
    obtain wp b where x: "x = (wp, b)" by fastforce
    have "round_used (sv_round (writer_put wp b sv2)) R W U P"
      using writer_put_used [OF 2(1), of wp b] wb Some x 2(2) by (auto simp: round_size_def)
    then show ?thesis using run d Some x by (auto simp: ws_reject_def sv2_def)
  qed
qed

lemma ws_upgraded_used:
  assumes used: "round_used (sv_round sv) (R(ss_rp ss := insert (ss_rb ss) (R (ss_rp ss)))) W (U(ss_tr ss := insert (ss_trd ss) (U (ss_tr ss))))
       (P(ss_tr ss := (P (ss_tr ss))(ss_trd ss \<mapsto> (x, Some (ss_ch ss)))))"
    and fresh: "ss_rb ss \<notin> R (ss_rp ss)" "ss_trd ss \<notin> U (ss_tr ss)" "P (ss_tr ss) (ss_trd ss) = None" and rng: "ss_in_range ss (sv_round sv)"
    and run: "ws_upgraded hash ulower newcap read wrt close lc now2 ss out0 req rr sv = Some (Ret (res, c, sv'))"
  shows "case res of Inl e \<Rightarrow> round_used (sv_round sv') R W U P | Inr ss' \<Rightarrow> round_held (now2 + ss_hb ss') ss' (sv_round sv') R W U P"
proof -
  obtain wb sv1 where g: "writer_get (ss_wp ss) sv = Ret (wb, sv1)" using run by (auto simp: ws_upgraded_def outcome_simps)
  have g1: "wb \<notin> W (ss_wp ss)" "round_used (sv_round sv1) (R(ss_rp ss := insert (ss_rb ss) (R (ss_rp ss)))) (W(ss_wp ss := insert wb (W (ss_wp ss))))
       (U(ss_tr ss := insert (ss_trd ss) (U (ss_tr ss)))) (P(ss_tr ss := (P (ss_tr ss))(ss_trd ss \<mapsto> (x, Some (ss_ch ss)))))"
     "round_size (sv_round sv1) = round_size (sv_round sv)" using writer_get_used [OF used _ g] rng by (auto simp: ss_in_range_def)
  define ss1 where "ss1 = ss\<lparr>ss_wb := wb\<rparr>"
  define w where "w = \<lparr>wr_err = None, wr_buf = Buffer_Bytes (rn_writers (sv_round sv1) ! ss_wp ss) wb, wr_n = 0, wr_wr = out0\<rparr>"
  have rng1: "ss_in_range ss1 (sv_round sv1)" using rng g1(3) by (auto simp: ss_in_range_def ss1_def round_size_def)
  have held: "round_held x ss1 (sv_round sv1) R W U P" using g1 fresh by (simp add: round_held_def ss1_def)
  obtain r w1 where up: "Upgrade ulower wrt rr w req = Some (r, w1)"
    using run g by (cases "Upgrade ulower wrt rr w req") (auto simp: ws_upgraded_def Let_def w_def)
  show ?thesis
  proof (cases r)
    case (Inl e)
    have "ws_reject (ss_tr ss) (ss_trd ss) (ss_rp ss) (ss_rb ss) (Some (ss_wp ss, wb)) (Some e) (close (newConn rr w1)) sv1 = Ret (res, c, sv')"
      using run g up Inl by (simp add: ws_upgraded_def Let_def w_def)
    from ws_reject_used [OF g1(2) fresh _ _ _ this] show ?thesis using g1(1) rng1 by (auto simp: ss_in_range_def ss1_def)
  next
    case (Inr ws)
    obtain h c1 sv2 where hs: "handshake hash (ws_transport newcap read wrt close) lc (Header_Get ''Cookie'' (rq_Header req)) (ss_ch ss) ws sv1 = Some (Ret (h, c1, sv2))"
      using run g up Inr by (auto simp: ws_upgraded_def Let_def w_def outcome_simps)
    obtain r2 where sb: "serve_begin (ws_transport newcap read wrt close) now2 ss1 (h, c1, sv2) = Ret (r2, c, sv')" and res: "res = map_sum Some id r2"
      using run g up Inr hs by (auto simp: ws_upgraded_def Let_def w_def outcome_simps ss1_def)
    have rd: "sv_round sv2 = sv_round sv1" by (rule handshake_round [OF hs])
    show ?thesis using serve_begin_used [OF _ _ sb, of x R W U P] held rng1 rd res by (cases r2) auto
  qed
qed

lemma ServeTCP_used:
  assumes used: "round_used (sv_round sv) R W U P"
    and run: "ServeTCP_start hash read wrt close lc rnd now0 now1 now2 r in0 out0 ip sv = Some (Ret (res, c, sv'))"
  shows "case res of Inl e \<Rightarrow> round_used (sv_round sv') R W U P | Inr ss \<Rightarrow> round_held (now2 + ss_hb ss) ss (sv_round sv') R W U P"
proof -
  obtain tr rp wp where ix: "Round_Timer r (sv_round sv) = Ret tr" "Round_Reader r (sv_round sv) = Ret rp" "Round_Writer r (sv_round sv) = Ret wp"
    using run by (auto simp: ServeTCP_start_def outcome_simps)
  obtain rb sv1 where rg: "reader_get rp sv = Ret (rb, sv1)" using run ix by (auto simp: ServeTCP_start_def outcome_simps)
  obtain wb sv2 where wg: "writer_get wp sv1 = Ret (wb, sv2)" using run ix rg by (auto simp: ServeTCP_start_def outcome_simps)
  obtain ch sv3 where nc: "new_channel ip sv2 = (ch, sv3)" by fastforce
  obtain trd sv4 where ta: "with_timer tr (Timer_Add now1 (cf_HandshakeTimeout (sv_c sv3)) (Some ch)) sv3 = Ret (trd, sv4)"
    using run ix rg wg nc by (auto simp: ServeTCP_start_def outcome_simps Let_def)
  let ?ss = "\<lparr>ss_ch = ch, ss_b = 0, ss_tr = tr, ss_trd = trd, ss_rp = rp, ss_rb = rb, ss_wp = wp, ss_wb = wb,
               ss_hb = 0, ss_lastHb = now0, ss_serverHb = RandServerHearbeat rnd\<rparr>"
  obtain h c1 sv5 where hs: "sv_round sv5 = sv_round sv4" and sb: "serve_begin (tcp_transport read wrt close) now2 ?ss (h, c1, sv5) = Ret (res, c, sv')"
    using run ix rg wg nc ta by (auto simp: ServeTCP_start_def outcome_simps Let_def dest!: handshake_round)
  have lt: "tr < length (rn_timers (sv_round sv))" "rp < length (rn_readers (sv_round sv))" "wp < length (rn_writers (sv_round sv))"
    using Round_range ix by blast+
  have 1: "rb \<notin> R rp" "round_used (sv_round sv1) (R(rp := insert rb (R rp))) W U P" "round_size (sv_round sv1) = round_size (sv_round sv)"
    using reader_get_used [OF used lt(2) rg] by auto
  have 2: "wb \<notin> W wp" "round_used (sv_round sv2) (R(rp := insert rb (R rp))) (W(wp := insert wb (W wp))) U P" "round_size (sv_round sv2) = round_size (sv_round sv)"
    using writer_get_used [OF 1(2) _ wg] lt 1(3) by (auto simp: round_size_def)
  have r3: "sv_round sv3 = sv_round sv2" using new_channel_round [OF nc] by simp
  have "round_held (now1 + cf_HandshakeTimeout (sv_c sv3)) ?ss (sv_round sv5) R W U P \<and> ss_in_range ?ss (sv_round sv5)"
    using timer_add_used [OF 2(2) [folded r3] _ ta] 1(1) 2 lt r3 hs by (auto simp: round_held_def ss_in_range_def round_size_def)
  then show ?thesis using serve_begin_used [OF _ _ sb] by blast
qed

section \<open>Properties\<close>

text \<open>
  C18 (a start gives back what it took). Whatever the peer sends and whatever the logic service answers, when
  \<open>ServeWebsocket\<close> gives up before the session (a request that is not an upgrade, a failed write, a failed
  authentication, a room that was dropped), every pool and every timer of the server is as before: the same
  buffers and cells in use, the same entries pending. When the session starts, it holds one fresh buffer of
  each kind and one timer entry, armed with the heartbeat interval, and nothing else changed.
\<close>

theorem start_gives_back:
  assumes "round_used (sv_round sv) R W U P"
    and "ServeWebsocket_start hash ulower newcap read wrt close lc rnd now0 now1 now2 r in0 out0 ip sv = Some (Ret (res, c, sv'))"
  shows "case res of Inl e \<Rightarrow> round_used (sv_round sv') R W U P | Inr ss \<Rightarrow> round_held (now2 + ss_hb ss) ss (sv_round sv') R W U P"
proof -
  note run = assms(2)
  obtain tr rp wp where ix: "Round_Timer r (sv_round sv) = Ret tr" "Round_Reader r (sv_round sv) = Ret rp" "Round_Writer r (sv_round sv) = Ret wp"
    using run by (auto simp: ServeWebsocket_start_def outcome_simps)
  obtain rb sv1 where rg: "reader_get rp sv = Ret (rb, sv1)" using run ix by (auto simp: ServeWebsocket_start_def outcome_simps)
  obtain ch sv2 where nc: "new_channel ip sv1 = (ch, sv2)" by fastforce
  obtain trd sv3 where ta: "with_timer tr (Timer_Add now1 (cf_HandshakeTimeout (sv_c sv2)) (Some ch)) sv2 = Ret (trd, sv3)"
    using run ix rg nc by (auto simp: ServeWebsocket_start_def outcome_simps Let_def)
  have lt: "tr < length (rn_timers (sv_round sv))" "rp < length (rn_readers (sv_round sv))" "wp < length (rn_writers (sv_round sv))"
    using Round_range ix by blast+
  have 1: "rb \<notin> R rp" "round_used (sv_round sv1) (R(rp := insert rb (R rp))) W U P" "round_size (sv_round sv1) = round_size (sv_round sv)"
    using reader_get_used [OF assms(1) lt(2) rg] by auto
  have r2: "sv_round sv2 = sv_round sv1" using new_channel_round [OF nc] by simp
  let ?y = "(now1 + cf_HandshakeTimeout (sv_c sv2), Some ch)"
  have 3: "trd \<notin> U tr" "P tr trd = None" "round_size (sv_round sv3) = round_size (sv_round sv)"
    "round_used (sv_round sv3) (R(rp := insert rb (R rp))) W (U(tr := insert trd (U tr))) (P(tr := (P tr)(trd \<mapsto> ?y)))"
    using timer_add_used [OF 1(2) [folded r2] _ ta] 1(3) lt r2 by (auto simp: round_size_def)
  have lt3: "tr < length (rn_timers (sv_round sv3))" "rp < length (rn_readers (sv_round sv3))" "wp < length (rn_writers (sv_round sv3))"
    using lt 3(3) by (auto simp: round_size_def)
  obtain req err rr where rq: "ReadRequest read (Reader_reset (Buffer_Bytes (rn_readers (sv_round sv2) ! rp) rb)
      (Buffer_spare (rn_readers (sv_round sv2) ! rp) rb) in0) = Some (Ret (req, err, rr))"
    using run ix rg nc ta by (auto simp: ServeWebsocket_start_def outcome_simps Let_def)
  let ?ss = "ws_session ch tr trd rp rb wp 0 now0 (RandServerHearbeat rnd)"
  have ss: "ss_ch ?ss = ch" "ss_tr ?ss = tr" "ss_trd ?ss = trd" "ss_rp ?ss = rp" "ss_rb ?ss = rb" "ss_wp ?ss = wp" by (simp_all add: ws_session_def)
  consider (up) q where "ws_upgraded hash ulower newcap read wrt close lc now2 ?ss out0 q rr sv3 = Some (Ret (res, c, sv'))"
    | (rej) e c0 where "ws_reject tr trd rp rb None e c0 sv3 = Ret (res, c, sv')"
  proof (cases req)
    case None
    then show thesis using run ix rg nc ta rq rej by (cases err) (simp_all add: ServeWebsocket_start_def Let_def)
  next
    case (Some q)
    then show thesis using run ix rg nc ta rq rej up by (cases err) (auto simp: ServeWebsocket_start_def Let_def split: if_splits)
  qed
  then show ?thesis
  proof cases
    case up
    have rng: "ss_in_range ?ss (sv_round sv3)" using lt3 ss by (simp add: ss_in_range_def)
    show ?thesis by (rule ws_upgraded_used [OF _ _ _ _ rng up]) (use 1(1) 3 ss in simp_all)
  next
    case rej
    then show ?thesis using ws_reject_used [OF 3(4) 1(1) 3(1,2) lt3(2,1) _ rej] by auto
  qed
qed

lemma NewRound_used:
  assumes "0 < ro_ReadBuf opt" and "0 < ro_WriteBuf opt" and "0 < ro_TimerSize opt" and "NewRound opt = Ret r"
  shows "round_used r (\<lambda>_. {}) (\<lambda>_. {}) (\<lambda>_. {}) (\<lambda>_. Map.empty)"
proof -
  obtain p q t where pqt: "NewPool (ro_ReadBuf opt) (ro_ReadBufSize opt) = Ret p" "NewPool (ro_WriteBuf opt) (ro_WriteBufSize opt) = Ret q"
    "NewTimer (ro_TimerSize opt) = Ret t" and r: "r = \<lparr>rn_readers = replicate (ro_Reader opt) p, rn_writers = replicate (ro_Writer opt) q,
      rn_timers = replicate (ro_Timer opt) t, rn_options = opt\<rparr>" using NewRound_ok [OF assms(1-3)] assms(4) by auto
  have "pool_used p {}" "pool_used q {}"
    using NewPool_ok [OF assms(1), of "ro_ReadBufSize opt"] NewPool_ok [OF assms(2), of "ro_WriteBufSize opt"] pqt by (auto simp: cells_used_def)
  moreover have "timer_used t {} Map.empty" using NewTimer_ok [OF assms(3)] pqt(3) by (auto simp: timer_used_def cells_used_def)
  ultimately show ?thesis by (simp add: r round_used_def)
qed

fun gave_up :: "((error option + session) \<times> 'c \<times> 'l Server) run \<Rightarrow> bool" where
  "gave_up (Some (Ret (Inl e, c, sv))) = True"
| "gave_up _ = False"

definition demo_fresh :: "Round \<Rightarrow> unit Server" where
  "demo_fresh r = (demo_server demo_bucket demo_store)\<lparr>sv_round := r\<rparr>"

text \<open>A peer that closes the connection at once.\<close>

theorem start_gives_back_witness:
  "\<exists>r e c sv'. NewRound (cf_Round demo_conf) = Ret r \<and>
    ServeWebsocket_start (\<lambda>_ n. n) id (\<lambda>_ n. n) conn_read conn_write id demo_client id 0 0 0 3 [] \<lparr>co_quota = 9, co_log = []\<rparr> ''ip'' (demo_fresh r)
      = Some (Ret (Inl e, c, sv')) \<and>
    round_used (sv_round sv') (\<lambda>_. {}) (\<lambda>_. {}) (\<lambda>_. {}) (\<lambda>_. Map.empty)"
proof -
  let ?run = "\<lambda>r. ServeWebsocket_start (\<lambda>_ n. n) id (\<lambda>_ n. n) conn_read conn_write id demo_client id 0 0 0 3 [] \<lparr>co_quota = 9, co_log = []\<rparr> ''ip'' (demo_fresh r)"
  have "(case NewRound (cf_Round demo_conf) of Panic _ \<Rightarrow> False | Ret r \<Rightarrow> gave_up (?run r))"
    by code_simp
  then obtain r e c sv' where r: "NewRound (cf_Round demo_conf) = Ret r" and run: "?run r = Some (Ret (Inl e, c, sv'))"
    by (auto split: outcome.splits elim: gave_up.elims)
  have "round_used (sv_round (demo_fresh r)) (\<lambda>_. {}) (\<lambda>_. {}) (\<lambda>_. {}) (\<lambda>_. Map.empty)"
    using NewRound_used [OF _ _ _ r] by (simp add: demo_fresh_def demo_conf_def)
  from start_gives_back [OF this run] show ?thesis using r run by auto
qed

end
