(* ===== verification/Logic_Dao.thy ===== *)
theory Logic_Dao
  imports Go_Strings "HOL-Library.AList"
begin

text \<open>
  \<open>internal/logic/dao/redis.go\<close>: what the logic process keeps in Redis. For a member ID a hash from keys to
  servers, for a key its server, for a server a hash of its rooms in 64 parts. Redis and its client library
  are a parameter, \<open>pipe\<close>: it sends commands together and receives their replies, converted as the code asks.
  What the properties rely on is the documented effect of the commands, stated as the locale \<open>redis_db\<close>. The
  encoding of \<open>model.Online\<close> as JSON is a parameter too.
\<close>

section \<open>The interface of Redis\<close>

datatype redis_cmd =
    HSET string string string | EXPIRE string int32 | SET string string | HDEL string string | DEL string
  | MGET "string list" | HGETALL string | HGET string string

text \<open>A reply: of no interest, as \<open>redis.Bool\<close>, \<open>redis.Strings\<close>, \<open>redis.StringMap\<close>, or \<open>redis.Bytes\<close> (\<open>None\<close> for \<open>ErrNil\<close>).\<close>

datatype redis_val = VAny | VBool bool | VStrings "string list" | VMap "(string \<times> string) list" | VBytes "string option"

type_synonym 'r redis_pipe = "redis_cmd list \<Rightarrow> 'r \<Rightarrow> (error + (error + redis_val) list) \<times> 'r"

text \<open>The data: strings and hashes by key.\<close>

type_synonym rdb = "(string \<rightharpoonup> string) \<times> (string \<Rightarrow> string \<rightharpoonup> string)"

fun cmd_effect :: "redis_cmd \<Rightarrow> rdb \<Rightarrow> rdb" where
  "cmd_effect (HSET k f v) (s, h) = (s, h(k := (h k)(f \<mapsto> v)))"
| "cmd_effect (SET k v) (s, h) = (s(k \<mapsto> v), h(k := Map.empty))"
| "cmd_effect (HDEL k f) (s, h) = (s, h(k := (h k)(f := None)))"
| "cmd_effect (DEL k) (s, h) = (s(k := None), h(k := Map.empty))"
| "cmd_effect (EXPIRE k t) (s, h) = (if sint t \<le> 0 then (s(k := None), h(k := Map.empty)) else (s, h))"
| "cmd_effect c d = d"

definition key_exists :: "string \<Rightarrow> rdb \<Rightarrow> bool" where
  "key_exists k d \<longleftrightarrow> fst d k \<noteq> None \<or> snd d k \<noteq> Map.empty"

definition or_empty :: "string option \<Rightarrow> string" where "or_empty v = (case v of None \<Rightarrow> [] | Some x \<Rightarrow> x)"

fun reply_ok :: "redis_cmd \<Rightarrow> rdb \<Rightarrow> redis_val \<Rightarrow> bool" where
  "reply_ok (EXPIRE k t) d v \<longleftrightarrow> v = VBool (key_exists k d)"
| "reply_ok (HDEL k f) d v \<longleftrightarrow> v = VBool (snd d k f \<noteq> None)"
| "reply_ok (DEL k) d v \<longleftrightarrow> v = VBool (key_exists k d)"
| "reply_ok (MGET ks) d v \<longleftrightarrow> v = VStrings (map (\<lambda>k. or_empty (fst d k)) ks)"
| "reply_ok (HGETALL k) d v \<longleftrightarrow> (\<exists>fs. v = VMap fs \<and> distinct (map fst fs) \<and> map_of fs = snd d k)"
| "reply_ok (HGET k f) d v \<longleftrightarrow> v = VBytes (snd d k f)"
| "reply_ok _ d v \<longleftrightarrow> True"

text \<open>Commands are executed in order; a reply that is not an error is the one documented for its command.\<close>

fun replies_ok :: "redis_cmd list \<Rightarrow> rdb \<Rightarrow> (error + redis_val) list \<Rightarrow> bool" where
  "replies_ok [] d [] = True"
| "replies_ok (c # cs) d (Inr v # vs) = (reply_ok c d v \<and> replies_ok cs (cmd_effect c d) vs)"
| "replies_ok (c # cs) d (Inl e # vs) = replies_ok cs d vs"
| "replies_ok _ d _ = False"

fun replies_effect :: "redis_cmd list \<Rightarrow> (error + redis_val) list \<Rightarrow> rdb \<Rightarrow> rdb" where
  "replies_effect (c # cs) (Inr v # vs) d = replies_effect cs vs (cmd_effect c d)"
| "replies_effect (c # cs) (Inl e # vs) d = replies_effect cs vs d"
| "replies_effect _ _ d = d"

locale redis_db =
  fixes pipe :: "'r redis_pipe" and view :: "'r \<Rightarrow> rdb"
  assumes pipe_replies: "pipe cs r = (Inr rs, r') \<Longrightarrow> replies_ok cs (view r) rs \<and> view r' = replies_effect cs rs (view r)"

section \<open>Keys\<close>

definition keyMidServer :: "int64 \<Rightarrow> string" where "keyMidServer mid = ''mid_'' @ FormatInt (sint mid)"
definition keyKeyServer :: "string \<Rightarrow> string" where "keyKeyServer key = ''key_'' @ key"
definition keyServerOnline :: "string \<Rightarrow> string" where "keyServerOnline key = ''ol_'' @ key"

section \<open>Receiving\<close>

text \<open>Receive every reply, stop at the first error.\<close>

fun receive_all :: "(error + redis_val) list \<Rightarrow> error option" where
  "receive_all [] = None"
| "receive_all (Inl e # rs) = Some e"
| "receive_all (Inr v # rs) = receive_all rs"

text \<open>The same into the variable \<open>has\<close>: the last reply counts.\<close>

fun receive_bools :: "bool \<Rightarrow> (error + redis_val) list \<Rightarrow> bool \<times> error option" where
  "receive_bools has [] = (has, None)"
| "receive_bools has (Inl e # rs) = (False, Some e)"
| "receive_bools has (Inr v # rs) = receive_bools (case v of VBool b \<Rightarrow> b | _ \<Rightarrow> False) rs"

section \<open>Mappings\<close>

definition AddMapping :: "'r redis_pipe \<Rightarrow> int32 \<Rightarrow> int64 \<Rightarrow> string \<Rightarrow> string \<Rightarrow> 'r \<Rightarrow> error option \<times> 'r" where
  "AddMapping pipe expire mid key server r =
     (let cs = (if 0 < sint mid then [HSET (keyMidServer mid) key server, EXPIRE (keyMidServer mid) expire] else []) @
               [SET (keyKeyServer key) server, EXPIRE (keyKeyServer key) expire]
      in case pipe cs r of (Inl e, r') \<Rightarrow> (Some e, r') | (Inr rs, r') \<Rightarrow> (receive_all rs, r'))"

definition ExpireMapping :: "'r redis_pipe \<Rightarrow> int32 \<Rightarrow> int64 \<Rightarrow> string \<Rightarrow> 'r \<Rightarrow> (bool \<times> error option) \<times> 'r" where
  "ExpireMapping pipe expire mid key r =
     (let cs = (if 0 < sint mid then [EXPIRE (keyMidServer mid) expire] else []) @ [EXPIRE (keyKeyServer key) expire]
      in case pipe cs r of (Inl e, r') \<Rightarrow> ((False, Some e), r') | (Inr rs, r') \<Rightarrow> (receive_bools False rs, r'))"

definition DelMapping :: "'r redis_pipe \<Rightarrow> int64 \<Rightarrow> string \<Rightarrow> string \<Rightarrow> 'r \<Rightarrow> (bool \<times> error option) \<times> 'r" where
  "DelMapping pipe mid key server r =
     (let cs = (if 0 < sint mid then [HDEL (keyMidServer mid) key] else []) @ [DEL (keyKeyServer key)]
      in case pipe cs r of (Inl e, r') \<Rightarrow> ((False, Some e), r') | (Inr rs, r') \<Rightarrow> (receive_bools False rs, r'))"

definition ServersByKeys :: "'r redis_pipe \<Rightarrow> string list \<Rightarrow> 'r \<Rightarrow> (string list \<times> error option) \<times> 'r" where
  "ServersByKeys pipe keys r =
     (case pipe [MGET (map keyKeyServer keys)] r of
        (Inr [Inr (VStrings res)], r') \<Rightarrow> ((res, None), r')
      | (Inr (Inl e # _), r') \<Rightarrow> (([], Some e), r')
      | (Inl e, r') \<Rightarrow> (([], Some e), r')
      | (_, r') \<Rightarrow> (([], None), r'))"

text \<open>\<open>ress\<close> is one map: a key of several members keeps the server of the last.\<close>

fun receive_maps :: "int64 list \<Rightarrow> (error + redis_val) list \<Rightarrow> (string \<times> string) list \<Rightarrow> int64 list \<Rightarrow>
    (string \<times> string) list \<times> int64 list \<times> error option" where
  "receive_maps (mid # mids) (Inr (VMap res) # rs) ress ol =
     receive_maps mids rs (fold (\<lambda>(k, v). AList.update k v) res ress) (if res \<noteq> [] then ol @ [mid] else ol)"
| "receive_maps (mid # mids) (Inl e # rs) ress ol = (ress, ol, Some e)"
| "receive_maps _ _ ress ol = (ress, ol, None)"

definition KeysByMids :: "'r redis_pipe \<Rightarrow> int64 list \<Rightarrow> 'r \<Rightarrow> ((string \<times> string) list \<times> int64 list \<times> error option) \<times> 'r" where
  "KeysByMids pipe mids r =
     (case pipe (map (\<lambda>mid. HGETALL (keyMidServer mid)) mids) r of
        (Inl e, r') \<Rightarrow> (([], [], Some e), r')
      | (Inr rs, r') \<Rightarrow> (receive_maps mids rs [] [], r'))"

section \<open>Rooms of a server\<close>

record Online =
  ol_Server :: string
  ol_RoomCount :: "(string \<times> int32) list"
  ol_Updated :: int

text \<open>The rooms by the hash of their name modulo 64.\<close>

definition room_hash :: "(byte list \<Rightarrow> 32 word \<Rightarrow> 32 word) \<Rightarrow> string \<Rightarrow> nat" where
  "room_hash cityhash room = unat (cityhash (go_bytes room) (of_nat (length room)) mod 64)"

definition room_shards :: "(byte list \<Rightarrow> 32 word \<Rightarrow> 32 word) \<Rightarrow> (string \<times> int32) list \<Rightarrow> (nat \<times> (string \<times> int32) list) list" where
  "room_shards cityhash rc =
     fold (\<lambda>(room, count) m.
       let h = room_hash cityhash room
       in AList.update h (AList.update room count (case map_of m h of None \<Rightarrow> [] | Some rooms \<Rightarrow> rooms)) m) rc []"

definition addServerOnline :: "'r redis_pipe \<Rightarrow> int32 \<Rightarrow> (Online \<Rightarrow> string) \<Rightarrow> string \<Rightarrow> string \<Rightarrow> Online \<Rightarrow> 'r \<Rightarrow> error option \<times> 'r" where
  "addServerOnline pipe expire enc key hashKey online r =
     (case pipe [HSET key hashKey (enc online), EXPIRE key expire] r of
        (Inl e, r') \<Rightarrow> (Some e, r') | (Inr rs, r') \<Rightarrow> (receive_all rs, r'))"

fun add_shards ::
    "'r redis_pipe \<Rightarrow> int32 \<Rightarrow> (Online \<Rightarrow> string) \<Rightarrow> string \<Rightarrow> Online \<Rightarrow> (nat \<times> (string \<times> int32) list) list \<Rightarrow> 'r \<Rightarrow> error option \<times> 'r" where
  "add_shards pipe expire enc key online [] r = (None, r)"
| "add_shards pipe expire enc key online ((h, rooms) # ss) r =
     (case addServerOnline pipe expire enc key (FormatInt (int h)) (online\<lparr>ol_RoomCount := rooms\<rparr>) r of
        (Some e, r') \<Rightarrow> (Some e, r')
      | (None, r') \<Rightarrow> add_shards pipe expire enc key online ss r')"

definition AddServerOnline ::
    "'r redis_pipe \<Rightarrow> int32 \<Rightarrow> (Online \<Rightarrow> string) \<Rightarrow> (byte list \<Rightarrow> 32 word \<Rightarrow> 32 word) \<Rightarrow> string \<Rightarrow> Online \<Rightarrow> 'r \<Rightarrow> error option \<times> 'r" where
  "AddServerOnline pipe expire enc cityhash server online r =
     add_shards pipe expire enc (keyServerOnline server) online (room_shards cityhash (ol_RoomCount online)) r"

definition serverOnline :: "'r redis_pipe \<Rightarrow> (string \<Rightarrow> error + Online) \<Rightarrow> string \<Rightarrow> string \<Rightarrow> 'r \<Rightarrow> (error + Online) \<times> 'r" where
  "serverOnline pipe dec key hashKey r =
     (case pipe [HGET key hashKey] r of
        (Inr [Inr (VBytes (Some b))], r') \<Rightarrow> (dec b, r')
      | (Inr (Inl e # _), r') \<Rightarrow> (Inl e, r')
      | (Inl e, r') \<Rightarrow> (Inl e, r')
      | (_, r') \<Rightarrow> (Inl ErrNil, r'))"

text \<open>
  The loop over the 64 parts. Its \<open>err\<close> is a variable of the loop body, so the function returns a nil error
  whatever happens.
\<close>

fun read_shards :: "'r redis_pipe \<Rightarrow> (string \<Rightarrow> error + Online) \<Rightarrow> string \<Rightarrow> nat list \<Rightarrow> Online \<Rightarrow> 'r \<Rightarrow> Online \<times> 'r" where
  "read_shards pipe dec key [] online r = (online, r)"
| "read_shards pipe dec key (i # is) online r =
     (case serverOnline pipe dec key (FormatInt (int i)) r of
        (Inr ol, r') \<Rightarrow>
          read_shards pipe dec key is
            \<lparr>ol_Server = ol_Server ol, ol_RoomCount = fold (\<lambda>(k, v). AList.update k v) (ol_RoomCount ol) (ol_RoomCount online),
             ol_Updated = max (ol_Updated ol) (ol_Updated online)\<rparr> r'
      | (Inl e, r') \<Rightarrow> read_shards pipe dec key is online r')"

definition ServerOnline :: "'r redis_pipe \<Rightarrow> (string \<Rightarrow> error + Online) \<Rightarrow> string \<Rightarrow> 'r \<Rightarrow> (Online \<times> error option) \<times> 'r" where
  "ServerOnline pipe dec server r =
     (let (online, r') = read_shards pipe dec (keyServerOnline server) [0..<64] \<lparr>ol_Server = [], ol_RoomCount = [], ol_Updated = 0\<rparr> r
      in ((online, None), r'))"

definition DelServerOnline :: "'r redis_pipe \<Rightarrow> string \<Rightarrow> 'r \<Rightarrow> error option \<times> 'r" where
  "DelServerOnline pipe server r =
     (case pipe [DEL (keyServerOnline server)] r of (Inl e, r') \<Rightarrow> (Some e, r') | (Inr rs, r') \<Rightarrow> (receive_all rs, r'))"

section \<open>A database in memory\<close>

text \<open>It executes every command as documented and never fails; it shows that the contract can hold, and the witnesses run on it.\<close>

type_synonym mem_db = "(string \<times> string) list \<times> (string \<times> (string \<times> string) list) list"

definition mem_hash :: "string \<Rightarrow> mem_db \<Rightarrow> (string \<times> string) list" where
  "mem_hash k d = (case map_of (snd d) k of None \<Rightarrow> [] | Some fs \<Rightarrow> fs)"

definition mem_view :: "mem_db \<Rightarrow> rdb" where
  "mem_view d = (map_of (fst d), \<lambda>k. map_of (mem_hash k d))"

fun mem_exec :: "redis_cmd \<Rightarrow> mem_db \<Rightarrow> redis_val \<times> mem_db" where
  "mem_exec (HSET k f v) d = (VAny, fst d, AList.update k (AList.update f v (mem_hash k d)) (snd d))"
| "mem_exec (EXPIRE k t) d =
     (VBool (map_of (fst d) k \<noteq> None \<or> mem_hash k d \<noteq> []),
      if sint t \<le> 0 then (AList.delete k (fst d), AList.delete k (snd d)) else d)"
| "mem_exec (SET k v) d = (VAny, AList.update k v (fst d), AList.delete k (snd d))"
| "mem_exec (HDEL k f) d = (VBool (map_of (mem_hash k d) f \<noteq> None), fst d, AList.update k (AList.delete f (mem_hash k d)) (snd d))"
| "mem_exec (DEL k) d = (VBool (map_of (fst d) k \<noteq> None \<or> mem_hash k d \<noteq> []), AList.delete k (fst d), AList.delete k (snd d))"
| "mem_exec (MGET ks) d = (VStrings (map (\<lambda>k. or_empty (map_of (fst d) k)) ks), d)"
| "mem_exec (HGETALL k) d = (VMap (AList.clearjunk (mem_hash k d)), d)"
| "mem_exec (HGET k f) d = (VBytes (map_of (mem_hash k d) f), d)"

fun mem_run :: "redis_cmd list \<Rightarrow> mem_db \<Rightarrow> redis_val list \<times> mem_db" where
  "mem_run [] d = ([], d)"
| "mem_run (c # cs) d = (case mem_exec c d of (v, d1) \<Rightarrow> case mem_run cs d1 of (vs, d2) \<Rightarrow> (v # vs, d2))"

definition mem_pipe :: "mem_db redis_pipe" where
  "mem_pipe cs d = (case mem_run cs d of (vs, d') \<Rightarrow> (Inr (map Inr vs), d'))"

lemma map_of_all_None [simp]: "(\<forall>x. map_of fs x = None) \<longleftrightarrow> fs = []"
  by (cases fs) (auto simp: map_of_eq_None_iff)

lemma mem_key_exists: "key_exists k (mem_view d) \<longleftrightarrow> map_of (fst d) k \<noteq> None \<or> mem_hash k d \<noteq> []"
  by (auto simp: key_exists_def mem_view_def fun_eq_iff)

lemma mem_view_delete:
  "mem_view (AList.delete k (fst d), AList.delete k (snd d)) = ((fst (mem_view d))(k := None), (snd (mem_view d))(k := Map.empty))"
  by (auto simp: mem_view_def mem_hash_def delete_conv' fun_eq_iff split: option.splits)

lemma mem_exec_ok:
  assumes "mem_exec c d = (v, d')"
  shows "reply_ok c (mem_view d) v \<and> mem_view d' = cmd_effect c (mem_view d)"
proof (cases c)
  case (HSET k f v)
  then show ?thesis using assms by (auto simp: mem_view_def mem_hash_def update_conv' fun_eq_iff split: option.splits)
next
  case (EXPIRE k t)
  then show ?thesis using assms mem_view_delete [of k d] mem_key_exists [of k d]
    by (cases "mem_view d") (auto split: if_splits)
next
  case (SET k v)
  then show ?thesis using assms by (auto simp: mem_view_def mem_hash_def update_conv' delete_conv' fun_eq_iff split: option.splits)
next
  case (HDEL k f)
  then show ?thesis using assms by (auto simp: mem_view_def mem_hash_def update_conv' delete_conv' fun_eq_iff split: option.splits)
next
  case (DEL k)
  then show ?thesis using assms mem_view_delete [of k d] mem_key_exists [of k d] by (cases "mem_view d") auto
next
  case (HGETALL k)
  then show ?thesis using assms by (auto simp: mem_view_def map_of_clearjunk distinct_clearjunk)
qed (use assms in \<open>auto simp: mem_view_def\<close>)

lemma mem_run_ok: "mem_run cs d = (vs, d') \<Longrightarrow>
  replies_ok cs (mem_view d) (map Inr vs) \<and> mem_view d' = replies_effect cs (map Inr vs) (mem_view d)"
proof (induction cs arbitrary: d vs d')
  case (Cons c cs)
  obtain v d1 where x: "mem_exec c d = (v, d1)" by (cases "mem_exec c d")
  obtain us d2 where r: "mem_run cs d1 = (us, d2)" by (cases "mem_run cs d1")
  then show ?case using Cons.prems x Cons.IH [OF r] mem_exec_ok [OF x] by auto
qed simp

interpretation mem: redis_db mem_pipe mem_view
proof
  fix cs :: "redis_cmd list" and r r' :: mem_db and rs :: "(error + redis_val) list"
  assume "mem_pipe cs r = (Inr rs, r')"
  then show "replies_ok cs (mem_view r) rs \<and> mem_view r' = replies_effect cs rs (mem_view r)"
    using mem_run_ok [of cs r] by (auto simp: mem_pipe_def split: prod.splits)
qed


section \<open>Replies\<close>

lemma receive_all_effect:
  "replies_ok cs d rs \<Longrightarrow> receive_all rs = None \<Longrightarrow> replies_effect cs rs d = fold cmd_effect cs d"
  by (induction cs d rs rule: replies_ok.induct) auto

lemma receive_bools_effect:
  "replies_ok cs d rs \<Longrightarrow> receive_bools h rs = (has, None) \<Longrightarrow> replies_effect cs rs d = fold cmd_effect cs d"
  by (induction cs d rs arbitrary: h rule: replies_ok.induct) auto

lemma receive_bools_last:
  "replies_ok (cs @ [c]) d rs \<Longrightarrow> receive_bools h rs = (has, None) \<Longrightarrow>
   (\<And>v. reply_ok c (fold cmd_effect cs d) v \<Longrightarrow> v = VBool b) \<Longrightarrow> has = b"
proof (induction cs arbitrary: d rs h)
  case Nil
  then obtain x rs' where rs: "rs = x # rs'" by (cases rs) auto
  have "rs' = []" using Nil.prems(1) rs by (cases x; cases rs') auto
  then obtain v where v: "rs = [Inr v]" "reply_ok c d v" using Nil.prems rs by (cases x) auto
  then have "v = VBool b" using Nil.prems(3) by simp
  then show ?case using Nil.prems(2) v by simp
next
  case (Cons a cs)
  then obtain v us where "rs = Inr v # us" by (cases rs rule: receive_all.cases) auto
  then show ?case using Cons.prems by (intro Cons.IH [of "cmd_effect a d" us]) auto
qed

lemma map_of_updates: "map_of (fold (\<lambda>(k, v). AList.update k v) res m) = map_of m ++ map_of (rev res)"
  by (induction res arbitrary: m) (auto simp: update_conv' fun_eq_iff map_add_def split: option.splits)

lemma map_of_updates_distinct:
  "distinct (map fst res) \<Longrightarrow> map_of (fold (\<lambda>(k, v). AList.update k v) res m) = map_of m ++ map_of res"
  using map_of_inject_set [of "rev res" res] by (simp add: map_of_updates flip: rev_map)

text \<open>The database in memory never fails.\<close>

lemma receive_Inr [simp]: "receive_all (map Inr vs) = None" "snd (receive_bools h (map Inr vs)) = None"
  by (induction vs arbitrary: h) auto

lemma mem_succeeds:
  "fst (AddMapping mem_pipe expire mid key server r) = None" "snd (fst (DelMapping mem_pipe mid key server r)) = None"
  "snd (fst (ExpireMapping mem_pipe expire mid key r)) = None" "snd (fst (ServersByKeys mem_pipe keys r)) = None"
  by (simp_all add: AddMapping_def DelMapping_def ExpireMapping_def ServersByKeys_def mem_pipe_def Let_def split: prod.splits)

section \<open>The keys do not collide\<close>

lemma FormatInt_inj [simp]: "FormatInt i = FormatInt j \<longleftrightarrow> i = j"
proof
  assume eq: "FormatInt i = FormatInt j"
  obtain n where "nat (\<bar>i\<bar> + \<bar>j\<bar>) < 2 ^ n" using less_exp by blast
  then have "\<bar>i\<bar> + \<bar>j\<bar> < 2 ^ n" by (simp add: nat_less_iff)
  then have "- (2 ^ n) \<le> i \<and> i < 2 ^ n" "- (2 ^ n) \<le> j \<and> j < 2 ^ n" by linarith+
  then have "ParseInt (FormatInt i) (Suc n) = Inr i" "ParseInt (FormatInt j) (Suc n) = Inr j"
    using parse_format [of "Suc n" i] parse_format [of "Suc n" j] by simp_all
  then show "i = j" by (metis eq sum.inject(2))
qed simp

lemma keys_apart [simp]:
  "keyMidServer mid = keyMidServer mid' \<longleftrightarrow> mid = mid'" "keyKeyServer key = keyKeyServer key' \<longleftrightarrow> key = key'"
  "keyServerOnline s = keyServerOnline s' \<longleftrightarrow> s = s'"
  "keyMidServer mid \<noteq> keyKeyServer key" "keyKeyServer key \<noteq> keyMidServer mid"
  "keyServerOnline s \<noteq> keyKeyServer key" "keyServerOnline s \<noteq> keyMidServer mid"
  by (auto simp: keyMidServer_def keyKeyServer_def keyServerOnline_def intro: signed_word_eqI)

section \<open>The routing table\<close>

text \<open>What the mappings are for: the server of a key, and the servers of a member's keys.\<close>

record routes =
  r_servers :: "string \<rightharpoonup> string"
  r_members :: "int64 \<Rightarrow> string \<rightharpoonup> string"

definition routes_of :: "rdb \<Rightarrow> routes" where
  "routes_of d = \<lparr>r_servers = \<lambda>key. fst d (keyKeyServer key), r_members = \<lambda>mid. snd d (keyMidServer mid)\<rparr>"

definition add_route :: "int64 \<Rightarrow> string \<Rightarrow> string \<Rightarrow> routes \<Rightarrow> routes" where
  "add_route mid key server t =
     \<lparr>r_servers = (r_servers t)(key \<mapsto> server),
      r_members = (if 0 < sint mid then (r_members t)(mid := (r_members t mid)(key \<mapsto> server)) else r_members t)\<rparr>"

definition del_route :: "int64 \<Rightarrow> string \<Rightarrow> routes \<Rightarrow> routes" where
  "del_route mid key t =
     \<lparr>r_servers = (r_servers t)(key := None),
      r_members = (if 0 < sint mid then (r_members t)(mid := (r_members t mid)(key := None)) else r_members t)\<rparr>"

lemma receive_maps_ok:
  "replies_ok (map (\<lambda>mid. HGETALL (keyMidServer mid)) mids) d rs \<Longrightarrow>
   receive_maps mids rs ress ol = (ress', ol', None) \<Longrightarrow>
   map_of ress' = foldl (\<lambda>m mid. m ++ snd d (keyMidServer mid)) (map_of ress) mids \<and>
   ol' = ol @ filter (\<lambda>mid. snd d (keyMidServer mid) \<noteq> Map.empty) mids \<and>
   replies_effect (map (\<lambda>mid. HGETALL (keyMidServer mid)) mids) rs d = d"
proof (induction mids arbitrary: rs ress ol)
  case Nil
  then show ?case by (cases rs) auto
next
  case (Cons mid mids)
  then obtain fs us where rs: "rs = Inr (VMap fs) # us" and fs: "distinct (map fst fs)" "map_of fs = snd d (keyMidServer mid)"
    by (cases rs rule: receive_all.cases) auto
  have "fs \<noteq> [] \<longleftrightarrow> snd d (keyMidServer mid) \<noteq> Map.empty" using fs(2) by (metis map_of_eq_empty_iff)
  then show ?case
    using Cons.IH [of us "fold (\<lambda>(k, v). AList.update k v) fs ress" "if fs \<noteq> [] then ol @ [mid] else ol"] Cons.prems rs fs
    by (simp add: map_of_updates_distinct)
qed

context redis_db
begin

lemma sent_all:
  assumes "pipe cs r = (Inr rs, r')" and "receive_all rs = None"
  shows "view r' = fold cmd_effect cs (view r)"
  using pipe_replies [OF assms(1)] receive_all_effect assms(2) by metis

lemma AddMapping_view:
  assumes "AddMapping pipe expire mid key server r = (None, r')"
  shows "view r' = fold cmd_effect ((if 0 < sint mid then [HSET (keyMidServer mid) key server, EXPIRE (keyMidServer mid) expire] else []) @
               [SET (keyKeyServer key) server, EXPIRE (keyKeyServer key) expire]) (view r)"
  using assms sent_all by (simp add: AddMapping_def Let_def split: prod.splits sum.splits)

lemma AddMapping_routes:
  assumes "AddMapping pipe expire mid key server r = (None, r')" and "0 < sint expire"
  shows "routes_of (view r') = add_route mid key server (routes_of (view r))"
  using AddMapping_view [OF assms(1)] assms(2)
  by (cases "view r") (auto simp: routes_of_def add_route_def fun_eq_iff)

lemma DelMapping_routes:
  assumes "DelMapping pipe mid key server r = ((has, None), r')"
  shows "routes_of (view r') = del_route mid key (routes_of (view r)) \<and> (has \<longleftrightarrow> key_exists (keyKeyServer key) (view r)) \<and>
    \<not> key_exists (keyKeyServer key) (view r')"
proof -
  let ?pre = "if 0 < sint mid then [HDEL (keyMidServer mid) key] else []"
  obtain rs where p: "pipe (?pre @ [DEL (keyKeyServer key)]) r = (Inr rs, r')" and b: "receive_bools False rs = (has, None)"
    using assms by (auto simp: DelMapping_def Let_def split: prod.splits sum.splits)
  note ok = pipe_replies [OF p]
  have "view r' = fold cmd_effect (?pre @ [DEL (keyKeyServer key)]) (view r)"
    using ok receive_bools_effect [OF _ b] by metis
  then have "routes_of (view r') = del_route mid key (routes_of (view r)) \<and> \<not> key_exists (keyKeyServer key) (view r')"
    by (cases "view r") (auto simp: routes_of_def del_route_def key_exists_def fun_eq_iff)
  moreover have "key_exists (keyKeyServer key) (fold cmd_effect ?pre (view r)) = key_exists (keyKeyServer key) (view r)"
    by (cases "view r") (auto simp: key_exists_def)
  then have "has = key_exists (keyKeyServer key) (view r)"
    by (intro receive_bools_last [OF conjunct1 [OF ok] b]) simp
  ultimately show ?thesis by simp
qed

lemma ExpireMapping_view:
  assumes "ExpireMapping pipe expire mid key r = ((has, None), r')" and e: "0 < sint expire"
  shows "view r' = view r \<and> (has \<longleftrightarrow> key_exists (keyKeyServer key) (view r))"
proof -
  let ?pre = "if 0 < sint mid then [EXPIRE (keyMidServer mid) expire] else []"
  obtain rs where p: "pipe (?pre @ [EXPIRE (keyKeyServer key) expire]) r = (Inr rs, r')" and b: "receive_bools False rs = (has, None)"
    using assms by (auto simp: ExpireMapping_def Let_def split: prod.splits sum.splits)
  note ok = pipe_replies [OF p]
  have v: "fold cmd_effect ?pre (view r) = view r" using e by (cases "view r") auto
  have "view r' = fold cmd_effect (?pre @ [EXPIRE (keyKeyServer key) expire]) (view r)"
    using ok receive_bools_effect [OF _ b] by metis
  then have "view r' = view r" using v e by (cases "view r") simp
  moreover have "has = key_exists (keyKeyServer key) (view r)"
    using v by (intro receive_bools_last [OF conjunct1 [OF ok] b]) simp
  ultimately show ?thesis by simp
qed

lemma ServersByKeys_view:
  assumes "ServersByKeys pipe keys r = ((res, None), r')"
  shows "res = map (\<lambda>key. or_empty (r_servers (routes_of (view r)) key)) keys \<and> view r' = view r"
proof -
  obtain rs where p: "pipe [MGET (map keyKeyServer keys)] r = (Inr rs, r')"
    using assms by (auto simp: ServersByKeys_def split: prod.splits sum.splits list.splits redis_val.splits)
  note ok = pipe_replies [OF p]
  obtain x us where rs: "rs = x # us" using ok by (cases rs) auto
  have us: "us = []" using ok rs by (cases x; cases us) auto
  show ?thesis using ok assms p rs us
    by (cases x) (auto simp: ServersByKeys_def routes_of_def comp_def)
qed

lemma KeysByMids_view:
  assumes "KeysByMids pipe mids r = ((ress, ol, None), r')"
  shows "map_of ress = foldl (\<lambda>m mid. m ++ r_members (routes_of (view r)) mid) Map.empty mids \<and>
    ol = filter (\<lambda>mid. r_members (routes_of (view r)) mid \<noteq> Map.empty) mids \<and> view r' = view r"
proof -
  obtain rs where p: "pipe (map (\<lambda>mid. HGETALL (keyMidServer mid)) mids) r = (Inr rs, r')" and m: "receive_maps mids rs [] [] = (ress, ol, None)"
    using assms by (auto simp: KeysByMids_def split: prod.splits sum.splits)
  show ?thesis using pipe_replies [OF p] receive_maps_ok [OF _ m] by (simp add: routes_of_def)
qed

end

section \<open>The rooms of a server in 64 parts\<close>

lemma room_hash_less: "room_hash cityhash room < 64"
proof -
  have "unat (x mod 64) < 64" for x :: "32 word" by (simp add: unat_mod)
  then show ?thesis by (simp add: room_hash_def)
qed

text \<open>The part that is stored under a field of the hash, if it can be decoded.\<close>

definition stored :: "(string \<Rightarrow> error + Online) \<Rightarrow> (string \<rightharpoonup> string) \<Rightarrow> nat \<Rightarrow> Online option" where
  "stored dec H i = (case H (FormatInt (int i)) of None \<Rightarrow> None | Some b \<Rightarrow> (case dec b of Inl e \<Rightarrow> None | Inr ol \<Rightarrow> Some ol))"

definition part_rooms :: "Online option \<Rightarrow> string \<rightharpoonup> int32" where
  "part_rooms p = (case p of None \<Rightarrow> Map.empty | Some ol \<Rightarrow> map_of (ol_RoomCount ol))"

definition merge_part :: "Online option \<Rightarrow> Online \<Rightarrow> Online" where
  "merge_part p online =
     (case p of
        None \<Rightarrow> online
      | Some ol \<Rightarrow>
          \<lparr>ol_Server = ol_Server ol, ol_RoomCount = fold (\<lambda>(k, v). AList.update k v) (ol_RoomCount ol) (ol_RoomCount online),
           ol_Updated = max (ol_Updated ol) (ol_Updated online)\<rparr>)"

text \<open>A room is stored in the part of its hash only, once.\<close>

definition parts_ok :: "(byte list \<Rightarrow> 32 word \<Rightarrow> 32 word) \<Rightarrow> (nat \<Rightarrow> Online option) \<Rightarrow> bool" where
  "parts_ok cityhash p \<longleftrightarrow>
     (\<forall>i ol. p i = Some ol \<longrightarrow> distinct (map fst (ol_RoomCount ol)) \<and> (\<forall>room\<in>fst ` set (ol_RoomCount ol). room_hash cityhash room = i))"

lemma merge_parts_rooms:
  "parts_ok cityhash p \<Longrightarrow>
   map_of (ol_RoomCount (fold (\<lambda>i. merge_part (p i)) is online)) =
   foldl (\<lambda>m i. m ++ part_rooms (p i)) (map_of (ol_RoomCount online)) is"
proof (induction "is" arbitrary: online)
  case (Cons i "is")
  have "map_of (ol_RoomCount (merge_part (p i) online)) = map_of (ol_RoomCount online) ++ part_rooms (p i)"
    using Cons.prems by (auto simp: merge_part_def part_rooms_def parts_ok_def map_of_updates_distinct split: option.splits)
  then show ?case using Cons by simp
qed simp

lemma part_rooms_elsewhere:
  "parts_ok cityhash p \<Longrightarrow> room_hash cityhash room \<noteq> i \<Longrightarrow> part_rooms (p i) room = None"
  by (auto simp: part_rooms_def parts_ok_def map_of_eq_None_iff split: option.splits)

lemma foldl_parts:
  "parts_ok cityhash p \<Longrightarrow>
   foldl (\<lambda>m i. m ++ part_rooms (p i)) m is room =
   (if room_hash cityhash room \<in> set is then (m ++ part_rooms (p (room_hash cityhash room))) room else m room)"
proof (induction "is" arbitrary: m)
  case (Cons i "is")
  show ?case
  proof (cases "room_hash cityhash room = i")
    case True
    then show ?thesis using Cons by (auto simp: map_add_def split: option.splits)
  next
    case False
    then show ?thesis using Cons part_rooms_elsewhere [OF Cons.prems False] by (auto simp: map_add_def split: option.splits)
  qed
qed simp

lemma merge_all_rooms:
  assumes "parts_ok cityhash p"
  shows "map_of (ol_RoomCount (fold (\<lambda>i. merge_part (p i)) [0..<64] \<lparr>ol_Server = [], ol_RoomCount = [], ol_Updated = u\<rparr>)) room =
    part_rooms (p (room_hash cityhash room)) room"
  using room_hash_less [of cityhash room]
  by (simp only: merge_parts_rooms [OF assms] foldl_parts [OF assms]) (simp add: map_add_def split: option.splits)

text \<open>The parts that \<open>AddServerOnline\<close> forms.\<close>

lemma room_shards_part:
  "distinct (map fst rc) \<Longrightarrow>
   (map_of (room_shards cityhash rc) h = None \<longleftrightarrow> (\<forall>room\<in>fst ` set rc. room_hash cityhash room \<noteq> h)) \<and>
   (\<forall>rooms. map_of (room_shards cityhash rc) h = Some rooms \<longrightarrow>
     distinct (map fst rooms) \<and> map_of rooms = (\<lambda>room. if room_hash cityhash room = h then map_of rc room else None))"
proof (induction rc rule: rev_induct)
  case (snoc x rc)
  obtain room count where x: "x = (room, count)" by (cases x)
  then have fx: "fst x = room" by simp
  have ih: "(map_of (room_shards cityhash rc) h = None \<longleftrightarrow> (\<forall>room\<in>fst ` set rc. room_hash cityhash room \<noteq> h)) \<and>
   (\<forall>rooms. map_of (room_shards cityhash rc) h = Some rooms \<longrightarrow>
     distinct (map fst rooms) \<and> map_of rooms = (\<lambda>room. if room_hash cityhash room = h then map_of rc room else None))"
    using snoc by simp
  have new: "map_of rc room = None" using snoc.prems x by (auto simp: map_of_eq_None_iff)
  have rc: "map_of (rc @ [x]) r = (if r = room then Some count else map_of rc r)" for r
    using new by (auto simp: x map_add_def split: option.splits)
  have step: "map_of (room_shards cityhash (rc @ [x])) h =
    (if room_hash cityhash room = h
     then Some (AList.update room count (case map_of (room_shards cityhash rc) h of None \<Rightarrow> [] | Some rooms \<Rightarrow> rooms))
     else map_of (room_shards cityhash rc) h)"
    by (auto simp: room_shards_def x Let_def update_conv')
  show ?case
  proof (cases "room_hash cityhash room = h")
    case True
    show ?thesis
    proof (cases "map_of (room_shards cityhash rc) h")
      case None
      then have "\<forall>r. room_hash cityhash r = h \<longrightarrow> map_of rc r = None" using ih by (auto simp: map_of_eq_None_iff)
      then show ?thesis using None True fx by (auto simp: step rc fun_eq_iff simp del: map_of_append)
    next
      case (Some rooms)
      then show ?thesis using ih True fx by (auto simp: step rc update_conv' distinct_update simp del: map_of_append)
    qed
  next
    case False
    then show ?thesis using ih fx by (auto simp: step rc fun_eq_iff simp del: map_of_append)
  qed
qed (simp add: room_shards_def)

lemma room_shards_distinct: "distinct (map fst (room_shards cityhash rc))"
  unfolding room_shards_def by (induction rc rule: rev_induct) (auto simp: Let_def distinct_update split: prod.splits)

section \<open>Storing and reading the rooms of a server\<close>

text \<open>A Redis that can be reached answers a read of a hash and removes a key.\<close>

locale redis_up = redis_db +
  assumes hget_up: "fst (view r) k = None \<Longrightarrow> \<exists>v r'. pipe [HGET k f] r = (Inr [Inr v], r')"
    and del_up: "\<exists>v r'. pipe [DEL k] r = (Inr [Inr v], r')"
begin

lemma serverOnline_up:
  assumes "fst (view r) key = None"
  shows "\<exists>r'. view r' = view r \<and>
    serverOnline pipe dec key f r = ((case snd (view r) key f of None \<Rightarrow> Inl ErrNil | Some b \<Rightarrow> dec b), r')"
proof -
  obtain v r' where p: "pipe [HGET key f] r = (Inr [Inr v], r')" using hget_up [OF assms] by blast
  have "v = VBytes (snd (view r) key f)" "view r' = view r" using pipe_replies [OF p] by simp_all
  then show ?thesis using p by (auto simp: serverOnline_def split: option.splits)
qed

lemma read_shards_up:
  assumes "fst (view r) key = None"
  shows "\<exists>r'. view r' = view r \<and>
    read_shards pipe dec key is online r = (fold (\<lambda>i. merge_part (stored dec (snd (view r) key) i)) is online, r')"
  using assms
proof (induction "is" arbitrary: online r)
  case (Cons i "is")
  obtain r1 where r1: "view r1 = view r"
    "serverOnline pipe dec key (FormatInt (int i)) r = ((case snd (view r) key (FormatInt (int i)) of None \<Rightarrow> Inl ErrNil | Some b \<Rightarrow> dec b), r1)"
    using serverOnline_up [OF Cons.prems] by blast
  have "read_shards pipe dec key (i # is) online r =
    read_shards pipe dec key is (merge_part (stored dec (snd (view r) key) i) online) r1"
    by (auto simp: r1(2) stored_def merge_part_def split: option.splits sum.splits)
  then show ?case using Cons.IH [of r1 "merge_part (stored dec (snd (view r) key) i) online"] Cons.prems r1(1) by simp
qed simp

end

context redis_db
begin

lemma addServerOnline_view:
  assumes "addServerOnline pipe expire enc key f ol r = (None, r')" and "0 < sint expire"
  shows "fst (view r') = fst (view r) \<and> snd (view r') = (snd (view r))(key := (snd (view r) key)(f \<mapsto> enc ol))"
proof -
  obtain rs where "pipe [HSET key f (enc ol), EXPIRE key expire] r = (Inr rs, r')" "receive_all rs = None"
    using assms(1) by (auto simp: addServerOnline_def split: prod.splits sum.splits)
  from sent_all [OF this] show ?thesis using assms(2) by (cases "view r") simp
qed

lemma add_shards_view:
  assumes "add_shards pipe expire enc key online ss r = (None, r')" and "0 < sint expire" and "distinct (map fst ss)"
  shows "fst (view r') = fst (view r) \<and>
    snd (view r') key (FormatInt (int i)) =
      (case map_of ss i of None \<Rightarrow> snd (view r) key (FormatInt (int i)) | Some rooms \<Rightarrow> Some (enc (online\<lparr>ol_RoomCount := rooms\<rparr>)))"
  using assms
proof (induction ss arbitrary: r)
  case (Cons s ss)
  obtain h rooms where s: "s = (h, rooms)" by (cases s)
  obtain r1 where r1: "addServerOnline pipe expire enc key (FormatInt (int h)) (online\<lparr>ol_RoomCount := rooms\<rparr>) r = (None, r1)"
    "add_shards pipe expire enc key online ss r1 = (None, r')"
    using Cons.prems(1) s by (auto split: prod.splits option.splits)
  have h: "map_of ss h = None" using Cons.prems(3) s by (auto simp: map_of_eq_None_iff)
  show ?case
    using Cons.IH [OF r1(2) Cons.prems(2)] Cons.prems(3) addServerOnline_view [OF r1(1) Cons.prems(2)] s h
    by (auto split: option.splits)
qed simp

end

interpretation mem: redis_up mem_pipe mem_view
  by unfold_locales (auto simp: mem_pipe_def)

section \<open>Properties\<close>

text \<open>What the code relies on of the JSON codec: a value is read back, its map up to the order of the entries.\<close>

definition json_keeps :: "(Online \<Rightarrow> string) \<Rightarrow> (string \<Rightarrow> error + Online) \<Rightarrow> Online \<Rightarrow> bool" where
  "json_keeps enc dec ol \<longleftrightarrow>
     (case dec (enc ol) of
        Inl e \<Rightarrow> False
      | Inr ol' \<Rightarrow> ol_Server ol' = ol_Server ol \<and> ol_Updated ol' = ol_Updated ol \<and> distinct (map fst (ol_RoomCount ol')) \<and>
          map_of (ol_RoomCount ol') = map_of (ol_RoomCount ol))"

lemma stored_after_add:
  assumes "redis_db pipe view" and "0 < sint expire" and d: "distinct (map fst (ol_RoomCount online))"
    and json: "\<forall>rooms\<in>snd ` set (room_shards cityhash (ol_RoomCount online)). json_keeps enc dec (online\<lparr>ol_RoomCount := rooms\<rparr>)"
    and add: "AddServerOnline pipe expire enc cityhash server online r = (None, r1)"
  shows "fst (view r1) = fst (view r) \<and>
    (if \<forall>room\<in>fst ` set (ol_RoomCount online). room_hash cityhash room \<noteq> i
     then stored dec (snd (view r1) (keyServerOnline server)) i = stored dec (snd (view r) (keyServerOnline server)) i
     else \<exists>ol. stored dec (snd (view r1) (keyServerOnline server)) i = Some ol \<and> ol_Updated ol = ol_Updated online \<and>
       distinct (map fst (ol_RoomCount ol)) \<and>
       map_of (ol_RoomCount ol) = (\<lambda>room. if room_hash cityhash room = i then map_of (ol_RoomCount online) room else None))"
proof -
  let ?ss = "room_shards cityhash (ol_RoomCount online)"
  have v: "fst (view r1) = fst (view r)" "snd (view r1) (keyServerOnline server) (FormatInt (int i)) =
      (case map_of ?ss i of None \<Rightarrow> snd (view r) (keyServerOnline server) (FormatInt (int i)) | Some rooms \<Rightarrow> Some (enc (online\<lparr>ol_RoomCount := rooms\<rparr>)))"
    using redis_db.add_shards_view [OF assms(1) add [unfolded AddServerOnline_def] assms(2) room_shards_distinct] by simp_all
  note part = room_shards_part [OF d, of cityhash i]
  show ?thesis
  proof (cases "map_of ?ss i")
    case None
    then show ?thesis using v part by (simp add: stored_def)
  next
    case (Some rooms)
    then have "rooms \<in> snd ` set ?ss" by (force dest: map_of_SomeD)
    then have "json_keeps enc dec (online\<lparr>ol_RoomCount := rooms\<rparr>)" using json by blast
    moreover have "\<not> (\<forall>room\<in>fst ` set (ol_RoomCount online). room_hash cityhash room \<noteq> i)"
      "map_of rooms = (\<lambda>room. if room_hash cityhash room = i then map_of (ol_RoomCount online) room else None)"
      using part Some by simp_all
    ultimately show ?thesis using v Some
      by (simp only: if_False stored_def json_keeps_def) (simp split: sum.splits)
  qed
qed

lemma merge_parts_updated:
  "ol_Updated online \<le> ol_Updated (fold (\<lambda>i. merge_part (p i)) is online) \<and>
   (\<forall>i\<in>set is. \<forall>ol. p i = Some ol \<longrightarrow> ol_Updated ol \<le> ol_Updated (fold (\<lambda>i. merge_part (p i)) is online))"
proof (induction "is" arbitrary: online)
  case (Cons i "is")
  have "ol_Updated online \<le> ol_Updated (merge_part (p i) online)" "p i = Some ol \<Longrightarrow> ol_Updated ol \<le> ol_Updated (merge_part (p i) online)" for ol
    by (auto simp: merge_part_def split: option.splits)
  then show ?case using Cons.IH [of "merge_part (p i) online"] by fastforce
qed simp

text \<open>
  C6 (the routing table). The mappings in Redis refine a table that gives the server of a key and the servers of
  a member's keys: a successful \<open>AddMapping\<close> enters the key there, and under the member if its ID is positive; a
  successful \<open>DelMapping\<close> removes both and says whether the key was there; \<open>ExpireMapping\<close> changes nothing and
  says the same; \<open>ServersByKeys\<close> reads the servers in the order of the keys, empty where there is none; and
  \<open>KeysByMids\<close> merges the keys of the members, a later member first, and lists the members that have any.
\<close>

theorem mapping_refines:
  assumes "redis_db pipe view" and "0 < sint expire"
  shows "(AddMapping pipe expire mid key server r = (None, r') \<longrightarrow>
      routes_of (view r') = add_route mid key server (routes_of (view r))) \<and>
    (DelMapping pipe mid key server r = ((has, None), r') \<longrightarrow>
      routes_of (view r') = del_route mid key (routes_of (view r)) \<and> (has \<longleftrightarrow> key_exists (keyKeyServer key) (view r))) \<and>
    (ExpireMapping pipe expire mid key r = ((has, None), r') \<longrightarrow>
      view r' = view r \<and> (has \<longleftrightarrow> key_exists (keyKeyServer key) (view r))) \<and>
    (ServersByKeys pipe keys r = ((res, None), r') \<longrightarrow>
      view r' = view r \<and> res = map (\<lambda>key. or_empty (r_servers (routes_of (view r)) key)) keys) \<and>
    (KeysByMids pipe mids r = ((ress, ol, None), r') \<longrightarrow>
      view r' = view r \<and> map_of ress = foldl (\<lambda>m mid. m ++ r_members (routes_of (view r)) mid) Map.empty mids \<and>
      ol = filter (\<lambda>mid. r_members (routes_of (view r)) mid \<noteq> Map.empty) mids)"
  using redis_db.AddMapping_routes [OF assms(1) _ assms(2)] redis_db.DelMapping_routes [OF assms(1)]
    redis_db.ExpireMapping_view [OF assms(1) _ assms(2)] redis_db.ServersByKeys_view [OF assms(1)]
    redis_db.KeysByMids_view [OF assms(1)]
  by meson

theorem mapping_refines_witness:
  "r_servers (routes_of (mem_view (snd (AddMapping mem_pipe 1200 7 ''k'' ''s'' ([], []))))) ''k'' = Some ''s'' \<and>
   r_members (routes_of (mem_view (snd (AddMapping mem_pipe 1200 7 ''k'' ''s'' ([], []))))) 7 = [''k'' \<mapsto> ''s'']"
proof -
  have "AddMapping mem_pipe 1200 7 ''k'' ''s'' ([], []) = (None, snd (AddMapping mem_pipe 1200 7 ''k'' ''s'' ([], [])))"
    by (simp add: AddMapping_def mem_pipe_def Let_def)
  then show ?thesis
    using mapping_refines [OF mem.redis_db_axioms, of 1200 7 "''k''" "''s''" "([], [])"]
    by (simp add: add_route_def routes_of_def mem_view_def mem_hash_def)
qed

text \<open>
  C38 (the rooms of a server). After a successful \<open>AddServerOnline\<close>, a \<open>ServerOnline\<close> of a Redis that answers
  returns without an error, and every room has exactly the count that was stored if the renewal has some room
  in the part of that room. A part without a room in the renewal is not written: its rooms keep the counts
  of an earlier renewal, although the time of the result is that of the new one.
\<close>

theorem server_online_parts:
  assumes up: "redis_up pipe view" and "0 < sint expire" and d: "distinct (map fst (ol_RoomCount online))"
    and "\<forall>rooms\<in>snd ` set (room_shards cityhash (ol_RoomCount online)). json_keeps enc dec (online\<lparr>ol_RoomCount := rooms\<rparr>)"
    and s: "fst (view r) (keyServerOnline server) = None"
    and ok: "parts_ok cityhash (stored dec (snd (view r) (keyServerOnline server)))"
    and "AddServerOnline pipe expire enc cityhash server online r = (None, r1)"
  shows "\<exists>ol r2. ServerOnline pipe dec server r1 = ((ol, None), r2) \<and>
    (\<forall>room. map_of (ol_RoomCount ol) room =
      (if \<exists>x\<in>fst ` set (ol_RoomCount online). room_hash cityhash x = room_hash cityhash room
       then map_of (ol_RoomCount online) room
       else part_rooms (stored dec (snd (view r) (keyServerOnline server)) (room_hash cityhash room)) room)) \<and>
    (ol_RoomCount online \<noteq> [] \<longrightarrow> ol_Updated online \<le> ol_Updated ol)"
proof -
  let ?p = "stored dec (snd (view r1) (keyServerOnline server))" and ?z = "\<lparr>ol_Server = [], ol_RoomCount = [], ol_Updated = 0\<rparr>"
  let ?ol = "fold (\<lambda>i. merge_part (?p i)) [0..<64] ?z"
  have db: "redis_db pipe view" using up by (simp add: redis_up_def)
  note after = stored_after_add [OF db assms(2-4,7)]
  have "fst (view r1) (keyServerOnline server) = None" using after s by simp
  from redis_up.read_shards_up [OF up this, of dec "[0..<64]" ?z]
  obtain r2 where r2: "ServerOnline pipe dec server r1 = ((?ol, None), r2)" by (auto simp: ServerOnline_def)
  have pok: "parts_ok cityhash ?p"
    unfolding parts_ok_def
  proof (intro allI impI)
    fix i ol assume "?p i = Some ol"
    then show "distinct (map fst (ol_RoomCount ol)) \<and> (\<forall>room\<in>fst ` set (ol_RoomCount ol). room_hash cityhash room = i)"
      using after [of i] ok
      by (auto simp: parts_ok_def fun_eq_iff simp flip: map_of_eq_None_iff split: if_splits)
  qed
  have rooms: "map_of (ol_RoomCount ?ol) room =
      (if \<exists>x\<in>fst ` set (ol_RoomCount online). room_hash cityhash x = room_hash cityhash room
       then map_of (ol_RoomCount online) room
       else part_rooms (stored dec (snd (view r) (keyServerOnline server)) (room_hash cityhash room)) room)" for room
    using after [of "room_hash cityhash room"]
    by (simp only: merge_all_rooms [OF pok]) (auto simp: part_rooms_def split: if_splits)
  have "ol_Updated online \<le> ol_Updated ?ol" if ne: "ol_RoomCount online \<noteq> []"
  proof -
    obtain room where room: "room \<in> fst ` set (ol_RoomCount online)" using ne by (cases "ol_RoomCount online") auto
    then have "\<exists>ol. ?p (room_hash cityhash room) = Some ol \<and> ol_Updated ol = ol_Updated online"
      using after [of "room_hash cityhash room"] by (auto split: if_splits)
    then show ?thesis using merge_parts_updated [of ?z ?p "[0..<64]"] room_hash_less [of cityhash room] by fastforce
  qed
  then show ?thesis using r2 rooms by blast
qed

theorem server_online_parts_witness:
  "\<exists>ol r2. ServerOnline mem_pipe
     (\<lambda>b. Inr (if b = ''new'' then \<lparr>ol_Server = ''s'', ol_RoomCount = [(''b'', 1)], ol_Updated = 900\<rparr>
              else \<lparr>ol_Server = ''s'', ol_RoomCount = [(''a'', 5)], ol_Updated = 100\<rparr>)) ''s''
     (snd (AddServerOnline mem_pipe 1200 (\<lambda>ol. ''new'') (\<lambda>b n. ucast (hd b)) ''s''
        \<lparr>ol_Server = ''s'', ol_RoomCount = [(''b'', 1)], ol_Updated = 900\<rparr>
        ([], [(keyServerOnline ''s'', [(FormatInt 33, ''old'')])]))) = ((ol, None), r2) \<and>
   map_of (ol_RoomCount ol) ''a'' = Some 5 \<and> map_of (ol_RoomCount ol) ''b'' = Some 1 \<and> 900 \<le> ol_Updated ol"
proof -
  let ?dec = "\<lambda>b. Inr (if b = ''new'' then \<lparr>ol_Server = ''s'', ol_RoomCount = [(''b'', 1)], ol_Updated = 900\<rparr>
              else \<lparr>ol_Server = ''s'', ol_RoomCount = [(''a'', 5)], ol_Updated = 100\<rparr>) :: error + Online"
  let ?ch = "\<lambda>b (n :: 32 word). ucast (hd b :: byte) :: 32 word" and ?r = "([], [(keyServerOnline ''s'', [(FormatInt 33, ''old'')])]) :: mem_db"
  let ?ol = "\<lparr>ol_Server = ''s'', ol_RoomCount = [(''b'', 1)], ol_Updated = 900\<rparr>"
  have h: "room_hash ?ch ''a'' = 33" "room_hash ?ch ''b'' = 34"
    by (simp_all add: room_hash_def go_bytes_def of_char_def)
  have sh: "room_shards ?ch (ol_RoomCount ?ol) = [(34, [(''b'', 1)])]" by (simp add: room_shards_def h)
  have st: "stored ?dec (snd (mem_view ?r) (keyServerOnline ''s'')) i =
     (if i = 33 then Some \<lparr>ol_Server = ''s'', ol_RoomCount = [(''a'', 5)], ol_Updated = 100\<rparr> else None)" for i
    by (simp add: stored_def mem_view_def mem_hash_def)
  have add: "AddServerOnline mem_pipe 1200 (\<lambda>ol. ''new'') ?ch ''s'' ?ol ?r = (None, snd (AddServerOnline mem_pipe 1200 (\<lambda>ol. ''new'') ?ch ''s'' ?ol ?r))"
    by (simp only: AddServerOnline_def sh) (simp add: addServerOnline_def mem_pipe_def)
  have e: "0 < sint (1200 :: int32)" "distinct (map fst (ol_RoomCount ?ol))" by simp_all
  have j: "\<forall>rooms\<in>snd ` set (room_shards ?ch (ol_RoomCount ?ol)). json_keeps (\<lambda>ol. ''new'') ?dec (?ol\<lparr>ol_RoomCount := rooms\<rparr>)"
    by (simp only: sh) (simp add: json_keeps_def)
  have z: "fst (mem_view ?r) (keyServerOnline ''s'') = None" by (simp add: mem_view_def)
  have pk: "parts_ok ?ch (stored ?dec (snd (mem_view ?r) (keyServerOnline ''s'')))" by (simp add: parts_ok_def st h)
  from server_online_parts [OF mem.redis_up_axioms e j z pk add]
  show ?thesis
  proof (elim exE conjE, intro exI conjI)
    fix ol r2
    assume m: "\<forall>room. map_of (ol_RoomCount ol) room =
      (if \<exists>x\<in>fst ` set (ol_RoomCount ?ol). room_hash ?ch x = room_hash ?ch room
       then map_of (ol_RoomCount ?ol) room
       else part_rooms (stored ?dec (snd (mem_view ?r) (keyServerOnline ''s'')) (room_hash ?ch room)) room)"
    show "map_of (ol_RoomCount ol) ''a'' = Some 5" by (simp only: m [rule_format] st) (simp add: h part_rooms_def)
    show "map_of (ol_RoomCount ol) ''b'' = Some 1" by (simp only: m [rule_format] st) (simp add: h part_rooms_def)
  qed simp_all
qed

end
