(* ===== verification/Logic_Balancer.thy ===== *)
theory Logic_Balancer
  imports Complex_Main Go_Strings "HOL-Library.AList" "HOL-Library.Multiset"
begin

text \<open>
  \<open>internal/logic/balancer.go\<close>: the load balancer of the logic process chooses comets for a client by weight.
  Floating point arithmetic is the parameter \<open>fl\<close>, a record of the operations the code uses; \<open>sort.Slice\<close>,
  which leaves the order of equal elements open, is the parameter \<open>srt\<close> with what it promises as a
  hypothesis. The nodes are one object each and live in one map only, so they are values here; the map is an
  association list, whose order stands for the arbitrary order of an iteration.
\<close>

section \<open>Nodes\<close>

record weightedNode =
  wn_region :: string
  wn_hostname :: string
  wn_addrs :: "string list"
  wn_fixedWeight :: int64
  wn_currentWeight :: int64
  wn_currentConns :: int64
  wn_updated :: int64

definition chosen :: "weightedNode \<Rightarrow> weightedNode" where
  "chosen w = w\<lparr>wn_currentConns := wn_currentConns w + 1\<rparr>"

definition wn_reset :: "weightedNode \<Rightarrow> weightedNode" where
  "wn_reset w = w\<lparr>wn_currentWeight := 0\<rparr>"

record 'f float64 =
  f_int :: "int64 \<Rightarrow> 'f"
  f_trunc :: "'f \<Rightarrow> int64"
  f_add :: "'f \<Rightarrow> 'f \<Rightarrow> 'f"
  f_sub :: "'f \<Rightarrow> 'f \<Rightarrow> 'f"
  f_mul :: "'f \<Rightarrow> 'f \<Rightarrow> 'f"
  f_div :: "'f \<Rightarrow> 'f \<Rightarrow> 'f"
  f_floor :: "'f \<Rightarrow> 'f"
  f_ceil :: "'f \<Rightarrow> 'f"
  f_half :: 'f
  f_neg_half :: 'f
  f_less :: "'f \<Rightarrow> 'f \<Rightarrow> bool"
  f_le :: "'f \<Rightarrow> 'f \<Rightarrow> bool"

definition minWeight :: int64 where "minWeight = 1"
definition maxWeight :: int64 where "maxWeight = 1048576"

definition calculateWeight :: "'f float64 \<Rightarrow> int64 \<Rightarrow> int64 \<Rightarrow> 'f \<Rightarrow> weightedNode \<Rightarrow> weightedNode" where
  "calculateWeight fl totalWeight totalConns gainWeight w =
     (let fixedWeight = f_mul fl (f_int fl (wn_fixedWeight w)) gainWeight;
          totalWeight1 = totalWeight + (f_trunc fl fixedWeight - wn_fixedWeight w)
      in if 0 <s totalConns
         then
           let weightRatio = f_div fl fixedWeight (f_int fl totalWeight1);
               connRatio = f_mul fl (f_div fl (f_int fl (wn_currentConns w)) (f_int fl totalConns)) (f_half fl);
               diff = f_sub fl weightRatio connRatio;
               multiple = f_mul fl diff (f_int fl totalConns);
               floor = f_floor fl multiple;
               cw = (if f_le fl (f_neg_half fl) (f_sub fl floor multiple)
                     then f_trunc fl (f_add fl fixedWeight floor)
                     else f_trunc fl (f_add fl fixedWeight (f_ceil fl multiple)))
           in w\<lparr>wn_currentWeight :=
                (if f_less fl diff (f_int fl 0)
                 then (if cw <s minWeight then minWeight else cw)
                 else (if maxWeight <s cw then maxWeight else cw))\<rparr>
         else wn_reset w)"

section \<open>The balancer\<close>

record LoadBalancer =
  lb_totalConns :: int64
  lb_totalWeight :: int64
  lb_nodes :: "(string \<times> weightedNode) list"

definition NewLoadBalancer :: LoadBalancer where
  "NewLoadBalancer = \<lparr>lb_totalConns = 0, lb_totalWeight = 0, lb_nodes = []\<rparr>"

definition LoadBalancer_Size :: "LoadBalancer \<Rightarrow> nat" where
  "LoadBalancer_Size lb = length (lb_nodes lb)"

type_synonym slice_sort = "(weightedNode \<Rightarrow> int) \<Rightarrow> weightedNode list \<Rightarrow> weightedNode list"

text \<open>\<open>sort.Slice\<close> with a descending key: some permutation in that order.\<close>

definition slice_sorts :: "(('a \<Rightarrow> int) \<Rightarrow> 'a list \<Rightarrow> 'a list) \<Rightarrow> bool" where
  "slice_sorts srt \<longleftrightarrow> (\<forall>f xs. mset (srt f xs) = mset xs \<and> sorted_wrt (\<lambda>a b. f b \<le> f a) (srt f xs))"

definition node_gain :: "'f float64 \<Rightarrow> string \<Rightarrow> 'f \<Rightarrow> weightedNode \<Rightarrow> 'f" where
  "node_gain fl region regionWeight n =
     (if wn_region n = region then f_mul fl (f_int fl 1) regionWeight else f_int fl 1)"

text \<open>Every node gets its weight; the first of the sorted ones, which the map has too, is charged with the connection.\<close>

definition weigh :: "'f float64 \<Rightarrow> string \<Rightarrow> 'f \<Rightarrow> LoadBalancer \<Rightarrow> (string \<times> weightedNode) list" where
  "weigh fl region regionWeight lb =
     map (\<lambda>(k, n). (k, calculateWeight fl (lb_totalWeight lb) (lb_totalConns lb) (node_gain fl region regionWeight n) n)) (lb_nodes lb)"

definition charge :: "string \<Rightarrow> (string \<times> weightedNode) list \<Rightarrow> (string \<times> weightedNode) list" where
  "charge h ns = map (\<lambda>(k, m). (k, if wn_hostname m = h then chosen m else m)) ns"

definition weightedNodes ::
    "'f float64 \<Rightarrow> slice_sort \<Rightarrow> string \<Rightarrow> 'f \<Rightarrow> LoadBalancer \<Rightarrow> weightedNode list \<times> LoadBalancer" where
  "weightedNodes fl srt region regionWeight lb =
     (let ns = weigh fl region regionWeight lb
      in case srt (\<lambda>n. sint (wn_currentWeight n)) (map snd ns) of
           [] \<Rightarrow> ([], lb\<lparr>lb_nodes := ns\<rparr>)
         | n # rest \<Rightarrow>
             (chosen n # rest,
              lb\<lparr>lb_nodes := charge (wn_hostname n) ns, lb_totalConns := lb_totalConns lb + 1\<rparr>))"

definition maxNodes :: nat where "maxNodes = 5"

definition NodeAddrs ::
    "'f float64 \<Rightarrow> slice_sort \<Rightarrow> string \<Rightarrow> string \<Rightarrow> 'f \<Rightarrow> LoadBalancer \<Rightarrow> (string list \<times> string list) \<times> LoadBalancer" where
  "NodeAddrs fl srt region domain regionWeight lb =
     (let (nodes, lb') = weightedNodes fl srt region regionWeight lb; best = take maxNodes nodes
      in ((map (\<lambda>n. wn_hostname n @ domain) best, concat (map wn_addrs best)), lb'))"

section \<open>Update\<close>

record naming_Instance =
  ni_Region :: string
  ni_Hostname :: string
  ni_Metadata :: "(string \<times> string) list option"
  ni_LastTs :: int64

definition MetaWeight :: string where "MetaWeight = ''weight''"
definition MetaOffline :: string where "MetaOffline = ''offline''"
definition MetaAddrs :: string where "MetaAddrs = ''addrs''"
definition MetaIPCount :: string where "MetaIPCount = ''ip_count''"
definition MetaConnCount :: string where "MetaConnCount = ''conn_count''"

text \<open>A missing entry, also of a nil map, is the empty string.\<close>

definition meta :: "naming_Instance \<Rightarrow> string \<Rightarrow> string" where
  "meta ins k = (case ni_Metadata ins of None \<Rightarrow> [] | Some m \<Rightarrow> (case map_of m k of None \<Rightarrow> [] | Some v \<Rightarrow> v))"

definition put_node :: "string \<Rightarrow> weightedNode \<Rightarrow> LoadBalancer \<Rightarrow> LoadBalancer" where
  "put_node h n acc =
     \<lparr>lb_totalConns = lb_totalConns acc + wn_currentConns n, lb_totalWeight = lb_totalWeight acc + wn_fixedWeight n,
      lb_nodes = AList.update h n (lb_nodes acc)\<rparr>"

definition update_one :: "(string \<times> weightedNode) list \<Rightarrow> naming_Instance \<Rightarrow> LoadBalancer \<Rightarrow> LoadBalancer" where
  "update_one olds ins acc =
     (let fresh = (case ParseInt (meta ins MetaWeight) 32 of
              Inl e \<Rightarrow> acc
            | Inr weight \<Rightarrow>
                (case ParseInt (meta ins MetaConnCount) 32 of
                   Inl e \<Rightarrow> acc
                 | Inr conns \<Rightarrow>
                     put_node (ni_Hostname ins) \<lparr>wn_region = ni_Region ins, wn_hostname = ni_Hostname ins, wn_addrs = strings_Split (meta ins MetaAddrs) '','',
                          wn_fixedWeight = of_int weight, wn_currentWeight = 0, wn_currentConns = of_int conns, wn_updated = ni_LastTs ins\<rparr> acc))
      in case map_of olds (ni_Hostname ins) of
           Some old \<Rightarrow> if wn_updated old = ni_LastTs ins then put_node (ni_Hostname ins) old acc else fresh
         | None \<Rightarrow> fresh)"

text \<open>
  The update is refused when the instances are less than half of the nodes. The quotient of the two lengths
  in single precision is below one half exactly when the division is, for lengths below \<open>2^24\<close>; a division by
  zero gives infinity.
\<close>

definition LoadBalancer_Update :: "naming_Instance list \<Rightarrow> LoadBalancer \<Rightarrow> LoadBalancer" where
  "LoadBalancer_Update ins lb =
     (if ins = [] \<or> 2 * length ins < length (lb_nodes lb) then lb
      else fold (update_one (lb_nodes lb)) ins \<lparr>lb_totalConns = 0, lb_totalWeight = 0, lb_nodes = []\<rparr>)"

section \<open>The totals\<close>

definition hostnames :: "(string \<times> weightedNode) list \<Rightarrow> string list" where
  "hostnames ns = map (wn_hostname \<circ> snd) ns"

definition lb_ok :: "LoadBalancer \<Rightarrow> bool" where
  "lb_ok lb \<longleftrightarrow> distinct (map fst (lb_nodes lb)) \<and> hostnames (lb_nodes lb) = map fst (lb_nodes lb) \<and>
     lb_totalConns lb = sum_list (map (wn_currentConns \<circ> snd) (lb_nodes lb)) \<and>
     lb_totalWeight lb = sum_list (map (wn_fixedWeight \<circ> snd) (lb_nodes lb))"

inductive lb_step :: "'f float64 \<Rightarrow> slice_sort \<Rightarrow> LoadBalancer \<Rightarrow> LoadBalancer \<Rightarrow> bool"
  for fl :: "'f float64" and srt :: slice_sort where
  addrs: "NodeAddrs fl srt region domain regionWeight lb = (res, lb') \<Longrightarrow> lb_step fl srt lb lb'"
| update: "distinct (map ni_Hostname ins) \<Longrightarrow> lb_step fl srt lb (LoadBalancer_Update ins lb)"

lemma calculateWeight_keeps [simp]:
  "wn_hostname (calculateWeight fl tw tc g n) = wn_hostname n" "wn_fixedWeight (calculateWeight fl tw tc g n) = wn_fixedWeight n"
  "wn_currentConns (calculateWeight fl tw tc g n) = wn_currentConns n" "wn_addrs (calculateWeight fl tw tc g n) = wn_addrs n"
  by (simp_all add: calculateWeight_def wn_reset_def Let_def)

lemma chosen_keeps [simp]:
  "wn_hostname (chosen n) = wn_hostname n" "wn_fixedWeight (chosen n) = wn_fixedWeight n" "wn_addrs (chosen n) = wn_addrs n"
  "wn_currentConns (chosen n) = wn_currentConns n + 1" "wn_currentWeight (chosen n) = wn_currentWeight n"
  by (simp_all add: chosen_def)

lemma weigh_keeps [simp]:
  "map fst (weigh fl region rw lb) = map fst (lb_nodes lb)"
  "map (wn_currentConns \<circ> snd) (weigh fl region rw lb) = map (wn_currentConns \<circ> snd) (lb_nodes lb)"
  "map (wn_fixedWeight \<circ> snd) (weigh fl region rw lb) = map (wn_fixedWeight \<circ> snd) (lb_nodes lb)"
  "hostnames (weigh fl region rw lb) = hostnames (lb_nodes lb)"
  by (auto simp: weigh_def hostnames_def)

lemma charge_keeps [simp]:
  "map fst (charge h ns) = map fst ns"
  "map (wn_fixedWeight \<circ> snd) (charge h ns) = map (wn_fixedWeight \<circ> snd) ns"
  "hostnames (charge h ns) = hostnames ns"
  by (auto simp: charge_def hostnames_def)

lemma charge_Cons [simp]: "charge h ((k, m) # ns) = (k, if wn_hostname m = h then chosen m else m) # charge h ns"
  by (simp add: charge_def)

text \<open>Exactly one node of the map has the hostname of the chosen one.\<close>

lemma charge_other: "h \<notin> fst ` set ns \<Longrightarrow> hostnames ns = map fst ns \<Longrightarrow> charge h ns = ns"
  by (induction ns) (auto simp: charge_def hostnames_def)

lemma charge_conns:
  "distinct (map fst ns) \<Longrightarrow> hostnames ns = map fst ns \<Longrightarrow> h \<in> fst ` set ns \<Longrightarrow>
   sum_list (map (wn_currentConns \<circ> snd) (charge h ns)) = sum_list (map (wn_currentConns \<circ> snd) ns) + 1"
proof (induction ns)
  case (Cons x ns)
  obtain k m where x: "x = (k, m)" by (cases x)
  show ?case
  proof (cases "k = h")
    case True
    then have "charge h ns = ns" using Cons.prems x by (intro charge_other) (auto simp: hostnames_def)
    then show ?thesis using True Cons.prems x by (simp add: hostnames_def)
  next
    case False
    then have "sum_list (map (wn_currentConns \<circ> snd) (charge h ns)) = sum_list (map (wn_currentConns \<circ> snd) ns) + 1"
      using Cons.prems x by (intro Cons.IH) (auto simp: hostnames_def)
    then show ?thesis using False Cons.prems(2) x by (simp add: hostnames_def comp_def)
  qed
qed simp

lemma sorted_first:
  assumes "slice_sorts srt" and "srt f xs = n # rest"
  shows "n \<in> set xs" "\<forall>m\<in>set xs. f m \<le> f n"
proof -
  have m: "mset (n # rest) = mset xs" "sorted_wrt (\<lambda>a b. f b \<le> f a) (n # rest)"
    using assms unfolding slice_sorts_def by (metis, metis)
  then have "set (n # rest) = set xs" by (metis set_mset_mset)
  then show "n \<in> set xs" "\<forall>m\<in>set xs. f m \<le> f n" using m(2) by auto
qed

lemma weightedNodes_ok:
  assumes "lb_ok lb" and "slice_sorts srt" and w: "weightedNodes fl srt region rw lb = (nodes, lb')"
  shows "lb_ok lb'"
proof (cases "srt (\<lambda>n. sint (wn_currentWeight n)) (map snd (weigh fl region rw lb))")
  case Nil
  then show ?thesis using w assms(1) by (auto simp: weightedNodes_def Let_def lb_ok_def)
next
  case (Cons n rest)
  let ?ns = "weigh fl region rw lb"
  have lb': "lb' = lb\<lparr>lb_nodes := charge (wn_hostname n) ?ns, lb_totalConns := lb_totalConns lb + 1\<rparr>"
    using w Cons by (simp add: weightedNodes_def Let_def)
  have h: "hostnames ?ns = map fst ?ns" using assms(1) by (simp add: lb_ok_def)
  have "n \<in> snd ` set ?ns" using sorted_first(1) [OF assms(2) Cons] by simp
  then have "wn_hostname n \<in> set (hostnames ?ns)" by (auto simp: hostnames_def)
  then have n: "wn_hostname n \<in> fst ` set ?ns" using h by (metis list.set_map)
  have "distinct (map fst ?ns)" using assms(1) by (simp add: lb_ok_def)
  from charge_conns [OF this h n] show ?thesis using assms(1) by (simp add: lb' lb_ok_def)
qed

lemma NodeAddrs_ok:
  "lb_ok lb \<Longrightarrow> slice_sorts srt \<Longrightarrow> NodeAddrs fl srt region domain rw lb = (res, lb') \<Longrightarrow> lb_ok lb'"
  using weightedNodes_ok by (auto simp: NodeAddrs_def Let_def split: prod.splits)

text \<open>Update builds the sums of what it enters, once per hostname.\<close>

lemma AList_update_new: "k \<notin> fst ` set xs \<Longrightarrow> AList.update k v xs = xs @ [(k, v)]"
  by (induction xs) auto

lemma update_one_ok:
  assumes "lb_ok acc" and "ni_Hostname ins \<notin> fst ` set (lb_nodes acc)" and "\<forall>k n. map_of olds k = Some n \<longrightarrow> wn_hostname n = k"
  shows "lb_ok (update_one olds ins acc) \<and> fst ` set (lb_nodes (update_one olds ins acc)) \<subseteq> insert (ni_Hostname ins) (fst ` set (lb_nodes acc))"
proof -
  have "lb_ok (put_node (ni_Hostname ins) n acc) \<and> fst ` set (lb_nodes (put_node (ni_Hostname ins) n acc)) = insert (ni_Hostname ins) (fst ` set (lb_nodes acc))"
    if "wn_hostname n = ni_Hostname ins" for n
    using assms(1,2) that by (auto simp: lb_ok_def put_node_def hostnames_def AList_update_new)
  then show ?thesis using assms(1,3)
    by (auto simp: update_one_def Let_def split: option.splits sum.splits)
qed

lemma update_fold_ok:
  "lb_ok acc \<Longrightarrow> distinct (map ni_Hostname ins) \<Longrightarrow> \<forall>i\<in>set ins. ni_Hostname i \<notin> fst ` set (lb_nodes acc) \<Longrightarrow>
   \<forall>k n. map_of olds k = Some n \<longrightarrow> wn_hostname n = k \<Longrightarrow> lb_ok (fold (update_one olds) ins acc)"
proof (induction ins arbitrary: acc)
  case (Cons i ins)
  have "ni_Hostname i \<notin> fst ` set (lb_nodes acc)" using Cons.prems(3) by simp
  note one = update_one_ok [OF Cons.prems(1) this Cons.prems(4)]
  have "\<forall>x\<in>set ins. ni_Hostname x \<notin> fst ` set (lb_nodes (update_one olds i acc))"
  proof
    fix x assume "x \<in> set ins"
    then have "ni_Hostname x \<noteq> ni_Hostname i \<and> ni_Hostname x \<notin> fst ` set (lb_nodes acc)"
      using Cons.prems(2,3) by (simp add: image_iff) metis
    then show "ni_Hostname x \<notin> fst ` set (lb_nodes (update_one olds i acc))" using one by blast
  qed
  then show ?case using Cons.IH [of "update_one olds i acc"] one Cons.prems(2,4) by simp
qed simp

lemma lb_ok_hostname: "lb_ok lb \<Longrightarrow> map_of (lb_nodes lb) k = Some n \<Longrightarrow> wn_hostname n = k"
proof -
  assume "lb_ok lb" "map_of (lb_nodes lb) k = Some n"
  then have "(k, n) \<in> set (lb_nodes lb)" "hostnames (lb_nodes lb) = map fst (lb_nodes lb)"
    by (auto simp: lb_ok_def dest: map_of_SomeD)
  then show ?thesis by (auto simp: hostnames_def)
qed

lemma Update_ok: "lb_ok lb \<Longrightarrow> distinct (map ni_Hostname ins) \<Longrightarrow> lb_ok (LoadBalancer_Update ins lb)"
  using update_fold_ok [of "\<lparr>lb_totalConns = 0, lb_totalWeight = 0, lb_nodes = []\<rparr>" ins "lb_nodes lb"] lb_ok_hostname [of lb]
  by (auto simp: LoadBalancer_Update_def) (auto simp: lb_ok_def hostnames_def)

lemma lb_steps_ok: "(lb_step fl srt)\<^sup>*\<^sup>* lb lb' \<Longrightarrow> slice_sorts srt \<Longrightarrow> lb_ok lb \<Longrightarrow> lb_ok lb'"
proof (induction rule: rtranclp_induct)
  case (step lb1 lb2)
  then have "lb_ok lb1" by simp
  with step(2,4) show ?case by (auto elim!: lb_step.cases intro: NodeAddrs_ok Update_ok)
qed

section \<open>Properties\<close>

text \<open>
  C13 (the totals of the balancer). In every history of the balancer, the instances of each update having
  different hostnames, the total of the connections and the total of the weights are the sums over the nodes, in
  64-bit arithmetic, and every node is entered once, under its own hostname. So charging a connection to a
  node is never counted twice and never forgotten by an update.
\<close>

theorem balancer_totals:
  assumes "(lb_step fl srt)\<^sup>*\<^sup>* NewLoadBalancer lb" and "slice_sorts srt"
  shows "lb_totalConns lb = sum_list (map (wn_currentConns \<circ> snd) (lb_nodes lb)) \<and>
    lb_totalWeight lb = sum_list (map (wn_fixedWeight \<circ> snd) (lb_nodes lb)) \<and>
    distinct (map fst (lb_nodes lb)) \<and> (\<forall>k n. map_of (lb_nodes lb) k = Some n \<longrightarrow> wn_hostname n = k)"
proof -
  have "lb_ok NewLoadBalancer" by (simp add: lb_ok_def NewLoadBalancer_def hostnames_def)
  then have "lb_ok lb" by (rule lb_steps_ok [OF assms])
  then show ?thesis using lb_ok_hostname by (auto simp: lb_ok_def)
qed

text \<open>Exact arithmetic, and a sort, for the examples.\<close>

definition rat_fl :: "rat float64" where
  "rat_fl = \<lparr>f_int = \<lambda>i. of_int (sint i), f_trunc = \<lambda>x. of_int (if x < 0 then \<lceil>x\<rceil> else \<lfloor>x\<rfloor>), f_add = (+), f_sub = (-), f_mul = (*), f_div = (/),
     f_floor = \<lambda>x. of_int \<lfloor>x\<rfloor>, f_ceil = \<lambda>x. of_int \<lceil>x\<rceil>, f_half = 1 / 2, f_neg_half = - 1 / 2, f_less = (<), f_le = (\<le>)\<rparr>"

definition desc_sort :: "('a \<Rightarrow> int) \<Rightarrow> 'a list \<Rightarrow> 'a list" where
  "desc_sort f xs = sort_key (\<lambda>x. - f x) xs"

lemma desc_sort_sorts: "slice_sorts desc_sort"
  unfolding slice_sorts_def desc_sort_def
proof (intro allI conjI)
  fix f :: "'a \<Rightarrow> int" and xs
  have "sorted (map (\<lambda>x. - f x) (sort_key (\<lambda>x. - f x) xs))" by simp
  then show "sorted_wrt (\<lambda>a b. f b \<le> f a) (sort_key (\<lambda>x. - f x) xs)" by (simp add: sorted_map)
qed simp

definition demo_ins :: "string \<Rightarrow> int \<Rightarrow> int \<Rightarrow> naming_Instance" where
  "demo_ins h w c = \<lparr>ni_Region = ''sh'', ni_Hostname = h,
     ni_Metadata = Some [(MetaWeight, FormatInt w), (MetaConnCount, FormatInt c), (MetaIPCount, FormatInt c), (MetaOffline, ''false''), (MetaAddrs, ''10.0.0.1'')],
     ni_LastTs = 1\<rparr>"

lemmas meta_defs = MetaWeight_def MetaConnCount_def MetaIPCount_def MetaOffline_def MetaAddrs_def

lemma demo_meta: "0 \<le> w \<Longrightarrow> w < 2 ^ 31 \<Longrightarrow> ParseInt (meta (demo_ins h w c) MetaWeight) 32 = Inr w"
  "0 \<le> c \<Longrightarrow> c < 2 ^ 31 \<Longrightarrow> ParseInt (meta (demo_ins h w c) MetaConnCount) 32 = Inr c"
  "0 \<le> c \<Longrightarrow> c < 2 ^ 31 \<Longrightarrow> ParseInt (meta (demo_ins h w c) MetaIPCount) 32 = Inr c"
  "meta (demo_ins h w c) MetaOffline = ''false''" "ni_Hostname (demo_ins h w c) = h" "ni_Metadata (demo_ins h w c) \<noteq> None"
  by (simp_all add: meta_def demo_ins_def meta_defs parse_format)

definition demo_lb :: LoadBalancer where
  "demo_lb = LoadBalancer_Update [demo_ins ''a'' 10 4, demo_ins ''b'' 20 3] NewLoadBalancer"

lemma demo_lb_values: "LoadBalancer_Size demo_lb = 2" "lb_totalConns demo_lb = 7"
  by (simp_all add: demo_lb_def LoadBalancer_Update_def NewLoadBalancer_def update_one_def put_node_def demo_meta LoadBalancer_Size_def)

lemma demo_lb_reachable: "(lb_step rat_fl desc_sort)\<^sup>*\<^sup>* NewLoadBalancer demo_lb"
  by (auto simp: demo_lb_def demo_meta intro!: r_into_rtranclp lb_step.update)

theorem balancer_totals_witness:
  "lb_totalConns demo_lb = 7 \<and> sum_list (map (wn_currentConns \<circ> snd) (lb_nodes demo_lb)) = 7"
  using balancer_totals [OF demo_lb_reachable desc_sort_sorts] by (simp add: demo_lb_values)

text \<open>
  The nodes that a client gets. In every history \<open>NodeAddrs\<close> answers with the nodes of greatest weight: five
  of them, or all if there are fewer, none of the others outweighing one of them, with the domain added to
  each hostname and their addresses in the same order; one connection is added to the totals if there is a node.
\<close>

theorem node_addrs_best:
  assumes "(lb_step fl srt)\<^sup>*\<^sup>* NewLoadBalancer lb" and srt: "slice_sorts srt"
    and a: "NodeAddrs fl srt region domain regionWeight lb = ((domains, addrs), lb')"
  shows "\<exists>best rest. mset (best @ rest) = mset (map snd (weigh fl region regionWeight lb)) \<and> length best = min 5 (LoadBalancer_Size lb) \<and>
    (\<forall>b\<in>set best. \<forall>r\<in>set rest. sint (wn_currentWeight r) \<le> sint (wn_currentWeight b)) \<and>
    domains = map (\<lambda>n. wn_hostname n @ domain) best \<and> addrs = concat (map wn_addrs best) \<and>
    lb_totalConns lb' = lb_totalConns lb + (if LoadBalancer_Size lb = 0 then 0 else 1)"
proof -
  define ns where "ns = srt (\<lambda>n. sint (wn_currentWeight n)) (map snd (weigh fl region regionWeight lb))"
  have ns: "mset ns = mset (map snd (weigh fl region regionWeight lb))" "sorted_wrt (\<lambda>a b. sint (wn_currentWeight b) \<le> sint (wn_currentWeight a)) ns"
    using srt unfolding ns_def slice_sorts_def by (blast, fast)
  have len: "length ns = LoadBalancer_Size lb"
    using mset_eq_length [OF ns(1)] by (simp add: LoadBalancer_Size_def weigh_def)
  have split: "\<forall>b\<in>set (take 5 ns). \<forall>r\<in>set (drop 5 ns). sint (wn_currentWeight r) \<le> sint (wn_currentWeight b)"
    using ns(2) by (metis append_take_drop_id sorted_wrt_append)
  have out: "domains = map (\<lambda>n. wn_hostname n @ domain) (take 5 ns)" "addrs = concat (map wn_addrs (take 5 ns))"
    "lb_totalConns lb' = lb_totalConns lb + (if ns = [] then 0 else 1)"
    using a by (auto simp: NodeAddrs_def weightedNodes_def maxNodes_def Let_def simp flip: ns_def split: list.splits)
  show ?thesis
  proof (intro exI conjI)
    show "mset (take 5 ns @ drop 5 ns) = mset (map snd (weigh fl region regionWeight lb))" using ns(1) by simp
    show "length (take 5 ns) = min 5 (LoadBalancer_Size lb)" using len by simp
    show "lb_totalConns lb' = lb_totalConns lb + (if LoadBalancer_Size lb = 0 then 0 else 1)"
      using out(3) len by (metis length_0_conv)
  qed (use split out in auto)
qed

theorem node_addrs_best_witness:
  "\<exists>best :: weightedNode list. length best = 2 \<and> fst (fst (NodeAddrs rat_fl desc_sort ''sh'' ''.x'' 2 demo_lb)) = map (\<lambda>n. wn_hostname n @ ''.x'') best \<and>
   lb_totalConns (snd (NodeAddrs rat_fl desc_sort ''sh'' ''.x'' 2 demo_lb)) = 8"
proof -
  obtain domains addrs lb' where a: "NodeAddrs rat_fl desc_sort ''sh'' ''.x'' 2 demo_lb = ((domains, addrs), lb')" by (metis surj_pair)
  show ?thesis using node_addrs_best [OF demo_lb_reachable desc_sort_sorts a] by (simp add: a demo_lb_values) blast
qed

end
