(* ===== verification/Job_Room.thy ===== *)
theory Job_Room
  imports Protocol
begin

text \<open>
  \<open>internal/job/room.go\<close>: the room of the job process, which merges the messages for a room into batches.
  \<open>Push\<close> puts a message into a bounded queue; the goroutine \<open>pushproc\<close> takes messages out, appends their
  frames to a buffer and hands the buffer on when it is large or old enough; a timer puts a mark into the
  same queue. Times are nanoseconds, the readings of the clock are arguments.
\<close>

section \<open>State\<close>

text \<open>An element of the channel: a message, or \<open>roomReadyProto\<close>, which is compared by its address. The channel is never closed.\<close>

datatype room_item = RoomMsg Proto | RoomReady

record RoomConf =
  rc_Batch :: nat
  rc_Signal :: int
  rc_Idle :: int

text \<open>
  The room with the local variables of its goroutine: the number of messages merged, the time of the first,
  the buffer, the time at which the timer fires, and whether the goroutine still runs.
\<close>

record JobRoom =
  jr_id :: string
  jr_proto :: "room_item list"
  jr_cap :: nat
  jr_n :: nat
  jr_last :: int
  jr_buf :: BytesWriter
  jr_td :: "int option"
  jr_alive :: bool

definition JobRoom_New :: "RoomConf \<Rightarrow> string \<Rightarrow> int \<Rightarrow> JobRoom" where
  "JobRoom_New c rid now =
     \<lparr>jr_id = rid, jr_proto = [], jr_cap = 2 * rc_Batch c, jr_n = 0, jr_last = 0,
      jr_buf = NewWriterSize (nat MaxBodySize), jr_td = Some (now + rc_Signal c), jr_alive = True\<rparr>"

text \<open>A send that does not wait; also the timer sends so.\<close>

definition room_offer :: "room_item \<Rightarrow> JobRoom \<Rightarrow> bool \<times> JobRoom" where
  "room_offer x r = (if length (jr_proto r) < jr_cap r then (True, r\<lparr>jr_proto := jr_proto r @ [x]\<rparr>) else (False, r))"

definition JobRoom_Push :: "int32 \<Rightarrow> byte list option \<Rightarrow> JobRoom \<Rightarrow> error option \<times> JobRoom" where
  "JobRoom_Push op msg r =
     (let (ok, r') = room_offer (RoomMsg \<lparr>Ver = 1, Op = op, Seq = 0, Body = msg\<rparr>) r
      in (if ok then None else Some (Job ErrRoomFull), r'))"

definition room_fire :: "JobRoom \<Rightarrow> JobRoom" where
  "room_fire r = (snd (room_offer RoomReady r))\<lparr>jr_td := None\<rparr>"

section \<open>The goroutine\<close>

text \<open>What a turn of \<open>pushproc\<close> does to the outside: nothing, \<open>broadcastRoomRawBytes\<close>, or the exit with \<open>delRoom\<close>.\<close>

datatype room_out = RWait | RBatch "byte list" | RExit

definition room_flush :: "RoomConf \<Rightarrow> int \<Rightarrow> JobRoom \<Rightarrow> room_out \<times> JobRoom" where
  "room_flush c now r =
     (RBatch (BytesWriter_Buffer (jr_buf r)),
      r\<lparr>jr_buf := NewWriterSize (BytesWriter_Size (jr_buf r)), jr_n := 0,
        jr_td := Some (now + (if rc_Idle c \<noteq> 0 then rc_Idle c else 60 * 1000000000))\<rparr>)"

text \<open>One turn of the loop; it waits (\<open>None\<close>) at an empty channel.\<close>

definition pushproc_turn :: "RoomConf \<Rightarrow> int \<Rightarrow> JobRoom \<Rightarrow> (room_out \<times> JobRoom) run" where
  "pushproc_turn c now r =
     (case jr_proto r of
        [] \<Rightarrow> None
      | RoomMsg p # q \<Rightarrow>
          rbind (Some (Proto_WriteTo p (jr_buf r))) (\<lambda>buf.
            let r1 = r\<lparr>jr_proto := q, jr_buf := buf, jr_n := jr_n r + 1\<rparr> in
            if jr_n r1 = 1 then Some (Ret (RWait, r1\<lparr>jr_last := now, jr_td := Some (now + rc_Signal c)\<rparr>))
            else if jr_n r1 < rc_Batch c \<and> rc_Signal c > now - jr_last r1 then Some (Ret (RWait, r1))
            else Some (Ret (room_flush c now r1)))
      | RoomReady # q \<Rightarrow>
          let r1 = r\<lparr>jr_proto := q\<rparr> in
          if jr_n r1 = 0 then Some (Ret (RExit, r1\<lparr>jr_td := None, jr_alive := False\<rparr>))
          else Some (Ret (room_flush c now r1)))"

section \<open>Histories of a room\<close>

text \<open>
  A state of the system: the messages that \<open>Push\<close> accepted, the batches handed on, and the room. \<open>Push\<close> may
  come at any time, also after the goroutine has ended, from a caller that still has the room.
\<close>

type_synonym room_hist = "Proto list \<times> byte list list \<times> JobRoom"

inductive room_step :: "RoomConf \<Rightarrow> room_hist \<Rightarrow> room_hist \<Rightarrow> bool" for c :: RoomConf where
  push: "JobRoom_Push op msg r = (None, r') \<Longrightarrow> room_step c (acc, out, r) (acc @ [\<lparr>Ver = 1, Op = op, Seq = 0, Body = msg\<rparr>], out, r')"
| push_full: "JobRoom_Push op msg r = (Some e, r') \<Longrightarrow> room_step c (acc, out, r) (acc, out, r')"
| fire: "jr_td r = Some t \<Longrightarrow> t \<le> now \<Longrightarrow> room_step c (acc, out, r) (acc, out, room_fire r)"
| wait: "jr_alive r \<Longrightarrow> pushproc_turn c now r = Some (Ret (RWait, r')) \<Longrightarrow> room_step c (acc, out, r) (acc, out, r')"
| batch: "jr_alive r \<Longrightarrow> pushproc_turn c now r = Some (Ret (RBatch b, r')) \<Longrightarrow> room_step c (acc, out, r) (acc, out @ [b], r')"
| exit: "jr_alive r \<Longrightarrow> pushproc_turn c now r = Some (Ret (RExit, r')) \<Longrightarrow> room_step c (acc, out, r) (acc, out, r')"

inductive_cases room_stepE: "room_step c (acc, out, r) h"

definition room_msgs :: "JobRoom \<Rightarrow> Proto list" where
  "room_msgs r = concat (map (\<lambda>x. case x of RoomMsg p \<Rightarrow> [p] | RoomReady \<Rightarrow> []) (jr_proto r))"

abbreviation frames :: "Proto list \<Rightarrow> byte list" where "frames ps \<equiv> concat (map proto_frame ps)"

text \<open>
  The accepted messages are, in order, those of the batches, those in the buffer and those in the queue. No
  batch is empty, and none has more than \<open>Batch\<close> messages, or two.
\<close>

definition room_inv :: "RoomConf \<Rightarrow> room_hist \<Rightarrow> bool" where
  "room_inv c h \<longleftrightarrow> (case h of (acc, out, r) \<Rightarrow>
     \<exists>pss b. acc = concat pss @ b @ room_msgs r \<and> out = map frames pss \<and> BytesWriter_Buffer (jr_buf r) = frames b \<and>
       jr_n r = length b \<and> BytesWriter_ok (jr_buf r) \<and> (jr_n r = 0 \<or> jr_n r < max 2 (rc_Batch c)) \<and>
       (\<forall>ps\<in>set pss. ps \<noteq> [] \<and> length ps \<le> max 2 (rc_Batch c)) \<and> length (jr_proto r) \<le> jr_cap r \<and> (\<not> jr_alive r \<longrightarrow> b = []))"

lemma room_msgs_simps [simp]:
  "room_msgs (r\<lparr>jr_buf := x\<rparr>) = room_msgs r" "room_msgs (r\<lparr>jr_n := y\<rparr>) = room_msgs r" "room_msgs (r\<lparr>jr_last := z\<rparr>) = room_msgs r"
  "room_msgs (r\<lparr>jr_td := t\<rparr>) = room_msgs r" "room_msgs (r\<lparr>jr_alive := a\<rparr>) = room_msgs r"
  "room_msgs (r\<lparr>jr_proto := RoomMsg p # q\<rparr>) = p # room_msgs (r\<lparr>jr_proto := q\<rparr>)"
  "room_msgs (r\<lparr>jr_proto := RoomReady # q\<rparr>) = room_msgs (r\<lparr>jr_proto := q\<rparr>)"
  by (simp_all add: room_msgs_def)

lemma JobRoom_New_inv: "room_inv c ([], [], JobRoom_New c rid now)"
  by (auto simp: room_inv_def JobRoom_New_def room_msgs_def intro!: exI [of _ "[]"])

text \<open>The operations of others leave the goroutine's variables alone.\<close>

lemma room_offer_inv:
  assumes "room_inv c (acc, out, r)" and "room_offer x r = (ok, r')"
  shows "room_inv c (acc @ (if ok then case x of RoomMsg p \<Rightarrow> [p] | RoomReady \<Rightarrow> [] else []), out, r')"
proof -
  obtain pss b where h: "acc = concat pss @ b @ room_msgs r" "out = map frames pss" "BytesWriter_Buffer (jr_buf r) = frames b"
    "jr_n r = length b" "BytesWriter_ok (jr_buf r)" "jr_n r = 0 \<or> jr_n r < max 2 (rc_Batch c)"
    "\<forall>ps\<in>set pss. ps \<noteq> [] \<and> length ps \<le> max 2 (rc_Batch c)" "length (jr_proto r) \<le> jr_cap r" "\<not> jr_alive r \<longrightarrow> b = []"
    using assms(1) unfolding room_inv_def prod.case by (elim exE conjE) (rule that)
  show ?thesis
  proof (cases "length (jr_proto r) < jr_cap r")
    case True
    then have r': "r' = r\<lparr>jr_proto := jr_proto r @ [x]\<rparr>" "ok" using assms(2) by (auto simp: room_offer_def)
    have "room_msgs r' = room_msgs r @ (case x of RoomMsg p \<Rightarrow> [p] | RoomReady \<Rightarrow> [])" by (simp add: r' room_msgs_def)
    then show ?thesis unfolding room_inv_def prod.case using h True r' by (intro exI [of _ pss] exI [of _ b]) (auto split: room_item.split)
  next
    case False
    then show ?thesis using assms by (auto simp: room_offer_def)
  qed
qed

lemma room_inv_td: "room_inv c (acc, out, r\<lparr>jr_td := t\<rparr>) = room_inv c (acc, out, r)"
  by (simp add: room_inv_def)

text \<open>A turn takes one element off the queue.\<close>

lemma turn_msg:
  assumes inv: "room_inv c (acc, out, r)" and alive: "jr_alive r" and q: "jr_proto r = RoomMsg p # q"
  shows "\<exists>r1. BytesWriter_ok (jr_buf r1) \<and> jr_proto r1 = q \<and> pushproc_turn c now r =
      Some (Ret (if jr_n r = 0 then (RWait, r1\<lparr>jr_last := now, jr_td := Some (now + rc_Signal c)\<rparr>)
        else if jr_n r + 1 < rc_Batch c \<and> rc_Signal c > now - jr_last r then (RWait, r1) else room_flush c now r1)) \<and>
      r1 = r\<lparr>jr_proto := q, jr_buf := jr_buf r1, jr_n := jr_n r + 1\<rparr> \<and> BytesWriter_Buffer (jr_buf r1) = BytesWriter_Buffer (jr_buf r) @ proto_frame p"
proof -
  have "BytesWriter_ok (jr_buf r)" using inv by (auto simp: room_inv_def)
  then obtain buf where "Proto_WriteTo p (jr_buf r) = Ret buf" "BytesWriter_ok buf" "BytesWriter_Buffer buf = BytesWriter_Buffer (jr_buf r) @ proto_frame p"
    using WriteTo_frame by blast
  then show ?thesis using q by (intro exI [of _ "r\<lparr>jr_proto := q, jr_buf := buf, jr_n := jr_n r + 1\<rparr>"]) (simp add: pushproc_turn_def Let_def)
qed

lemma flush_inv:
  assumes "acc = concat pss @ b @ room_msgs r" and "out = map frames pss" and "BytesWriter_Buffer (jr_buf r) = frames b"
    and "b \<noteq> []" and "length b \<le> max 2 (rc_Batch c)" and "\<forall>ps\<in>set pss. ps \<noteq> [] \<and> length ps \<le> max 2 (rc_Batch c)"
    and "length (jr_proto r) \<le> jr_cap r" and "room_flush c now r = (x, r')"
  shows "x = RBatch (frames b) \<and> room_inv c (acc, out @ [frames b], r')"
proof -
  have r': "x = RBatch (frames b)" "room_msgs r' = room_msgs r" "BytesWriter_Buffer (jr_buf r') = []" "jr_n r' = 0" "BytesWriter_ok (jr_buf r')"
    "jr_proto r' = jr_proto r" "jr_cap r' = jr_cap r"
    using assms(3,8) by (auto simp: room_flush_def)
  then show ?thesis unfolding room_inv_def prod.case using assms
    by (intro conjI exI [of _ "pss @ [b]"] exI [of _ "[]"]) auto
qed

lemma turn_inv:
  assumes inv: "room_inv c (acc, out, r)" and alive: "jr_alive r" and run: "pushproc_turn c now r = Some (Ret (x, r'))"
  shows "room_inv c (acc, out @ (case x of RBatch b \<Rightarrow> [b] | _ \<Rightarrow> []), r')"
proof -
  obtain pss b where h: "acc = concat pss @ b @ room_msgs r" "out = map frames pss" "BytesWriter_Buffer (jr_buf r) = frames b"
    "jr_n r = length b" "BytesWriter_ok (jr_buf r)" "jr_n r = 0 \<or> jr_n r < max 2 (rc_Batch c)"
    "\<forall>ps\<in>set pss. ps \<noteq> [] \<and> length ps \<le> max 2 (rc_Batch c)" "length (jr_proto r) \<le> jr_cap r"
    using inv unfolding room_inv_def prod.case by (elim exE conjE) (rule that)
  obtain y q where q: "jr_proto r = y # q" using run by (cases "jr_proto r") (auto simp: pushproc_turn_def)
  show ?thesis
  proof (cases y)
    case (RoomMsg p)
    obtain r1 where r1: "BytesWriter_ok (jr_buf r1)" "jr_proto r1 = q" "r1 = r\<lparr>jr_proto := q, jr_buf := jr_buf r1, jr_n := jr_n r + 1\<rparr>"
      "BytesWriter_Buffer (jr_buf r1) = frames (b @ [p])"
      and t: "(x, r') = (if jr_n r = 0 then (RWait, r1\<lparr>jr_last := now, jr_td := Some (now + rc_Signal c)\<rparr>)
        else if jr_n r + 1 < rc_Batch c \<and> rc_Signal c > now - jr_last r then (RWait, r1) else room_flush c now r1)"
      using turn_msg [OF inv alive q [unfolded RoomMsg], of now] run h(3) by auto
    have m: "acc = concat pss @ (b @ [p]) @ room_msgs r1"
      using h(1) q RoomMsg by (subst r1(3)) (simp add: room_msgs_def)
    have f1: "jr_n r1 = length (b @ [p])" "length (jr_proto r1) \<le> jr_cap r1" "jr_alive r1" using h(4,8) q alive by (subst r1(3), simp)+
    consider (first) "jr_n r = 0" "x = RWait" "r' = r1\<lparr>jr_last := now, jr_td := Some (now + rc_Signal c)\<rparr>"
      | (more) "jr_n r \<noteq> 0" "jr_n r + 1 < rc_Batch c" "x = RWait" "r' = r1"
      | (flush) "jr_n r \<noteq> 0" "room_flush c now r1 = (x, r')" using t by (auto split: if_splits)
    then show ?thesis
    proof cases
      case first
      then show ?thesis unfolding room_inv_def prod.case using h r1 m f1
        by (intro exI [of _ pss] exI [of _ "b @ [p]"]) simp
    next
      case more
      then show ?thesis unfolding room_inv_def prod.case using h r1 m f1
        by (intro exI [of _ pss] exI [of _ "b @ [p]"]) simp
    next
      case flush
      have "length (b @ [p]) \<le> max 2 (rc_Batch c)" using flush(1) h(4,6) by auto
      from flush_inv [OF m h(2) r1(4) _ this h(7) f1(2) flush(2)] show ?thesis by auto
    qed
  next
    case RoomReady
    let ?r = "r\<lparr>jr_proto := q\<rparr>"
    have m: "acc = concat pss @ b @ room_msgs ?r" using h(1) q RoomReady by (simp add: room_msgs_def)
    show ?thesis
    proof (cases "jr_n r = 0")
      case True
      then have "x = RExit" "r' = ?r\<lparr>jr_td := None, jr_alive := False\<rparr>" using run q RoomReady by (auto simp: pushproc_turn_def Let_def)
      then show ?thesis unfolding room_inv_def prod.case using h m True q
        by (intro exI [of _ pss] exI [of _ b]) simp
    next
      case False
      then have "room_flush c now ?r = (x, r')" using run q RoomReady by (auto simp: pushproc_turn_def Let_def)
      moreover have "b \<noteq> []" "length b \<le> max 2 (rc_Batch c)" using False h(4,6) by auto
      ultimately have "x = RBatch (frames b) \<and> room_inv c (acc, out @ [frames b], r')"
        using flush_inv [OF m h(2) _ _ _ h(7), of now x r'] h(3,8) q by simp
      then show ?thesis by auto
    qed
  qed
qed

lemma room_step_inv:
  assumes "room_step c h h'" and "room_inv c h"
  shows "room_inv c h'"
  using assms
proof (induction rule: room_step.induct)
  case (push op msg r r' acc out)
  then have "room_offer (RoomMsg \<lparr>Ver = 1, Op = op, Seq = 0, Body = msg\<rparr>) r = (True, r')"
    by (auto simp: JobRoom_Push_def Let_def split: prod.splits if_splits)
  from room_offer_inv [OF push(2) this] show ?case by simp
next
  case (push_full op msg r e r' acc out)
  then have "room_offer (RoomMsg \<lparr>Ver = 1, Op = op, Seq = 0, Body = msg\<rparr>) r = (False, r')"
    by (auto simp: JobRoom_Push_def Let_def split: prod.splits if_splits)
  from room_offer_inv [OF push_full(2) this] show ?case by simp
next
  case (fire r t now acc out)
  obtain ok r' where o: "room_offer RoomReady r = (ok, r')" by fastforce
  then show ?case using room_offer_inv [OF fire(3) o] by (simp add: room_fire_def room_inv_td split: if_splits)
next
  case (wait r now r' acc out)
  then show ?case using turn_inv by fastforce
next
  case (batch r now b r' acc out)
  then show ?case using turn_inv by fastforce
next
  case (exit r now r' acc out)
  then show ?case using turn_inv by fastforce
qed

lemma room_steps_inv: "(room_step c)\<^sup>*\<^sup>* h h' \<Longrightarrow> room_inv c h \<Longrightarrow> room_inv c h'"
  by (induction rule: rtranclp_induct) (auto intro: room_step_inv)

section \<open>Properties\<close>

text \<open>
  C4 (batches of a room). In every history of a room the messages that \<open>Push\<close> accepted are, in order and each
  once, those of the batches handed on, those merged into the buffer and those in the queue; a batch is the
  concatenation of the frames of its messages, never empty and never longer than \<open>Batch\<close> messages, or two.
\<close>

theorem room_batches:
  assumes "(room_step c)\<^sup>*\<^sup>* ([], [], JobRoom_New c rid now) (acc, out, r)"
  shows "\<exists>pss b. acc = concat pss @ b @ room_msgs r \<and> out = map frames pss \<and> BytesWriter_Buffer (jr_buf r) = frames b \<and>
    jr_n r = length b \<and> (\<forall>ps\<in>set pss. ps \<noteq> [] \<and> length ps \<le> max 2 (rc_Batch c))"
  using room_steps_inv [OF assms JobRoom_New_inv] unfolding room_inv_def prod.case
  by (elim exE conjE) (intro exI conjI; assumption)

definition demo_room_conf :: RoomConf where "demo_room_conf = \<lparr>rc_Batch = 2, rc_Signal = 100, rc_Idle = 1000\<rparr>"

lemma demo_pushes:
  "\<exists>r. (room_step demo_room_conf)\<^sup>*\<^sup>* ([], [], JobRoom_New demo_room_conf ''live'' 0)
     ([\<lparr>Ver = 1, Op = 4, Seq = 0, Body = Some [7]\<rparr>], [], r) \<and> jr_proto r = [RoomMsg \<lparr>Ver = 1, Op = 4, Seq = 0, Body = Some [7]\<rparr>] \<and> jr_n r = 0 \<and> jr_alive r"
proof -
  let ?r = "JobRoom_New demo_room_conf ''live'' 0"
  let ?r' = "?r\<lparr>jr_proto := [RoomMsg \<lparr>Ver = 1, Op = 4, Seq = 0, Body = Some [7]\<rparr>]\<rparr>"
  have "JobRoom_Push 4 (Some [7]) ?r = (None, ?r')"
    by (simp add: JobRoom_Push_def room_offer_def JobRoom_New_def demo_room_conf_def)
  from room_step.push [OF this, of demo_room_conf "[]" "[]"] show ?thesis
    by (intro exI [of _ ?r'] conjI r_into_rtranclp) (simp_all add: JobRoom_New_def)
qed

theorem room_batches_witness:
  "\<exists>pss b r. (room_step demo_room_conf)\<^sup>*\<^sup>* ([], [], JobRoom_New demo_room_conf ''live'' 0) ([\<lparr>Ver = 1, Op = 4, Seq = 0, Body = Some [7]\<rparr>], [], r) \<and>
     [\<lparr>Ver = 1, Op = 4, Seq = 0, Body = Some [7]\<rparr>] = concat pss @ b @ room_msgs r \<and> map frames pss = []"
proof -
  obtain r where r: "(room_step demo_room_conf)\<^sup>*\<^sup>* ([], [], JobRoom_New demo_room_conf ''live'' 0) ([\<lparr>Ver = 1, Op = 4, Seq = 0, Body = Some [7]\<rparr>], [], r)"
    using demo_pushes by blast
  from room_batches [OF r] show ?thesis using r by metis
qed

text \<open>
  C34 (from the room to the client). When a comet writes a batch as a raw message to a client and the flush
  succeeds, the client reads back, message by message, a piece of the sequence that was pushed to the room,
  and nothing else.
\<close>

theorem batch_end_to_end:
  assumes "(room_step c)\<^sup>*\<^sup>* ([], [], JobRoom_New c rid now) (acc, out, r)" and "body \<in> set out"
    and "\<forall>p\<in>set acc. length (body_bytes p) \<le> 4096" and "io_writer wrt sent" and "live_reader read future sok"
    and "Writer_ok w" and "Writer_out sent w = []"
    and "WriteTCP_all wrt [\<lparr>Ver = 1, Op = OpRaw, Seq = 0, Body = Some body\<rparr>] w = Some (Ret (None, w'))"
    and "4096 \<le> N" and "Reader_at future sok N (sent (wr_wr w')) rr"
  shows "\<exists>ps pre post rr'. ps \<noteq> [] \<and> acc = pre @ ps @ post \<and> ReadTCP_many read (length ps) rr = Ret (None, map proto_canon ps, rr') \<and>
    Reader_at future sok N [] rr'"
proof -
  obtain pss b where h: "acc = concat pss @ b @ room_msgs r" "out = map frames pss" "\<forall>ps\<in>set pss. ps \<noteq> []"
    using room_steps_inv [OF assms(1) JobRoom_New_inv] unfolding room_inv_def prod.case by (elim exE conjE) (rule that; blast)
  then obtain ps where ps: "ps \<in> set pss" "body = frames ps" using assms(2) by auto
  then obtain xs ys where "pss = xs @ ps # ys" by (meson split_list)
  then have acc: "acc = concat xs @ ps @ (concat ys @ b @ room_msgs r)" using h(1) by simp
  let ?p = "\<lparr>Ver = 1, Op = OpRaw, Seq = 0, Body = Some body\<rparr>"
  obtain k e w1 where wr: "Proto_WriteTCP wrt ?p w = Some (Ret (e, w1))" "Writer_took sent k body w w1" "e = None \<longrightarrow> k = length body"
    using io_writer.WriteTCP_spec [OF assms(4,6), of ?p] by (auto simp: body_bytes_def)
  have e: "e = None" and fl: "Writer_flush wrt w1 = (None, w')" using assms(8) wr(1) by (cases e; auto simp: Writer_Flush_def)+
  have "sent (wr_wr w') = body @ []"
    using io_writer.flush_spec(4) [OF assms(4) Writer_took_ok [OF wr(2)] fl] wr(2,3) e assms(7) by (simp add: Writer_took_def)
  then obtain rr' where "ReadTCP_many read (length ps) rr = Ret (None, map proto_canon ps, rr')" "Reader_at future sok N [] rr'"
    using ReadTCP_many_frames [OF assms(5,9), of ps "[]" rr] assms(3,10) acc ps(2) by auto
  then show ?thesis using acc h(3) ps(1) by blast
qed

text \<open>A history with one batch of two messages.\<close>

definition demo_msg :: "byte \<Rightarrow> Proto" where "demo_msg x = \<lparr>Ver = 1, Op = 4, Seq = 0, Body = Some [x]\<rparr>"

lemma demo_batch:
  "\<exists>r. (room_step demo_room_conf)\<^sup>*\<^sup>* ([], [], JobRoom_New demo_room_conf ''live'' 0) ([demo_msg 7, demo_msg 8], [frames [demo_msg 7, demo_msg 8]], r)"
proof -
  let ?c = demo_room_conf and ?r = "JobRoom_New demo_room_conf ''live'' 0"
  let ?r1 = "?r\<lparr>jr_proto := [RoomMsg (demo_msg 7)]\<rparr>" and ?r2 = "?r\<lparr>jr_proto := [RoomMsg (demo_msg 7), RoomMsg (demo_msg 8)]\<rparr>"
  have "JobRoom_Push 4 (Some [7]) ?r = (None, ?r1)" "JobRoom_Push 4 (Some [8]) ?r1 = (None, ?r2)"
    by (simp_all add: JobRoom_Push_def room_offer_def JobRoom_New_def demo_room_conf_def demo_msg_def)
  from room_step.push [OF this(1), of ?c "[]" "[]"] room_step.push [OF this(2), of ?c "[demo_msg 7]" "[]"]
  have 2: "(room_step ?c)\<^sup>*\<^sup>* ([], [], ?r) ([demo_msg 7, demo_msg 8], [], ?r2)"
    by (simp add: demo_msg_def [symmetric] converse_rtranclp_into_rtranclp)
  have inv2: "room_inv ?c ([demo_msg 7, demo_msg 8], [], ?r2)" by (rule room_steps_inv [OF 2 JobRoom_New_inv])
  have a2: "jr_alive ?r2" "jr_n ?r2 = 0" "jr_proto ?r2 = RoomMsg (demo_msg 7) # [RoomMsg (demo_msg 8)]" "BytesWriter_Buffer (jr_buf ?r2) = []"
    by (simp_all add: JobRoom_New_def)
  obtain r3 where t3: "pushproc_turn ?c 0 ?r2 = Some (Ret (RWait, r3))" and r3: "jr_proto r3 = [RoomMsg (demo_msg 8)]" "jr_alive r3" "jr_n r3 = 1"
    "BytesWriter_Buffer (jr_buf r3) = proto_frame (demo_msg 7)"
  proof -
    obtain r1 where r1: "jr_proto r1 = [RoomMsg (demo_msg 8)]" "pushproc_turn ?c 0 ?r2 = Some (Ret (RWait, r1\<lparr>jr_last := 0, jr_td := Some (0 + rc_Signal ?c)\<rparr>))"
      "r1 = ?r2\<lparr>jr_proto := [RoomMsg (demo_msg 8)], jr_buf := jr_buf r1, jr_n := jr_n ?r2 + 1\<rparr>" "BytesWriter_Buffer (jr_buf r1) = proto_frame (demo_msg 7)"
      using turn_msg [OF inv2 a2(1,3), of 0] a2(2,4) by auto
    have "jr_alive r1" "jr_n r1 = 1" using a2 by (subst r1(3), simp)+
    then show thesis using that [OF r1(2)] r1(1,4) by simp
  qed
  have 3: "(room_step ?c)\<^sup>*\<^sup>* ([], [], ?r) ([demo_msg 7, demo_msg 8], [], r3)" using room_step.wait [OF a2(1) t3] 2 by (rule rtranclp.rtrancl_into_rtrancl [rotated])
  have inv3: "room_inv ?c ([demo_msg 7, demo_msg 8], [], r3)" by (rule room_steps_inv [OF 3 JobRoom_New_inv])
  obtain r4 where "pushproc_turn ?c 0 r3 = Some (Ret (RBatch (frames [demo_msg 7, demo_msg 8]), r4))"
    using turn_msg [OF inv3 r3(2,1), of 0] r3(3,4) by (auto simp: demo_room_conf_def room_flush_def)
  from room_step.batch [OF r3(2) this, of "[demo_msg 7, demo_msg 8]" "[]"] 3 show ?thesis
    by (intro exI [of _ r4]) simp
qed

theorem batch_end_to_end_witness:
  "\<exists>w' ps rr'. WriteTCP_all conn_write [\<lparr>Ver = 1, Op = OpRaw, Seq = 0, Body = Some (frames [demo_msg 7, demo_msg 8])\<rparr>]
      \<lparr>wr_err = None, wr_buf = replicate 16 0, wr_n = 0, wr_wr = \<lparr>co_quota = 100, co_log = []\<rparr>\<rparr> = Some (Ret (None, w')) \<and> ps \<noteq> [] \<and>
    ReadTCP_many conn_read (length ps) (Reader_reset (replicate 4096 0) [] [co_log (wr_wr w')]) = Ret (None, map proto_canon ps, rr')"
proof -
  let ?p = "\<lparr>Ver = 1, Op = OpRaw, Seq = 0, Body = Some (frames [demo_msg 7, demo_msg 8])\<rparr>"
  let ?w = "\<lparr>wr_err = None, wr_buf = replicate 16 0, wr_n = 0, wr_wr = \<lparr>co_quota = 100, co_log = []\<rparr>\<rparr> :: conn_out Writer"
  obtain r where h: "(room_step demo_room_conf)\<^sup>*\<^sup>* ([], [], JobRoom_New demo_room_conf ''live'' 0)
      ([demo_msg 7, demo_msg 8], [frames [demo_msg 7, demo_msg 8]], r)" using demo_batch by blast
  have "(case WriteTCP_all conn_write [?p] ?w of Some (Ret (e, _)) \<Rightarrow> e = None | _ \<Rightarrow> False)" by code_simp
  then obtain w' where w': "WriteTCP_all conn_write [?p] ?w = Some (Ret (None, w'))" by (auto split: option.splits outcome.splits)
  have at: "Reader_at concat (\<lambda>_. True) 4096 (co_log (wr_wr w')) (Reader_reset (replicate 4096 0) [] [co_log (wr_wr w')])"
    by (simp add: Reader_at_def Reader_reset_def Reader_ok_def Reader_drained_def Reader_unread_def)
  show ?thesis
    using batch_end_to_end [OF h _ _ conn_out.io_writer_axioms conn.live_reader_axioms _ _ w' _ at] w'
    by (auto simp: Writer_ok_def Writer_out_def demo_msg_def body_bytes_def)
qed

text \<open>
  C35 (an accepted message can be lost). The mark of the timer waits in the same queue as the messages, and the
  goroutine ends at a mark when nothing is merged, whatever stands behind it: a message that \<open>Push\<close> accepts
  between the mark and the end of the goroutine is never handed on, whatever happens later to this room.
\<close>

theorem accepted_message_lost:
  assumes "0 < rc_Batch c"
  shows "\<exists>r. (room_step c)\<^sup>*\<^sup>* ([], [], JobRoom_New c rid now) ([\<lparr>Ver = 1, Op = op, Seq = 0, Body = msg\<rparr>], [], r) \<and>
    (\<forall>acc out r'. (room_step c)\<^sup>*\<^sup>* ([\<lparr>Ver = 1, Op = op, Seq = 0, Body = msg\<rparr>], [], r) (acc, out, r') \<longrightarrow> out = [])"
proof -
  let ?r = "JobRoom_New c rid now" and ?p = "\<lparr>Ver = 1, Op = op, Seq = 0, Body = msg\<rparr>"
  have 1: "room_step c ([], [], ?r) ([], [], room_fire ?r)" by (rule room_step.fire [of _ "now + rc_Signal c" "now + rc_Signal c"]) (simp_all add: JobRoom_New_def)
  define r2 where "r2 = ?r\<lparr>jr_proto := [RoomReady, RoomMsg ?p], jr_td := None\<rparr>"
  have "JobRoom_Push op msg (room_fire ?r) = (None, r2)"
    using assms by (simp add: JobRoom_Push_def room_offer_def room_fire_def JobRoom_New_def r2_def)
  from room_step.push [OF this, of c "[]" "[]"] have 2: "room_step c ([], [], room_fire ?r) ([?p], [], r2)" by simp
  define r3 where "r3 = r2\<lparr>jr_proto := [RoomMsg ?p], jr_td := None, jr_alive := False\<rparr>"
  have "pushproc_turn c 0 r2 = Some (Ret (RExit, r3))" by (simp add: pushproc_turn_def r2_def r3_def JobRoom_New_def)
  then have 3: "room_step c ([?p], [], r2) ([?p], [], r3)" by (rule room_step.exit [rotated]) (simp add: r2_def JobRoom_New_def)
  have dead: "\<not> jr_alive (snd (snd h)) \<and> fst (snd h) = []" if "(room_step c)\<^sup>*\<^sup>* ([?p], [], r3) h" for h
    using that
  proof (induction rule: rtranclp_induct)
    case (step h h')
    from step(2,3) show ?case
      by (cases rule: room_step.cases) (auto simp: JobRoom_Push_def room_offer_def room_fire_def Let_def split: if_splits)
  qed (simp add: r3_def)
  then have "out = []" if "(room_step c)\<^sup>*\<^sup>* ([?p], [], r3) (acc, out, r')" for acc out r' using that by fastforce
  then show ?thesis using 1 2 3 by (intro exI [of _ r3]) (meson converse_rtranclp_into_rtranclp rtranclp.rtrancl_refl)
qed

theorem accepted_message_lost_witness:
  "\<exists>r. (room_step demo_room_conf)\<^sup>*\<^sup>* ([], [], JobRoom_New demo_room_conf ''live'' 0) ([demo_msg 7], [], r) \<and>
    (\<forall>acc out r'. (room_step demo_room_conf)\<^sup>*\<^sup>* ([demo_msg 7], [], r) (acc, out, r') \<longrightarrow> out = [])"
  using accepted_message_lost [of demo_room_conf "''live''" 0 4 "Some [7]"] by (simp add: demo_room_conf_def demo_msg_def)

end
