(* ===== verification/Job.thy ===== *)
theory Job
  imports Job_Room Comet_Server "HOL-Library.AList"
begin

text \<open>
  \<open>internal/job\<close> (\<open>comet.go\<close>, \<open>push.go\<close>, \<open>job.go\<close>): the job process takes messages from the queue and hands
  them to the comets. Every comet has a client with several goroutines and their bounded channels. Go maps
  are association lists: the order of an iteration is the order of the list, which is arbitrary. Comets and
  rooms are in stores, since goroutines keep pointers to them after they have left the maps. A send to a
  full channel blocks (\<open>None\<close>). Parsing of addresses (\<open>net/url\<close>) and dialling are parameters.
\<close>

section \<open>The client of a comet\<close>

record PushMsgReq =
  pq_Keys :: "string list"
  pq_ProtoOp :: int32
  pq_Proto :: Proto

record BroadcastReq =
  bq_ProtoOp :: int32
  bq_Proto :: Proto
  bq_Speed :: int32

record CometClientConf =
  cc_RoutineChan :: nat
  cc_RoutineSize :: nat

record Comet =
  cm_serverID :: string
  cm_pushChan :: "PushMsgReq list list"
  cm_roomChan :: "BroadcastRoomReq list list"
  cm_broadcastChan :: "BroadcastReq list"
  cm_pushChanNum :: uint64
  cm_roomChanNum :: uint64
  cm_routineSize :: uint64
  cm_routineChan :: nat
  cm_cancelled :: bool

record Instance =
  in_Hostname :: string
  in_Addrs :: "string list"

text \<open>The last address with scheme \<open>grpc\<close>; \<open>parse\<close> gives the scheme and the host of an address.\<close>

definition grpc_addr :: "(string \<Rightarrow> (string \<times> string) option) \<Rightarrow> string list \<Rightarrow> string" where
  "grpc_addr parse addrs =
     fold (\<lambda>a acc. case parse a of Some (scheme, host) \<Rightarrow> if scheme = ''grpc'' then host else acc | None \<Rightarrow> acc) addrs []"

definition NewComet ::
    "(string \<Rightarrow> (string \<times> string) option) \<Rightarrow> (string \<Rightarrow> error option) \<Rightarrow> Instance \<Rightarrow> CometClientConf \<Rightarrow> error + Comet" where
  "NewComet parse dial ins c =
     (let addr = grpc_addr parse (in_Addrs ins) in
      if addr = [] then Inl (Errorf ''invalid grpc address:%v'')
      else case dial addr of
        Some e \<Rightarrow> Inl e
      | None \<Rightarrow>
          Inr \<lparr>cm_serverID = in_Hostname ins, cm_pushChan = replicate (cc_RoutineSize c) [], cm_roomChan = replicate (cc_RoutineSize c) [],
               cm_broadcastChan = [], cm_pushChanNum = 0, cm_roomChanNum = 0, cm_routineSize = of_nat (cc_RoutineSize c),
               cm_routineChan = cc_RoutineChan c, cm_cancelled = False\<rparr>)"

text \<open>A send on element \<open>idx\<close> of an array of channels.\<close>

definition send_at :: "nat \<Rightarrow> nat \<Rightarrow> 'a \<Rightarrow> 'a list list \<Rightarrow> 'a list list run" where
  "send_at cap idx x chans =
     (if idx < length chans
      then if length (chans ! idx) < cap then Some (Ret (chans[idx := chans ! idx @ [x]])) else None
      else Some (Panic IndexOutOfRange))"

text \<open>The counters are 64 bits wide and start over after the last value.\<close>

definition Comet_Push :: "PushMsgReq \<Rightarrow> Comet \<Rightarrow> Comet run" where
  "Comet_Push arg c =
     (if cm_routineSize c = 0 then Some (Panic DivideByZero)
      else let n = cm_pushChanNum c + 1 in
        rbind (send_at (cm_routineChan c) (unat (n mod cm_routineSize c)) arg (cm_pushChan c)) (\<lambda>chans.
          Some (Ret (c\<lparr>cm_pushChanNum := n, cm_pushChan := chans\<rparr>))))"

definition Comet_BroadcastRoom :: "BroadcastRoomReq \<Rightarrow> Comet \<Rightarrow> Comet run" where
  "Comet_BroadcastRoom arg c =
     (if cm_routineSize c = 0 then Some (Panic DivideByZero)
      else let n = cm_roomChanNum c + 1 in
        rbind (send_at (cm_routineChan c) (unat (n mod cm_routineSize c)) arg (cm_roomChan c)) (\<lambda>chans.
          Some (Ret (c\<lparr>cm_roomChanNum := n, cm_roomChan := chans\<rparr>))))"

text \<open>The channel for broadcasts has room for \<open>RoutineSize\<close> requests.\<close>

definition Comet_Broadcast :: "BroadcastReq \<Rightarrow> Comet \<Rightarrow> Comet run" where
  "Comet_Broadcast arg c =
     (if length (cm_broadcastChan c) < unat (cm_routineSize c)
      then Some (Ret (c\<lparr>cm_broadcastChan := cm_broadcastChan c @ [arg]\<rparr>)) else None)"

text \<open>
  One turn of goroutine \<open>i\<close> of \<open>process\<close>: \<open>select\<close> may choose any branch that is ready, here given by \<open>ch\<close>; \<open>None\<close>
  when that branch is not ready. The result is the call of the comet's interface; an error is only logged.
\<close>

datatype proc_choice = TakeBroadcast | TakeRoom | TakePush | TakeDone
datatype comet_call = CallBroadcast BroadcastReq | CallRoom BroadcastRoomReq | CallPush PushMsgReq | CallNone

definition process_turn :: "nat \<Rightarrow> proc_choice \<Rightarrow> Comet \<Rightarrow> (comet_call \<times> Comet) option" where
  "process_turn i ch c =
     (case ch of
        TakeBroadcast \<Rightarrow>
          (case cm_broadcastChan c of [] \<Rightarrow> None | x # q \<Rightarrow> Some (CallBroadcast x, c\<lparr>cm_broadcastChan := q\<rparr>))
      | TakeRoom \<Rightarrow>
          (case cm_roomChan c ! i of [] \<Rightarrow> None | x # q \<Rightarrow> Some (CallRoom x, c\<lparr>cm_roomChan := (cm_roomChan c)[i := q]\<rparr>))
      | TakePush \<Rightarrow>
          (case cm_pushChan c ! i of [] \<Rightarrow> None | x # q \<Rightarrow> Some (CallPush x, c\<lparr>cm_pushChan := (cm_pushChan c)[i := q]\<rparr>))
      | TakeDone \<Rightarrow> if cm_cancelled c then Some (CallNone, c) else None)"

text \<open>\<open>Close\<close> waits until nothing is queued, or five seconds (\<open>drained\<close> tells which), and cancels.\<close>

definition comet_queued :: "Comet \<Rightarrow> nat" where
  "comet_queued c =
     length (cm_broadcastChan c) + sum_list (map length (cm_pushChan c)) + sum_list (map length (cm_roomChan c))"

definition Comet_Close :: "bool \<Rightarrow> Comet \<Rightarrow> error option \<times> Comet" where
  "Comet_Close drained c =
     (if drained \<and> comet_queued c = 0 then None else Some (Errorf ''close comet(server:%s push:%d room:%d broadcast:%d) timeout''),
      c\<lparr>cm_cancelled := True\<rparr>)"

section \<open>The job\<close>

datatype push_type = PUSH | ROOM | BROADCAST | OtherType

record PushMsg =
  pm_Type :: push_type
  pm_Operation :: int32
  pm_Speed :: int32
  pm_Server :: string
  pm_Room :: string
  pm_Keys :: "string list"
  pm_Msg :: "byte list option"

record JobConf =
  jc_Room :: RoomConf
  jc_Comet :: CometClientConf
  jc_Zone :: string

record Job =
  jb_c :: JobConf
  jb_cometServers :: "(string \<times> addr) list"
  jb_comets :: "Comet list"
  jb_rooms :: "string \<rightharpoonup> addr"
  jb_roomstore :: "JobRoom list"

definition Job_New :: "JobConf \<Rightarrow> Job" where
  "Job_New c = \<lparr>jb_c = c, jb_cometServers = [], jb_comets = [], jb_rooms = Map.empty, jb_roomstore = []\<rparr>"

text \<open>A call on the comet at an address.\<close>

definition on_comet :: "addr \<Rightarrow> (Comet \<Rightarrow> Comet run) \<Rightarrow> Job \<Rightarrow> Job run" where
  "on_comet a f j = rbind (f (jb_comets j ! a)) (\<lambda>c. Some (Ret (j\<lparr>jb_comets := (jb_comets j)[a := c]\<rparr>)))"

fun on_comets :: "(string \<times> addr) list \<Rightarrow> (Comet \<Rightarrow> Comet run) \<Rightarrow> Job \<Rightarrow> Job run" where
  "on_comets [] f j = Some (Ret j)"
| "on_comets ((k, a) # cs) f j = rbind (on_comet a f j) (\<lambda>j'. on_comets cs f j')"

text \<open>The frame of a message as the body of a raw one.\<close>

definition raw_body :: "Proto \<Rightarrow> byte list outcome" where
  "raw_body p = obind (Proto_WriteTo p (NewWriterSize (length (body_bytes p) + 64))) (\<lambda>buf. Ret (BytesWriter_Buffer buf))"

definition pushMsgToKeys :: "PushMsg \<Rightarrow> Job \<Rightarrow> (error option \<times> Job) run" where
  "pushMsgToKeys msg j =
     (let p = \<lparr>Ver = 1, Op = OpRaw, Seq = 0, Body = pm_Msg msg\<rparr> in
      rbind (Some (raw_body p)) (\<lambda>body.
        let args = \<lparr>pq_Keys = pm_Keys msg, pq_ProtoOp = pm_Operation msg, pq_Proto = p\<lparr>Body := Some body\<rparr>\<rparr> in
        (case map_of (jb_cometServers j) (pm_Server msg) of
           Some a \<Rightarrow> rbind (on_comet a (Comet_Push args) j) (\<lambda>j'. Some (Ret (None, j')))
         | None \<Rightarrow> Some (Ret (None, j)))))"

text \<open>\<open>speed /= int32(len(comets))\<close>: signed division that truncates towards zero, and panics without comets.\<close>

definition go_div32 :: "int32 \<Rightarrow> int32 \<Rightarrow> int32 outcome" where
  "go_div32 a b = (if b = 0 then Panic DivideByZero else Ret (of_int (sgn (sint a) * sgn (sint b) * (abs (sint a) div abs (sint b)))))"

definition Job_broadcast :: "int32 \<Rightarrow> byte list option \<Rightarrow> int32 \<Rightarrow> Job \<Rightarrow> (error option \<times> Job) run" where
  "Job_broadcast operation body speed j =
     (let p = \<lparr>Ver = 1, Op = operation, Seq = 0, Body = body\<rparr> in
      rbind (Some (raw_body p)) (\<lambda>raw.
      rbind (Some (go_div32 speed (of_nat (length (jb_cometServers j))))) (\<lambda>speed1.
        let args = \<lparr>bq_ProtoOp = operation, bq_Proto = p\<lparr>Op := OpRaw, Body := Some raw\<rparr>, bq_Speed = speed1\<rparr> in
        rbind (on_comets (jb_cometServers j) (Comet_Broadcast args) j) (\<lambda>j'. Some (Ret (None, j'))))))"

definition broadcastRoomRawBytes :: "string \<Rightarrow> byte list \<Rightarrow> Job \<Rightarrow> Job run" where
  "broadcastRoomRawBytes roomID body j =
     on_comets (jb_cometServers j)
       (Comet_BroadcastRoom \<lparr>br_RoomID = roomID, br_Proto = \<lparr>Ver = 1, Op = OpRaw, Seq = 0, Body = Some body\<rparr>\<rparr>) j"

section \<open>Rooms of the job\<close>

definition delRoom :: "string \<Rightarrow> Job \<Rightarrow> Job" where
  "delRoom roomID j = j\<lparr>jb_rooms := (jb_rooms j)(roomID := None)\<rparr>"

definition getRoom :: "string \<Rightarrow> int \<Rightarrow> Job \<Rightarrow> addr \<times> Job" where
  "getRoom roomID now j =
     (case jb_rooms j roomID of
        Some a \<Rightarrow> (a, j)
      | None \<Rightarrow>
          (length (jb_roomstore j),
           j\<lparr>jb_rooms := (jb_rooms j)(roomID \<mapsto> length (jb_roomstore j)),
             jb_roomstore := jb_roomstore j @ [JobRoom_New (jc_Room (jb_c j)) roomID now]\<rparr>))"

definition on_room :: "addr \<Rightarrow> JobRoom \<Rightarrow> Job \<Rightarrow> Job" where
  "on_room a r j = j\<lparr>jb_roomstore := (jb_roomstore j)[a := r]\<rparr>"

text \<open>A turn of the goroutine of a room, with what it does to the job.\<close>

definition room_turn :: "addr \<Rightarrow> int \<Rightarrow> Job \<Rightarrow> Job run" where
  "room_turn a now j =
     rbind (pushproc_turn (jc_Room (jb_c j)) now (jb_roomstore j ! a)) (\<lambda>(out, r).
       let j1 = on_room a r j in
       (case out of
          RWait \<Rightarrow> Some (Ret j1)
        | RBatch body \<Rightarrow> broadcastRoomRawBytes (jr_id r) body j1
        | RExit \<Rightarrow> Some (Ret (delRoom (jr_id r) j1))))"

definition Job_push :: "int \<Rightarrow> PushMsg \<Rightarrow> Job \<Rightarrow> (error option \<times> Job) run" where
  "Job_push now msg j =
     (case pm_Type msg of
        PUSH \<Rightarrow> pushMsgToKeys msg j
      | ROOM \<Rightarrow>
          (let (a, j1) = getRoom (pm_Room msg) now j;
               (err, r) = JobRoom_Push (pm_Operation msg) (pm_Msg msg) (jb_roomstore j1 ! a)
           in Some (Ret (err, on_room a r j1)))
      | BROADCAST \<Rightarrow> Job_broadcast (pm_Operation msg) (pm_Msg msg) (pm_Speed msg) j
      | OtherType \<Rightarrow> Some (Ret (Some (Errorf ''no match push type: %s''), j)))"

section \<open>The queue\<close>

text \<open>
  A turn of \<open>ExecConsume\<close>. \<open>FetchErr stop\<close>: the fetch failed, and \<open>stop\<close> says whether the context of the process
  has ended. Otherwise the batch of messages, each with whether \<open>InProgress\<close> fails; \<open>unmarshal\<close> decodes one. The
  result says what was answered to the queue.
\<close>

datatype fetched = FetchErr bool | Fetched "(byte list \<times> bool) list"
datatype queue_answer = NoAnswer | Nak | Ack | StopConsume

definition ExecConsume_turn ::
    "(byte list \<Rightarrow> PushMsg option) \<Rightarrow> fetched \<Rightarrow> int \<Rightarrow> Job \<Rightarrow> (queue_answer \<times> Job) run" where
  "ExecConsume_turn unmarshal f now j =
     (case f of
        FetchErr stop \<Rightarrow> Some (Ret (if stop then StopConsume else NoAnswer, j))
      | Fetched [] \<Rightarrow> Some (Ret (NoAnswer, j))
      | Fetched ((data, failed) # _) \<Rightarrow>
          if failed then Some (Ret (NoAnswer, j))
          else (case unmarshal data of
                  None \<Rightarrow> Some (Ret (NoAnswer, j))
                | Some msg \<Rightarrow> rbind (Job_push now msg j) (\<lambda>(err, j'). Some (Ret (if err \<noteq> None then Nak else Ack, j')))))"

text \<open>A turn of \<open>Consume\<close> that takes a message; it was marked as read before, so nothing is answered.\<close>

definition Consume_turn :: "(byte list \<Rightarrow> PushMsg option) \<Rightarrow> byte list \<Rightarrow> int \<Rightarrow> Job \<Rightarrow> Job run" where
  "Consume_turn unmarshal data now j =
     (case unmarshal data of None \<Rightarrow> Some (Ret j) | Some msg \<Rightarrow> rbind (Job_push now msg j) (\<lambda>(err, j'). Some (Ret j')))"

section \<open>Comets come and go\<close>

fun new_comets ::
    "(string \<Rightarrow> (string \<times> string) option) \<Rightarrow> (string \<Rightarrow> error option) \<Rightarrow> Instance list \<Rightarrow> (string \<times> addr) list \<Rightarrow> Job \<Rightarrow>
     (error + (string \<times> addr) list) \<times> Job" where
  "new_comets parse dial [] acc j = (Inr acc, j)"
| "new_comets parse dial (ins # rest) acc j =
     (case map_of (jb_cometServers j) (in_Hostname ins) of
        Some old \<Rightarrow> new_comets parse dial rest (AList.update (in_Hostname ins) old acc) j
      | None \<Rightarrow>
          (case NewComet parse dial ins (jc_Comet (jb_c j)) of
             Inl e \<Rightarrow> (Inl e, j)
           | Inr c \<Rightarrow> new_comets parse dial rest (AList.update (in_Hostname ins) (length (jb_comets j)) acc)
                       (j\<lparr>jb_comets := jb_comets j @ [c]\<rparr>)))"

definition cancel_old :: "(string \<times> addr) list \<Rightarrow> Job \<Rightarrow> Job" where
  "cancel_old comets j =
     j\<lparr>jb_comets := fold (\<lambda>(k, a) cs. if map_of comets k = None then cs[a := (cs ! a)\<lparr>cm_cancelled := True\<rparr>] else cs)
         (jb_cometServers j) (jb_comets j)\<rparr>"

definition newAddress ::
    "(string \<Rightarrow> (string \<times> string) option) \<Rightarrow> (string \<Rightarrow> error option) \<Rightarrow> (string \<Rightarrow> Instance list) \<Rightarrow> Job \<Rightarrow> error option \<times> Job" where
  "newAddress parse dial insMap j =
     (let ins = insMap (jc_Zone (jb_c j)) in
      if ins = [] then (Some (Errorf ''watchComet instance is empty''), j)
      else case new_comets parse dial ins [] j of
        (Inl e, j1) \<Rightarrow> (Some e, j1)
      | (Inr comets, j1) \<Rightarrow> (None, (cancel_old comets j1)\<lparr>jb_cometServers := comets\<rparr>))"

section \<open>The invariant\<close>

definition comet_ok :: "Comet \<Rightarrow> bool" where
  "comet_ok c \<longleftrightarrow> 0 < unat (cm_routineSize c) \<and> length (cm_pushChan c) = unat (cm_routineSize c) \<and> length (cm_roomChan c) = unat (cm_routineSize c) \<and>
     (\<forall>q\<in>set (cm_pushChan c). length q \<le> cm_routineChan c) \<and> (\<forall>q\<in>set (cm_roomChan c). length q \<le> cm_routineChan c) \<and>
     length (cm_broadcastChan c) \<le> unat (cm_routineSize c)"

definition room_ok :: "JobRoom \<Rightarrow> bool" where
  "room_ok r \<longleftrightarrow> BytesWriter_ok (jr_buf r) \<and> length (jr_proto r) \<le> jr_cap r"

text \<open>
  The servers are different comets of the store, every channel within its capacity; the map of rooms has
  exactly the rooms whose goroutine runs, so at most one runs per room ID.
\<close>

definition servers_ok :: "(string \<rightharpoonup> addr) \<Rightarrow> nat \<Rightarrow> bool" where
  "servers_ok m n \<longleftrightarrow> (\<forall>k a. m k = Some a \<longrightarrow> a < n) \<and> (\<forall>k k' a. m k = Some a \<longrightarrow> m k' = Some a \<longrightarrow> k = k')"

definition job_ok :: "Job \<Rightarrow> bool" where
  "job_ok j \<longleftrightarrow> distinct (map fst (jb_cometServers j)) \<and> servers_ok (map_of (jb_cometServers j)) (length (jb_comets j)) \<and>
     (\<forall>c\<in>set (jb_comets j). comet_ok c) \<and>
     (\<forall>r\<in>set (jb_roomstore j). room_ok r) \<and>
     (\<forall>k a. jb_rooms j k = Some a \<longleftrightarrow> a < length (jb_roomstore j) \<and> jr_id (jb_roomstore j ! a) = k \<and> jr_alive (jb_roomstore j ! a)) \<and>
     0 < cc_RoutineSize (jc_Comet (jb_c j)) \<and> cc_RoutineSize (jc_Comet (jb_c j)) < 2 ^ 64"

inductive job_step :: "(string \<Rightarrow> (string \<times> string) option) \<Rightarrow> (string \<Rightarrow> error option) \<Rightarrow> Job \<Rightarrow> Job \<Rightarrow> bool"
  for parse :: "string \<Rightarrow> (string \<times> string) option" and dial :: "string \<Rightarrow> error option" where
  push: "Job_push now msg j = Some (Ret (e, j')) \<Longrightarrow> job_step parse dial j j'"
| turn: "a < length (jb_roomstore j) \<Longrightarrow> jr_alive (jb_roomstore j ! a) \<Longrightarrow> room_turn a now j = Some (Ret j') \<Longrightarrow> job_step parse dial j j'"
| fire: "a < length (jb_roomstore j) \<Longrightarrow> jr_td (jb_roomstore j ! a) = Some t \<Longrightarrow> t \<le> now \<Longrightarrow>
    job_step parse dial j (on_room a (room_fire (jb_roomstore j ! a)) j)"
| proc: "a < length (jb_comets j) \<Longrightarrow> i < length (cm_pushChan (jb_comets j ! a)) \<Longrightarrow> process_turn i ch (jb_comets j ! a) = Some (call, c) \<Longrightarrow>
    job_step parse dial j (j\<lparr>jb_comets := (jb_comets j)[a := c]\<rparr>)"
| address: "newAddress parse dial insMap j = (e, j') \<Longrightarrow> job_step parse dial j j'"

lemma set_update_ball: "\<forall>x\<in>set xs. P x \<Longrightarrow> P y \<Longrightarrow> \<forall>x\<in>set (xs[i := y]). P x"
  using set_update_subset_insert [of xs i y] by auto

lemma queue_tail: "\<forall>q\<in>set cs. length q \<le> n \<Longrightarrow> cs ! i = x # t \<Longrightarrow> \<forall>q\<in>set (cs[i := t]). length q \<le> n"
proof (cases "i < length cs")
  case True
  assume a: "\<forall>q\<in>set cs. length q \<le> n" "cs ! i = x # t"
  then have "length (x # t) \<le> n" using True nth_mem [of i cs] by metis
  then show ?thesis using set_update_ball [OF a(1), of t] by simp
qed (simp add: list_update_beyond)

lemma send_at_ok:
  assumes "send_at cap i x chans = Some (Ret chans')" and "\<forall>q\<in>set chans. length q \<le> cap"
  shows "length chans' = length chans \<and> (\<forall>q\<in>set chans'. length q \<le> cap) \<and> i < length chans \<and> chans' = chans[i := chans ! i @ [x]]"
  using assms set_update_ball [of chans "\<lambda>q. length q \<le> cap" "chans ! i @ [x]" i] by (auto simp: send_at_def split: if_splits)

lemma Comet_calls_ok:
  assumes "comet_ok c"
  shows "Comet_Push arg c = Some (Ret c') \<Longrightarrow> comet_ok c'" "Comet_BroadcastRoom rarg c = Some (Ret c') \<Longrightarrow> comet_ok c'"
    "Comet_Broadcast barg c = Some (Ret c') \<Longrightarrow> comet_ok c'"
  using assms send_at_ok
  by (fastforce simp: Comet_Push_def Comet_BroadcastRoom_def Comet_Broadcast_def Let_def outcome_simps comet_ok_def split: if_splits)+

lemma process_turn_ok: "comet_ok c \<Longrightarrow> process_turn i ch c = Some (call, c') \<Longrightarrow> comet_ok c'"
  using queue_tail [of "cm_roomChan c" "cm_routineChan c" i] queue_tail [of "cm_pushChan c" "cm_routineChan c" i]
  by (cases ch) (auto simp: process_turn_def comet_ok_def split: list.splits if_splits)

text \<open>Changing comets only.\<close>

lemma job_ok_comets:
  assumes "job_ok j" and "length cs = length (jb_comets j)" and "\<forall>c\<in>set cs. comet_ok c"
  shows "job_ok (j\<lparr>jb_comets := cs\<rparr>)"
  using assms by (simp add: job_ok_def)

lemma on_comet_ok:
  assumes "job_ok j" and "a < length (jb_comets j)" and "on_comet a f j = Some (Ret j')" and "\<forall>c c'. comet_ok c \<longrightarrow> f c = Some (Ret c') \<longrightarrow> comet_ok c'"
  shows "job_ok j' \<and> length (jb_comets j') = length (jb_comets j) \<and> jb_cometServers j' = jb_cometServers j"
proof -
  obtain c where c: "f (jb_comets j ! a) = Some (Ret c)" "j' = j\<lparr>jb_comets := (jb_comets j)[a := c]\<rparr>"
    using assms(3) by (auto simp: on_comet_def outcome_simps)
  have all: "\<forall>c\<in>set (jb_comets j). comet_ok c" using assms(1) by (simp add: job_ok_def)
  then have "comet_ok c" using assms(2,4) c(1) nth_mem [OF assms(2)] by blast
  then show ?thesis using job_ok_comets [OF assms(1), of "(jb_comets j)[a := c]"] set_update_ball [OF all] c(2) by simp
qed

lemma on_comets_ok:
  assumes "on_comets cs f j = Some (Ret j')" and "job_ok j" and "\<forall>a\<in>snd ` set cs. a < length (jb_comets j)"
    and "\<forall>c c'. comet_ok c \<longrightarrow> f c = Some (Ret c') \<longrightarrow> comet_ok c'"
  shows "job_ok j'"
  using assms
proof (induction cs f j rule: on_comets.induct)
  case (2 k a cs f j)
  obtain j1 where j1: "on_comet a f j = Some (Ret j1)" "on_comets cs f j1 = Some (Ret j')" using "2.prems"(1) by (auto simp: outcome_simps)
  have "a < length (jb_comets j)" using "2.prems"(3) by simp
  from on_comet_ok [OF "2.prems"(2) this j1(1) "2.prems"(4)] show ?case
    using "2.IH" [of j1] j1 "2.prems"(3,4) by simp
qed simp

text \<open>Changing a room: its goroutine goes on, or it ends and the room leaves the map.\<close>

lemma on_room_ok:
  assumes "job_ok j" and "a < length (jb_roomstore j)" and "room_ok r" and "jr_id r = jr_id (jb_roomstore j ! a)"
    and "jr_alive r = jr_alive (jb_roomstore j ! a)"
  shows "job_ok (on_room a r j)"
  using assms set_update_ball [of "jb_roomstore j" room_ok r a] by (auto simp: job_ok_def on_room_def nth_list_update)

lemma delRoom_ok:
  assumes "job_ok j" and "a < length (jb_roomstore j)" and "room_ok r" and "jr_id r = jr_id (jb_roomstore j ! a)"
    and "jr_alive (jb_roomstore j ! a)" and "\<not> jr_alive r"
  shows "job_ok (delRoom (jr_id r) (on_room a r j))"
proof -
  have uniq: "b = a" if "b < length (jb_roomstore j)" "jr_id (jb_roomstore j ! b) = jr_id r" "jr_alive (jb_roomstore j ! b)" for b
  proof -
    have "jb_rooms j (jr_id r) = Some a" "jb_rooms j (jr_id r) = Some b" using assms that by (auto simp: job_ok_def)
    then show ?thesis by simp
  qed
  have rooms: "\<forall>k b. jb_rooms j k = Some b \<longleftrightarrow> b < length (jb_roomstore j) \<and> jr_id (jb_roomstore j ! b) = k \<and> jr_alive (jb_roomstore j ! b)"
    using assms(1) by (simp add: job_ok_def)
  have "((jb_rooms j)(jr_id r := None)) k = Some b \<longleftrightarrow> b < length ((jb_roomstore j)[a := r]) \<and> jr_id ((jb_roomstore j)[a := r] ! b) = k \<and>
      jr_alive ((jb_roomstore j)[a := r] ! b)" for k b
  proof -
    have nth: "(jb_roomstore j)[a := r] ! b = (if b = a then r else jb_roomstore j ! b)" using assms(2) by simp
    show ?thesis using rooms uniq [of b] assms(4-6) unfolding nth by (cases "b = a") auto
  qed
  then show ?thesis using assms(1) set_update_ball [of "jb_roomstore j" room_ok r a] assms(3) by (simp add: job_ok_def on_room_def delRoom_def)
qed

lemma getRoom_ok:
  assumes "job_ok j" and "getRoom rid now j = (a, j1)"
  shows "job_ok j1 \<and> a < length (jb_roomstore j1) \<and> jr_id (jb_roomstore j1 ! a) = rid \<and> jr_alive (jb_roomstore j1 ! a)"
proof (cases "jb_rooms j rid")
  case None
  let ?n = "length (jb_roomstore j)" and ?r = "JobRoom_New (jc_Room (jb_c j)) rid now"
  have j1: "a = ?n" "j1 = j\<lparr>jb_rooms := (jb_rooms j)(rid \<mapsto> ?n), jb_roomstore := jb_roomstore j @ [?r]\<rparr>"
    using assms(2) None by (auto simp: getRoom_def)
  have new: "room_ok ?r" "jr_id ?r = rid" "jr_alive ?r" by (simp_all add: JobRoom_New_def room_ok_def)
  have rooms: "jb_rooms j k = Some b \<longleftrightarrow> b < ?n \<and> jr_id (jb_roomstore j ! b) = k \<and> jr_alive (jb_roomstore j ! b)" for k b
    using assms(1) by (simp add: job_ok_def)
  have "((jb_rooms j)(rid \<mapsto> ?n)) k = Some b \<longleftrightarrow> b < length (jb_roomstore j @ [?r]) \<and> jr_id ((jb_roomstore j @ [?r]) ! b) = k \<and>
      jr_alive ((jb_roomstore j @ [?r]) ! b)" for k b
    using rooms [of k b] rooms [of rid b] None new by (auto simp: nth_append less_Suc_eq)
  then have "job_ok j1" using assms(1) new(1) by (simp add: job_ok_def j1)
  then show ?thesis using new by (simp add: j1 nth_append)
next
  case (Some b)
  then show ?thesis using assms by (auto simp: getRoom_def job_ok_def)
qed

lemma room_offer_ok: "room_ok r \<Longrightarrow> room_ok (snd (room_offer x r)) \<and> jr_id (snd (room_offer x r)) = jr_id r \<and> jr_alive (snd (room_offer x r)) = jr_alive r"
  by (auto simp: room_offer_def room_ok_def)

lemma JobRoom_Push_ok:
  "room_ok r \<Longrightarrow> JobRoom_Push op msg r = (e, r') \<Longrightarrow> room_ok r' \<and> jr_id r' = jr_id r \<and> jr_alive r' = jr_alive r"
  using room_offer_ok [of r "RoomMsg \<lparr>Ver = 1, Op = op, Seq = 0, Body = msg\<rparr>"] by (auto simp: JobRoom_Push_def Let_def split: prod.splits)

lemma pushproc_turn_ok:
  assumes "room_ok r" and "pushproc_turn c now r = Some (Ret (out, r'))"
  shows "room_ok r' \<and> jr_id r' = jr_id r \<and> jr_alive r' = (jr_alive r \<and> out \<noteq> RExit)"
proof -
  obtain y q where q: "jr_proto r = y # q" using assms(2) by (cases "jr_proto r") (auto simp: pushproc_turn_def)
  show ?thesis
  proof (cases y)
    case (RoomMsg p)
    obtain buf where buf: "Proto_WriteTo p (jr_buf r) = Ret buf" "BytesWriter_ok buf"
      using WriteTo_frame [of "jr_buf r" p] assms(1) by (auto simp: room_ok_def)
    then show ?thesis using assms q RoomMsg
      by (auto simp: pushproc_turn_def room_flush_def room_ok_def Let_def split: if_splits)
  next
    case RoomReady
    then show ?thesis using assms q by (auto simp: pushproc_turn_def room_flush_def room_ok_def Let_def split: if_splits)
  qed
qed

lemma servers_bound: "job_ok j \<Longrightarrow> \<forall>a\<in>snd ` set (jb_cometServers j). a < length (jb_comets j)"
proof
  fix a
  assume ok: "job_ok j" and "a \<in> snd ` set (jb_cometServers j)"
  then obtain k where "(k, a) \<in> set (jb_cometServers j)" by auto
  then have "map_of (jb_cometServers j) k = Some a" using ok by (intro map_of_is_SomeI) (simp_all add: job_ok_def)
  then show "a < length (jb_comets j)" using ok by (simp add: job_ok_def servers_ok_def)
qed

lemma broadcastRoom_ok: "job_ok j \<Longrightarrow> broadcastRoomRawBytes rid body j = Some (Ret j') \<Longrightarrow> job_ok j'"
  unfolding broadcastRoomRawBytes_def using on_comets_ok [OF _ _ servers_bound] Comet_calls_ok(2) by blast

lemma room_turn_ok:
  assumes "job_ok j" and "a < length (jb_roomstore j)" and "jr_alive (jb_roomstore j ! a)" and "room_turn a now j = Some (Ret j')"
  shows "job_ok j'"
proof -
  have ok: "room_ok (jb_roomstore j ! a)" using assms(1,2) by (simp add: job_ok_def)
  obtain out r where t: "pushproc_turn (jc_Room (jb_c j)) now (jb_roomstore j ! a) = Some (Ret (out, r))"
    using assms(4) by (auto simp: room_turn_def outcome_simps)
  note r = pushproc_turn_ok [OF ok t]
  show ?thesis
  proof (cases out)
    case RWait
    then show ?thesis using assms t r on_room_ok [OF assms(1,2), of r] by (simp add: room_turn_def)
  next
    case (RBatch body)
    then have "job_ok (on_room a r j)" using r assms(3) on_room_ok [OF assms(1,2), of r] by simp
    then show ?thesis using RBatch assms(4) t broadcastRoom_ok by (auto simp: room_turn_def)
  next
    case RExit
    then show ?thesis using assms t r delRoom_ok [OF assms(1,2), of r] by (auto simp: room_turn_def)
  qed
qed

lemma Job_push_ok:
  assumes "job_ok j" and "Job_push now msg j = Some (Ret (e, j'))"
  shows "job_ok j'"
proof (cases "pm_Type msg")
  case PUSH
  obtain body where b: "raw_body \<lparr>Ver = 1, Op = OpRaw, Seq = 0, Body = pm_Msg msg\<rparr> = Ret body"
    using assms(2) PUSH by (auto simp: Job_push_def pushMsgToKeys_def outcome_simps Let_def)
  show ?thesis
  proof (cases "map_of (jb_cometServers j) (pm_Server msg)")
    case None
    then show ?thesis using assms PUSH b by (auto simp: Job_push_def pushMsgToKeys_def Let_def)
  next
    case (Some a)
    then have "a < length (jb_comets j)" using assms(1) by (simp add: job_ok_def servers_ok_def)
    moreover obtain args where "on_comet a (Comet_Push args) j = Some (Ret j')"
      using assms(2) PUSH b Some by (auto simp: Job_push_def pushMsgToKeys_def Let_def outcome_simps)
    ultimately show ?thesis using on_comet_ok [OF assms(1)] Comet_calls_ok(1) by blast
  qed
next
  case ROOM
  obtain a j1 where g: "getRoom (pm_Room msg) now j = (a, j1)" by fastforce
  obtain err r where p: "JobRoom_Push (pm_Operation msg) (pm_Msg msg) (jb_roomstore j1 ! a) = (err, r)" by fastforce
  have j1: "job_ok j1" "a < length (jb_roomstore j1)" using getRoom_ok [OF assms(1) g] by auto
  then have "room_ok (jb_roomstore j1 ! a)" by (simp add: job_ok_def)
  then show ?thesis using assms(2) ROOM g p on_room_ok [OF j1] JobRoom_Push_ok [OF _ p] by (auto simp: Job_push_def)
next
  case BROADCAST
  obtain args where "on_comets (jb_cometServers j) (Comet_Broadcast args) j = Some (Ret j')"
    using assms(2) BROADCAST by (auto simp: Job_push_def Job_broadcast_def outcome_simps Let_def)
  then show ?thesis using on_comets_ok [OF _ assms(1) servers_bound [OF assms(1)]] Comet_calls_ok(3) by blast
next
  case OtherType
  then show ?thesis using assms by (simp add: Job_push_def)
qed

lemma NewComet_ok:
  "NewComet parse dial ins c = Inr cm \<Longrightarrow> 0 < cc_RoutineSize c \<Longrightarrow> cc_RoutineSize c < 2 ^ 64 \<Longrightarrow> comet_ok cm"
  by (auto simp: NewComet_def Let_def comet_ok_def unat_of_nat take_bit_nat_eq_self_iff split: if_splits option.splits)

text \<open>
  The new map has for a host that was there before its old comet, for another a comet made just now; the old
  map stays valid meanwhile.
\<close>

lemma new_comets_ok:
  assumes "new_comets parse dial ins acc j = (res, j')" and "job_ok j" and "distinct (map fst acc)" and "servers_ok (map_of acc) (length (jb_comets j))"
    and "\<forall>k a b. map_of acc k = Some a \<longrightarrow> map_of (jb_cometServers j) k = Some b \<longrightarrow> a = b"
    and "\<forall>k k' a. map_of acc k = Some a \<longrightarrow> map_of (jb_cometServers j) k' = Some a \<longrightarrow> k = k'"
  shows "job_ok j' \<and> jb_cometServers j' = jb_cometServers j \<and>
    (\<forall>comets. res = Inr comets \<longrightarrow> distinct (map fst comets) \<and> servers_ok (map_of comets) (length (jb_comets j')))"
  using assms
proof (induction ins arbitrary: acc j)
  case (Cons i rest)
  let ?h = "in_Hostname i" and ?n = "length (jb_comets j)"
  show ?case
  proof (cases "map_of (jb_cometServers j) ?h")
    case (Some old)
    let ?acc = "AList.update ?h old acc"
    have lt: "old < ?n" using Some Cons.prems(2) by (simp add: job_ok_def servers_ok_def)
    have m: "map_of ?acc = (map_of acc)(?h \<mapsto> old)" by (simp add: update_conv')
    have inj: "map_of (jb_cometServers j) k = Some a \<Longrightarrow> map_of (jb_cometServers j) k' = Some a \<Longrightarrow> k = k'" for k k' a
      using Cons.prems(2) by (auto simp: job_ok_def servers_ok_def)
    have run: "new_comets parse dial rest ?acc j = (res, j')" using Cons.prems(1) Some by simp
    have "servers_ok (map_of ?acc) ?n" using Cons.prems(4,6) lt Some unfolding m servers_ok_def by (auto split: if_splits)
    moreover have "\<forall>k a b. map_of ?acc k = Some a \<longrightarrow> map_of (jb_cometServers j) k = Some b \<longrightarrow> a = b"
      using Cons.prems(5) Some unfolding m by (auto split: if_splits)
    moreover have "\<forall>k k' a. map_of ?acc k = Some a \<longrightarrow> map_of (jb_cometServers j) k' = Some a \<longrightarrow> k = k'"
    proof (intro allI impI)
      fix k k' a
      assume a: "map_of ?acc k = Some a" "map_of (jb_cometServers j) k' = Some a"
      show "k = k'"
      proof (cases "k = ?h")
        case True
        then show ?thesis using inj [OF Some, of k'] a unfolding m by simp
      qed (use a Cons.prems(6) in \<open>unfold m, auto\<close>)
    qed
    ultimately show ?thesis by (rule Cons.IH [OF run Cons.prems(2) distinct_update [OF Cons.prems(3)]])
  next
    case None
    show ?thesis
    proof (cases "NewComet parse dial i (jc_Comet (jb_c j))")
      case (Inl e)
      then show ?thesis using Cons.prems None by auto
    next
      case (Inr cm)
      let ?acc = "AList.update ?h ?n acc" and ?j = "j\<lparr>jb_comets := jb_comets j @ [cm]\<rparr>"
      have m: "map_of ?acc = (map_of acc)(?h \<mapsto> ?n)" by (simp add: update_conv')
      have "comet_ok cm" using NewComet_ok [OF Inr] Cons.prems(2) by (simp add: job_ok_def)
      then have ok: "job_ok ?j" using Cons.prems(2) by (fastforce simp: job_ok_def servers_ok_def)
      have lt: "a < ?n" if "map_of acc k = Some a \<or> map_of (jb_cometServers j) k = Some a" for k a
        using that Cons.prems(2,4) by (auto simp: job_ok_def servers_ok_def)
      have fresh: "map_of (jb_cometServers j) k \<noteq> Some ?n" for k using lt [of k ?n] by auto
      have run: "new_comets parse dial rest ?acc ?j = (res, j')" using Cons.prems(1) None Inr by simp
      have sv: "servers_ok (map_of ?acc) (length (jb_comets ?j))"
        using Cons.prems(4) lt unfolding m servers_ok_def by (auto split: if_splits intro: less_SucI dest: less_not_refl2)
      have a1: "\<forall>k a b. map_of ?acc k = Some a \<longrightarrow> map_of (jb_cometServers ?j) k = Some b \<longrightarrow> a = b"
        using Cons.prems(5) None unfolding m by (auto split: if_splits)
      have a2: "\<forall>k k' a. map_of ?acc k = Some a \<longrightarrow> map_of (jb_cometServers ?j) k' = Some a \<longrightarrow> k = k'"
        using Cons.prems(6) fresh unfolding m by (auto split: if_splits)
      show ?thesis using Cons.IH [OF run ok distinct_update [OF Cons.prems(3)] sv a1 a2] by simp
    qed
  qed
qed auto

lemma cancel_fold_ok:
  "\<forall>c\<in>set cs. comet_ok c \<Longrightarrow>
   length (fold (\<lambda>(k, a) cs. if map_of comets k = None then cs[a := (cs ! a)\<lparr>cm_cancelled := True\<rparr>] else cs) old cs) = length cs \<and>
   (\<forall>c\<in>set (fold (\<lambda>(k, a) cs. if map_of comets k = None then cs[a := (cs ! a)\<lparr>cm_cancelled := True\<rparr>] else cs) old cs). comet_ok c)"
proof (induction old arbitrary: cs)
  case (Cons ka old)
  obtain k a where ka: "ka = (k, a)" by fastforce
  have "\<forall>c\<in>set (cs[a := (cs ! a)\<lparr>cm_cancelled := True\<rparr>]). comet_ok c"
  proof (cases "a < length cs")
    case True
    then have "comet_ok (cs ! a)" using Cons.prems by simp
    then have "comet_ok ((cs ! a)\<lparr>cm_cancelled := True\<rparr>)" by (simp add: comet_ok_def)
    then show ?thesis using set_update_ball [OF Cons.prems] by blast
  qed (use Cons.prems in \<open>simp add: list_update_beyond\<close>)
  then show ?case using Cons.IH [of "cs[a := (cs ! a)\<lparr>cm_cancelled := True\<rparr>]"] Cons.IH [OF Cons.prems] ka by simp
qed simp

lemma newAddress_ok:
  assumes "job_ok j" and "newAddress parse dial insMap j = (e, j')"
  shows "job_ok j'"
proof (cases "insMap (jc_Zone (jb_c j)) = []")
  case True
  then show ?thesis using assms by (simp add: newAddress_def)
next
  case False
  obtain res j1 where n: "new_comets parse dial (insMap (jc_Zone (jb_c j))) [] j = (res, j1)" by fastforce
  have ok: "job_ok j1" "\<forall>comets. res = Inr comets \<longrightarrow> distinct (map fst comets) \<and> servers_ok (map_of comets) (length (jb_comets j1))"
    using new_comets_ok [OF n assms(1)] by (auto simp: servers_ok_def)
  show ?thesis
  proof (cases res)
    case (Inl x)
    then show ?thesis using assms(2) False n ok(1) by (simp add: newAddress_def Let_def)
  next
    case (Inr comets)
    then have "j' = (cancel_old comets j1)\<lparr>jb_cometServers := comets\<rparr>" using assms(2) False n by (simp add: newAddress_def Let_def)
    moreover have "\<forall>c\<in>set (jb_comets j1). comet_ok c" using ok(1) by (simp add: job_ok_def)
    ultimately show ?thesis using ok Inr cancel_fold_ok [of "jb_comets j1" comets "jb_cometServers j1"] by (simp add: job_ok_def cancel_old_def)
  qed
qed

lemma job_step_ok: "job_step parse dial j j' \<Longrightarrow> job_ok j \<Longrightarrow> job_ok j'"
proof (induction rule: job_step.induct)
  case (fire a j t now)
  have "room_ok (jb_roomstore j ! a)" using fire(1,4) by (simp add: job_ok_def)
  then show ?case using on_room_ok [OF fire(4,1)] room_offer_ok [of "jb_roomstore j ! a" RoomReady]
    by (simp add: room_fire_def room_ok_def)
next
  case (proc a j i ch call c)
  have all: "\<forall>c\<in>set (jb_comets j). comet_ok c" using proc(4) by (simp add: job_ok_def)
  then have "comet_ok c" using process_turn_ok [OF _ proc(3)] proc(1) by simp
  then show ?case using job_ok_comets [OF proc(4)] set_update_ball [OF all] by simp
qed (use Job_push_ok room_turn_ok newAddress_ok in blast)+

lemma Job_New_ok: "0 < cc_RoutineSize (jc_Comet c) \<Longrightarrow> cc_RoutineSize (jc_Comet c) < 2 ^ 64 \<Longrightarrow> job_ok (Job_New c)"
  by (simp add: job_ok_def Job_New_def servers_ok_def)

lemma job_steps_ok: "(job_step parse dial)\<^sup>*\<^sup>* j j' \<Longrightarrow> job_ok j \<Longrightarrow> job_ok j'"
  by (induction rule: rtranclp_induct) (auto intro: job_step_ok)

section \<open>What the comets get\<close>

lemma raw_body_eq: "raw_body p = Ret (proto_frame p)"
  using WriteTo_frame [OF NewWriterSize_ok, of p "length (body_bytes p) + 64"] by (auto simp: raw_body_def)

lemma length_word_0: "length xs < 2 ^ 32 \<Longrightarrow> (of_nat (length xs) :: int32) = 0 \<longleftrightarrow> xs = []"
proof -
  assume "length xs < 2 ^ 32"
  then have "unat (of_nat (length xs) :: int32) = length xs" by (simp add: unat_of_nat take_bit_nat_eq_self_iff)
  then show ?thesis by (metis length_0_conv unsigned_eq_0_iff)
qed

lemma Comet_no_panic:
  assumes "comet_ok c"
  shows "Comet_Push arg c \<noteq> Some (Panic x)" "Comet_BroadcastRoom rarg c \<noteq> Some (Panic x)" "Comet_Broadcast barg c \<noteq> Some (Panic x)"
proof -
  have sz: "cm_routineSize c \<noteq> 0" using assms by (auto simp: comet_ok_def)
  then have "unat (n mod cm_routineSize c) < unat (cm_routineSize c)" for n by (metis unat_gt_0 unat_mod mod_less_divisor)
  then show "Comet_Push arg c \<noteq> Some (Panic x)" "Comet_BroadcastRoom rarg c \<noteq> Some (Panic x)" "Comet_Broadcast barg c \<noteq> Some (Panic x)"
    using assms sz by (auto simp: Comet_Push_def Comet_BroadcastRoom_def Comet_Broadcast_def Let_def send_at_def comet_ok_def)
qed

lemma rbind_eq_Panic: "rbind m f = Some (Panic x) \<longleftrightarrow> m = Some (Panic x) \<or> (\<exists>y. m = Some (Ret y) \<and> f y = Some (Panic x))"
  by (cases "(m, f)" rule: rbind.cases) auto

lemma on_comets_no_panic:
  assumes "job_ok j" and "\<forall>a\<in>snd ` set cs. a < length (jb_comets j)" and "\<forall>c c'. comet_ok c \<longrightarrow> f c = Some (Ret c') \<longrightarrow> comet_ok c'"
    and "\<forall>c. comet_ok c \<longrightarrow> f c \<noteq> Some (Panic x)"
  shows "on_comets cs f j \<noteq> Some (Panic x)"
  using assms
proof (induction cs f j rule: on_comets.induct)
  case (2 k a cs f j)
  have lt: "a < length (jb_comets j)" using "2.prems"(2) by simp
  then have "comet_ok (jb_comets j ! a)" using "2.prems"(1) by (simp add: job_ok_def)
  then have "on_comet a f j \<noteq> Some (Panic x)" using "2.prems"(4) by (auto simp: on_comet_def rbind_eq_Panic)
  moreover have "on_comets cs f j1 \<noteq> Some (Panic x)" if "on_comet a f j = Some (Ret j1)" for j1
    using "2.IH" [OF that] on_comet_ok [OF "2.prems"(1) lt that "2.prems"(3)] "2.prems"(2,3,4) by simp
  ultimately show ?case by (auto simp: rbind_eq_Panic)
qed simp

text \<open>A broadcast to different comets whose channels have room.\<close>

lemma on_comets_broadcast:
  assumes "distinct (map snd cs)" and "\<forall>a\<in>snd ` set cs. a < length (jb_comets j)"
    and "\<forall>a\<in>snd ` set cs. length (cm_broadcastChan (jb_comets j ! a)) < unat (cm_routineSize (jb_comets j ! a))"
  shows "\<exists>cms. on_comets cs (Comet_Broadcast args) j = Some (Ret (j\<lparr>jb_comets := cms\<rparr>)) \<and> length cms = length (jb_comets j) \<and>
    (\<forall>a<length (jb_comets j). cms ! a = (if a \<in> snd ` set cs
       then (jb_comets j ! a)\<lparr>cm_broadcastChan := cm_broadcastChan (jb_comets j ! a) @ [args]\<rparr> else jb_comets j ! a))"
  using assms
proof (induction cs arbitrary: j)
  case (Cons ka cs)
  obtain k a where ka: "ka = (k, a)" by fastforce
  let ?c = "(jb_comets j ! a)\<lparr>cm_broadcastChan := cm_broadcastChan (jb_comets j ! a) @ [args]\<rparr>"
  let ?j = "j\<lparr>jb_comets := (jb_comets j)[a := ?c]\<rparr>"
  have a: "a < length (jb_comets j)" "a \<notin> snd ` set cs" using Cons.prems ka by auto
  have one: "on_comet a (Comet_Broadcast args) j = Some (Ret ?j)" using Cons.prems(3) ka by (simp add: on_comet_def Comet_Broadcast_def)
  have nth: "jb_comets ?j ! b = jb_comets j ! b" if "b \<in> snd ` set cs" for b
  proof -
    have "a \<noteq> b" using that a(2) by blast
    then show ?thesis by simp
  qed
  obtain cms where cms: "on_comets cs (Comet_Broadcast args) ?j = Some (Ret (?j\<lparr>jb_comets := cms\<rparr>))" "length cms = length (jb_comets ?j)"
    "\<forall>b<length (jb_comets ?j). cms ! b = (if b \<in> snd ` set cs
       then (jb_comets ?j ! b)\<lparr>cm_broadcastChan := cm_broadcastChan (jb_comets ?j ! b) @ [args]\<rparr> else jb_comets ?j ! b)"
    using Cons.IH [of ?j] Cons.prems nth ka by auto
  have "cms ! b = (if b \<in> snd ` set (ka # cs)
       then (jb_comets j ! b)\<lparr>cm_broadcastChan := cm_broadcastChan (jb_comets j ! b) @ [args]\<rparr> else jb_comets j ! b)" if "b < length (jb_comets j)" for b
    using cms(3) that a ka nth by (cases "b = a") auto
  then show ?case using one cms(1,2) ka by (intro exI [of _ cms]) simp
next
  case Nil
  show ?case by (intro exI [of _ "jb_comets j"]) simp
qed

section \<open>Properties\<close>

text \<open>
  C14 (the job is well formed). In every history of the job process all channels of all comets are within
  their capacity, the servers are different comets of the right shape, and for no room ID do two merging
  goroutines run.
\<close>

theorem job_invariant:
  assumes "(job_step parse dial)\<^sup>*\<^sup>* (Job_New c) j" and "0 < cc_RoutineSize (jc_Comet c)" and "cc_RoutineSize (jc_Comet c) < 2 ^ 64"
  shows "job_ok j \<and> (\<forall>a b. a < length (jb_roomstore j) \<and> b < length (jb_roomstore j) \<and> jr_alive (jb_roomstore j ! a) \<and>
    jr_alive (jb_roomstore j ! b) \<and> jr_id (jb_roomstore j ! a) = jr_id (jb_roomstore j ! b) \<longrightarrow> a = b)"
proof -
  have ok: "job_ok j" by (rule job_steps_ok [OF assms(1) Job_New_ok [OF assms(2,3)]])
  have "a = b" if "a < length (jb_roomstore j)" "b < length (jb_roomstore j)" "jr_alive (jb_roomstore j ! a)" "jr_alive (jb_roomstore j ! b)"
    "jr_id (jb_roomstore j ! a) = jr_id (jb_roomstore j ! b)" for a b
  proof -
    have "jb_rooms j (jr_id (jb_roomstore j ! a)) = Some a" "jb_rooms j (jr_id (jb_roomstore j ! a)) = Some b"
      using ok that by (auto simp: job_ok_def)
    then show ?thesis by simp
  qed
  then show ?thesis using ok by blast
qed

definition demo_job_conf :: JobConf where
  "demo_job_conf = \<lparr>jc_Room = demo_room_conf, jc_Comet = \<lparr>cc_RoutineChan = 2, cc_RoutineSize = 2\<rparr>, jc_Zone = ''z''\<rparr>"

definition demo_push :: "push_type \<Rightarrow> PushMsg" where
  "demo_push t = \<lparr>pm_Type = t, pm_Operation = 4, pm_Speed = 9, pm_Server = ''h'', pm_Room = ''live'', pm_Keys = [''k''], pm_Msg = Some [7]\<rparr>"

text \<open>A history: a comet appears.\<close>

definition demo_job :: Job where
  "demo_job = snd (newAddress (\<lambda>a. Some (''grpc'', a)) (\<lambda>_. None) (\<lambda>_. [\<lparr>in_Hostname = ''h'', in_Addrs = [''x'']\<rparr>]) (Job_New demo_job_conf))"

lemma demo_job_reachable: "(job_step (\<lambda>a. Some (''grpc'', a)) (\<lambda>_. None))\<^sup>*\<^sup>* (Job_New demo_job_conf) demo_job"
  unfolding demo_job_def by (intro r_into_rtranclp job_step.address) (rule surjective_pairing)

theorem job_invariant_witness: "job_ok demo_job \<and> jb_cometServers demo_job = [(''h'', 0)]"
proof -
  have "jb_cometServers demo_job = [(''h'', 0)]" by code_simp
  then show ?thesis using job_invariant [OF demo_job_reachable] by (simp add: demo_job_conf_def)
qed

text \<open>
  C36 (when pushing panics). In every history a push panics exactly when it is a broadcast and no comet is
  known: the speed is then divided by zero. Every other push returns, or waits at a full channel.
\<close>

theorem job_push_panics:
  assumes "(job_step parse dial)\<^sup>*\<^sup>* (Job_New c) j" and "0 < cc_RoutineSize (jc_Comet c)" and "cc_RoutineSize (jc_Comet c) < 2 ^ 64"
    and "length (jb_cometServers j) < 2 ^ 32"
  shows "Job_push now msg j = Some (Panic x) \<longleftrightarrow> pm_Type msg = BROADCAST \<and> jb_cometServers j = [] \<and> x = DivideByZero"
proof -
  have ok: "job_ok j" by (rule job_steps_ok [OF assms(1) Job_New_ok [OF assms(2,3)]])
  show ?thesis
  proof (cases "pm_Type msg")
    case PUSH
    have "on_comet a (Comet_Push args) j \<noteq> Some (Panic x)" if "map_of (jb_cometServers j) (pm_Server msg) = Some a" for a args
    proof -
      have "a < length (jb_comets j)" using ok that by (simp add: job_ok_def servers_ok_def)
      then have "comet_ok (jb_comets j ! a)" using ok by (simp add: job_ok_def)
      then show ?thesis using Comet_no_panic(1) by (auto simp: on_comet_def rbind_eq_Panic)
    qed
    then show ?thesis using PUSH by (auto simp: Job_push_def pushMsgToKeys_def raw_body_eq Let_def rbind_eq_Panic split: option.splits)
  next
    case ROOM
    then show ?thesis by (auto simp: Job_push_def split: prod.splits)
  next
    case BROADCAST
    note z = length_word_0 [OF assms(4)]
    have "on_comets (jb_cometServers j) (Comet_Broadcast args) j \<noteq> Some (Panic x)" for args
      using on_comets_no_panic [OF ok servers_bound [OF ok], of "Comet_Broadcast args" x] Comet_calls_ok(3) Comet_no_panic(3) by blast
    then show ?thesis using BROADCAST z
      by (auto simp: Job_push_def Job_broadcast_def raw_body_eq go_div32_def Let_def rbind_eq_Panic)
  next
    case OtherType
    then show ?thesis by (simp add: Job_push_def)
  qed
qed

theorem job_push_panics_witness:
  "Job_push 0 (demo_push BROADCAST) (Job_New demo_job_conf) = Some (Panic DivideByZero) \<and> Job_push 0 (demo_push BROADCAST) demo_job \<noteq> Some (Panic DivideByZero)"
proof -
  have "jb_cometServers demo_job = [(''h'', 0)]" by code_simp
  then show ?thesis
    using job_push_panics [of "\<lambda>a. Some (''grpc'', a)" "\<lambda>_. None" demo_job_conf "Job_New demo_job_conf" 0 "demo_push BROADCAST" DivideByZero]
      job_push_panics [OF demo_job_reachable, of 0 "demo_push BROADCAST" DivideByZero]
    by (simp add: demo_job_conf_def demo_push_def) (simp add: Job_New_def)
qed

text \<open>
  C37 (a broadcast reaches every comet once). While the channels have room, a broadcast returns without an
  error and has put the same request once into the channel of every known comet and into no other: its
  message is raw and carries the frame of the message with its operation.
\<close>

theorem broadcast_reaches_all:
  assumes "(job_step parse dial)\<^sup>*\<^sup>* (Job_New c) j" and "0 < cc_RoutineSize (jc_Comet c)" and "cc_RoutineSize (jc_Comet c) < 2 ^ 64"
    and "jb_cometServers j \<noteq> []" and "length (jb_cometServers j) < 2 ^ 32"
    and "\<forall>a\<in>snd ` set (jb_cometServers j). length (cm_broadcastChan (jb_comets j ! a)) < unat (cm_routineSize (jb_comets j ! a))"
  shows "\<exists>j' speed1. Job_broadcast op body speed j = Some (Ret (None, j')) \<and> length (jb_comets j') = length (jb_comets j) \<and>
    (\<forall>a<length (jb_comets j). cm_broadcastChan (jb_comets j' ! a) = cm_broadcastChan (jb_comets j ! a) @
       (if a \<in> snd ` set (jb_cometServers j)
        then [\<lparr>bq_ProtoOp = op, bq_Proto = \<lparr>Ver = 1, Op = OpRaw, Seq = 0, Body = Some (proto_frame \<lparr>Ver = 1, Op = op, Seq = 0, Body = body\<rparr>)\<rparr>, bq_Speed = speed1\<rparr>]
        else []))"
proof -
  have ok: "job_ok j" by (rule job_steps_ok [OF assms(1) Job_New_ok [OF assms(2,3)]])
  let ?n = "of_nat (length (jb_cometServers j)) :: int32"
  have "?n \<noteq> 0" using assms(4) length_word_0 [OF assms(5)] by simp
  then obtain sp where sp: "go_div32 speed ?n = Ret sp" by (simp add: go_div32_def)
  have dist: "distinct (map snd (jb_cometServers j))"
  proof -
    have d: "distinct (map fst (jb_cometServers j))" using ok by (simp add: job_ok_def)
    have inj: "k = k'" if "(k, a) \<in> set (jb_cometServers j)" "(k', a) \<in> set (jb_cometServers j)" for k k' a
    proof -
      have "map_of (jb_cometServers j) k = Some a" "map_of (jb_cometServers j) k' = Some a" using that map_of_is_SomeI [OF d] by auto
      then show ?thesis using ok unfolding job_ok_def servers_ok_def by blast
    qed
    then have "inj_on snd (set (jb_cometServers j))" by (auto intro!: inj_onI)
    then show ?thesis using d by (simp add: distinct_map)
  qed
  define args where "args = \<lparr>bq_ProtoOp = op, bq_Proto = \<lparr>Ver = 1, Op = OpRaw, Seq = 0,
      Body = Some (proto_frame \<lparr>Ver = 1, Op = op, Seq = 0, Body = body\<rparr>)\<rparr>, bq_Speed = sp\<rparr>"
  obtain cms where cms: "on_comets (jb_cometServers j) (Comet_Broadcast args) j = Some (Ret (j\<lparr>jb_comets := cms\<rparr>))"
    "length cms = length (jb_comets j)" "\<forall>a<length (jb_comets j). cms ! a = (if a \<in> snd ` set (jb_cometServers j)
       then (jb_comets j ! a)\<lparr>cm_broadcastChan := cm_broadcastChan (jb_comets j ! a) @ [args]\<rparr> else jb_comets j ! a)"
    using on_comets_broadcast [OF dist servers_bound [OF ok] assms(6), of args] by (elim exE conjE) (rule that)
  then show ?thesis
    by (intro exI [of _ "j\<lparr>jb_comets := cms\<rparr>"] exI [of _ sp]) (simp add: Job_broadcast_def raw_body_eq sp Let_def args_def)
qed

theorem broadcast_reaches_all_witness:
  "\<exists>j' speed1. Job_broadcast 4 (Some [7]) 9 demo_job = Some (Ret (None, j')) \<and>
    cm_broadcastChan (jb_comets j' ! 0) = [\<lparr>bq_ProtoOp = 4, bq_Proto = \<lparr>Ver = 1, Op = OpRaw, Seq = 0,
      Body = Some (proto_frame \<lparr>Ver = 1, Op = 4, Seq = 0, Body = Some [7]\<rparr>)\<rparr>, bq_Speed = speed1\<rparr>]"
proof -
  have s: "jb_cometServers demo_job = [(''h'', 0)]" by code_simp
  have c: "cm_broadcastChan (jb_comets demo_job ! 0) = []" "0 < unat (cm_routineSize (jb_comets demo_job ! 0))" "0 < length (jb_comets demo_job)" by code_simp+
  show ?thesis using broadcast_reaches_all [OF demo_job_reachable, of 4 "Some [7]" 9] c by (auto simp: s demo_job_conf_def)
qed

text \<open>
  A push to keys loses its operation. The message that \<open>pushMsgToKeys\<close> sends to a comet wraps the frame of
  a raw message: whatever the operation of the push, the frame that the client gets says \<open>OpRaw\<close>, unlike a
  broadcast.
\<close>

theorem keys_lose_operation:
  assumes "(job_step parse dial)\<^sup>*\<^sup>* (Job_New c) j" and "0 < cc_RoutineSize (jc_Comet c)" and "cc_RoutineSize (jc_Comet c) < 2 ^ 64"
    and "map_of (jb_cometServers j) (pm_Server msg) = Some a" and "pushMsgToKeys msg j = Some (Ret (e, j'))"
  shows "\<exists>i<length (cm_pushChan (jb_comets j ! a)). cm_pushChan (jb_comets j' ! a) ! i = cm_pushChan (jb_comets j ! a) ! i @
    [\<lparr>pq_Keys = pm_Keys msg, pq_ProtoOp = pm_Operation msg,
      pq_Proto = \<lparr>Ver = 1, Op = OpRaw, Seq = 0, Body = Some (proto_frame \<lparr>Ver = 1, Op = OpRaw, Seq = 0, Body = pm_Msg msg\<rparr>)\<rparr>\<rparr>]"
proof -
  have ok: "job_ok j" by (rule job_steps_ok [OF assms(1) Job_New_ok [OF assms(2,3)]])
  have lt: "a < length (jb_comets j)" using ok assms(4) by (simp add: job_ok_def servers_ok_def)
  then have "comet_ok (jb_comets j ! a)" using ok by (simp add: job_ok_def)
  then have q: "\<forall>q\<in>set (cm_pushChan (jb_comets j ! a)). length q \<le> cm_routineChan (jb_comets j ! a)" by (simp add: comet_ok_def)
  let ?arg = "\<lparr>pq_Keys = pm_Keys msg, pq_ProtoOp = pm_Operation msg,
      pq_Proto = \<lparr>Ver = 1, Op = OpRaw, Seq = 0, Body = Some (proto_frame \<lparr>Ver = 1, Op = OpRaw, Seq = 0, Body = pm_Msg msg\<rparr>)\<rparr>\<rparr>"
  obtain cm where cm: "Comet_Push ?arg (jb_comets j ! a) = Some (Ret cm)" "j' = j\<lparr>jb_comets := (jb_comets j)[a := cm]\<rparr>"
    using assms(4,5) by (auto simp: pushMsgToKeys_def raw_body_eq on_comet_def Let_def outcome_simps)
  obtain i chans where "send_at (cm_routineChan (jb_comets j ! a)) i ?arg (cm_pushChan (jb_comets j ! a)) = Some (Ret chans)" "cm_pushChan cm = chans"
    using cm(1) by (auto simp: Comet_Push_def Let_def outcome_simps split: if_splits)
  from send_at_ok [OF this(1) q] this(2) show ?thesis using cm(2) lt by (intro exI [of _ i]) simp
qed

theorem keys_lose_operation_witness:
  "\<exists>j' i. pushMsgToKeys (demo_push PUSH) demo_job = Some (Ret (None, j')) \<and> cm_pushChan (jb_comets j' ! 0) ! i =
    cm_pushChan (jb_comets demo_job ! 0) ! i @ [\<lparr>pq_Keys = [''k''], pq_ProtoOp = 4,
      pq_Proto = \<lparr>Ver = 1, Op = OpRaw, Seq = 0, Body = Some (proto_frame \<lparr>Ver = 1, Op = OpRaw, Seq = 0, Body = Some [7]\<rparr>)\<rparr>\<rparr>]"
proof -
  have s: "map_of (jb_cometServers demo_job) (pm_Server (demo_push PUSH)) = Some 0" by code_simp
  have "(case pushMsgToKeys (demo_push PUSH) demo_job of Some (Ret (e, _)) \<Rightarrow> e = None | _ \<Rightarrow> False)" by code_simp
  then obtain j' where j': "pushMsgToKeys (demo_push PUSH) demo_job = Some (Ret (None, j'))" by (auto split: option.splits outcome.splits)
  show ?thesis using keys_lose_operation [OF demo_job_reachable _ _ s j'] j' by (auto simp: demo_job_conf_def demo_push_def)
qed

end
