(* ===== verification/Logic_Core.thy ===== *)
theory Logic_Core
  imports Logic_Dao Logic_Balancer Job
begin

text \<open>
  \<open>internal/logic\<close> (\<open>conn.go\<close>, \<open>push.go\<close>, \<open>online.go\<close>, \<open>nodes.go\<close>, \<open>logic.go\<close>), its gRPC server, its HTTP handlers and
  \<open>model/room.go\<close>. Parameters: Redis (\<open>pipe\<close>), the encodings in JSON and as protocol buffers, \<open>url.Parse\<close>, the
  queue (\<open>publish\<close>), fresh UUIDs, floating point (\<open>fl\<close>), \<open>sort.Slice\<close> (\<open>srt\<close>), and what a request's query and body
  contain. Times are in nanoseconds. Logging is left out.
\<close>

section \<open>Room keys\<close>

definition EncodeRoomKey :: "string \<Rightarrow> string \<Rightarrow> string" where
  "EncodeRoomKey typ room = typ @ ''://'' @ room"

text \<open>\<open>url_parse\<close> gives the scheme and the host.\<close>

definition DecodeRoomKey :: "(string \<Rightarrow> error + string \<times> string) \<Rightarrow> string \<Rightarrow> error + string \<times> string" where
  "DecodeRoomKey url_parse key = (case url_parse key of Inl e \<Rightarrow> Inl e | Inr (scheme, host) \<Rightarrow> Inr (scheme, host))"

section \<open>State\<close>

record 'f LogicConf =
  lc_DefaultDomain :: string
  lc_HostDomain :: string
  lc_TCPPort :: int64
  lc_WSPort :: int64
  lc_WSSPort :: int64
  lc_HeartbeatMax :: int64
  lc_Heartbeat :: int64
  lc_RegionWeight :: 'f
  lc_Regions :: "(string \<times> string list) list"
  lc_RedisExpire :: int64
  lc_Stream :: string
  lc_Backoff :: "int32 \<times> int32 \<times> 'f \<times> 'f"

record Logic =
  lg_totalIPs :: int64
  lg_totalConns :: int64
  lg_roomCount :: "(string \<times> int32) list"
  lg_nodes :: "naming_Instance list"
  lg_loadBalancer :: LoadBalancer
  lg_regions :: "(string \<times> string) list"

text \<open>\<open>int32(d / time.Second)\<close>\<close>

definition in_seconds :: "int64 \<Rightarrow> int32" where
  "in_seconds d = of_int (sgn (sint d) * (\<bar>sint d\<bar> div 1000000000))"

definition redisExpire :: "'f LogicConf \<Rightarrow> int32" where
  "redisExpire c = in_seconds (lc_RedisExpire c)"

definition initRegions :: "(string \<times> string list) list \<Rightarrow> (string \<times> string) list" where
  "initRegions rs = fold (\<lambda>(region, ps) m. fold (\<lambda>province. AList.update province region) ps m) rs []"

definition Logic_init :: "'f LogicConf \<Rightarrow> Logic" where
  "Logic_init c = \<lparr>lg_totalIPs = 0, lg_totalConns = 0, lg_roomCount = [], lg_nodes = [], lg_loadBalancer = NewLoadBalancer,
     lg_regions = initRegions (lc_Regions c)\<rparr>"

section \<open>Connections\<close>

record ConnParams =
  cp_Mid :: int64
  cp_Key :: string
  cp_RoomID :: string
  cp_Platform :: string
  cp_Accepts :: "int32 list"

record Connected =
  cn_Mid :: int64
  cn_Key :: string
  cn_RoomID :: string
  cn_Accepts :: "int32 list"
  cn_Heartbeat :: int64

definition no_conn :: Connected where
  "no_conn = \<lparr>cn_Mid = 0, cn_Key = [], cn_RoomID = [], cn_Accepts = [], cn_Heartbeat = 0\<rparr>"

definition Logic_Connect ::
    "'f LogicConf \<Rightarrow> 'r redis_pipe \<Rightarrow> (byte list \<Rightarrow> error + ConnParams) \<Rightarrow> string \<Rightarrow> string \<Rightarrow> byte list \<Rightarrow> 'r \<Rightarrow> (Connected \<times> error option) \<times> 'r" where
  "Logic_Connect c pipe json uuid server token r =
     (case json token of
        Inl e \<Rightarrow> ((no_conn, Some e), r)
      | Inr params \<Rightarrow>
          (let key = (if cp_Key params = [] then uuid else cp_Key params);
               (err, r') = AddMapping pipe (redisExpire c) (cp_Mid params) key server r
           in ((\<lparr>cn_Mid = cp_Mid params, cn_Key = key, cn_RoomID = cp_RoomID params, cn_Accepts = cp_Accepts params,
                 cn_Heartbeat = lc_Heartbeat c * lc_HeartbeatMax c\<rparr>, err), r')))"

definition Logic_Disconnect :: "'r redis_pipe \<Rightarrow> int64 \<Rightarrow> string \<Rightarrow> string \<Rightarrow> 'r \<Rightarrow> (bool \<times> error option) \<times> 'r" where
  "Logic_Disconnect pipe mid key server r = DelMapping pipe mid key server r"

definition Logic_Heartbeat :: "'f LogicConf \<Rightarrow> 'r redis_pipe \<Rightarrow> int64 \<Rightarrow> string \<Rightarrow> string \<Rightarrow> 'r \<Rightarrow> error option \<times> 'r" where
  "Logic_Heartbeat c pipe mid key server r =
     (case ExpireMapping pipe (redisExpire c) mid key r of
        ((has, Some e), r') \<Rightarrow> (Some e, r')
      | ((has, None), r') \<Rightarrow> if has then (None, r') else AddMapping pipe (redisExpire c) mid key server r')"

definition Logic_RenewOnline ::
    "'f LogicConf \<Rightarrow> 'r redis_pipe \<Rightarrow> (Online \<Rightarrow> string) \<Rightarrow> (byte list \<Rightarrow> 32 word \<Rightarrow> 32 word) \<Rightarrow> int \<Rightarrow> Logic \<Rightarrow> string \<Rightarrow> (string \<times> int32) list \<Rightarrow> 'r \<Rightarrow>
     ((string \<times> int32) list \<times> error option) \<times> 'r" where
  "Logic_RenewOnline c pipe enc cityhash now l server roomCount r =
     (let online = \<lparr>ol_Server = server, ol_RoomCount = roomCount, ol_Updated = now div 1000000000\<rparr>
      in case AddServerOnline pipe (redisExpire c) enc cityhash server online r of
           (Some e, r') \<Rightarrow> (([], Some e), r')
         | (None, r') \<Rightarrow> ((lg_roomCount l, None), r'))"

definition Logic_Receive :: "int64 \<Rightarrow> Proto \<Rightarrow> error option" where
  "Logic_Receive mid p = None"

section \<open>Publishing\<close>

text \<open>What the logic process needs of the queue and of the encoding of its messages.\<close>

record 'q queue =
  q_marshal :: "PushMsg \<Rightarrow> error + byte list"
  q_publish :: "string \<Rightarrow> byte list \<Rightarrow> 'q \<Rightarrow> error option \<times> 'q"

definition nats_send :: "'q queue \<Rightarrow> string \<Rightarrow> PushMsg \<Rightarrow> 'q \<Rightarrow> error option \<times> 'q" where
  "nats_send qs stream m q = (case q_marshal qs m of Inl e \<Rightarrow> (Some e, q) | Inr b \<Rightarrow> q_publish qs stream b q)"

definition NatsPusher_PushMsg :: "'q queue \<Rightarrow> string \<Rightarrow> int32 \<Rightarrow> string \<Rightarrow> string list \<Rightarrow> byte list option \<Rightarrow> 'q \<Rightarrow> error option \<times> 'q" where
  "NatsPusher_PushMsg qs stream op server keys msg q =
     nats_send qs stream \<lparr>pm_Type = PUSH, pm_Operation = op, pm_Speed = 0, pm_Server = server, pm_Room = [], pm_Keys = keys, pm_Msg = msg\<rparr> q"

definition NatsPusher_BroadcastRoomMsg :: "'q queue \<Rightarrow> string \<Rightarrow> int32 \<Rightarrow> string \<Rightarrow> byte list option \<Rightarrow> 'q \<Rightarrow> error option \<times> 'q" where
  "NatsPusher_BroadcastRoomMsg qs stream op room msg q =
     nats_send qs stream \<lparr>pm_Type = ROOM, pm_Operation = op, pm_Speed = 0, pm_Server = [], pm_Room = room, pm_Keys = [], pm_Msg = msg\<rparr> q"

definition NatsPusher_BroadcastMsg :: "'q queue \<Rightarrow> string \<Rightarrow> int32 \<Rightarrow> int32 \<Rightarrow> byte list option \<Rightarrow> 'q \<Rightarrow> error option \<times> 'q" where
  "NatsPusher_BroadcastMsg qs stream op speed msg q =
     nats_send qs stream \<lparr>pm_Type = BROADCAST, pm_Operation = op, pm_Speed = speed, pm_Server = [], pm_Room = [], pm_Keys = [], pm_Msg = msg\<rparr> q"

section \<open>Pushing\<close>

text \<open>\<open>m[server] = append(m[server], key)\<close>\<close>

definition group_add :: "string \<Rightarrow> string \<Rightarrow> (string \<times> string list) list \<Rightarrow> (string \<times> string list) list" where
  "group_add server key m = AList.update server ((case map_of m server of None \<Rightarrow> [] | Some ks \<Rightarrow> ks) @ [key]) m"

fun group_keys :: "string list \<Rightarrow> string list \<Rightarrow> (string \<times> string list) list \<Rightarrow> (string \<times> string list) list outcome" where
  "group_keys [] servers m = Ret m"
| "group_keys (key # keys) [] m = Panic IndexOutOfRange"
| "group_keys (key # keys) (server # servers) m =
     group_keys keys servers (if server \<noteq> [] \<and> key \<noteq> [] then group_add server key m else m)"

fun push_groups :: "'q queue \<Rightarrow> string \<Rightarrow> int32 \<Rightarrow> byte list option \<Rightarrow> (string \<times> string list) list \<Rightarrow> 'q \<Rightarrow> error option \<times> 'q" where
  "push_groups qs stream op msg [] q = (None, q)"
| "push_groups qs stream op msg ((server, keys) # gs) q =
     (case NatsPusher_PushMsg qs stream op server keys msg q of
        (Some e, q') \<Rightarrow> (Some e, q')
      | (None, q') \<Rightarrow> push_groups qs stream op msg gs q')"

definition PushKeys ::
    "'f LogicConf \<Rightarrow> 'r redis_pipe \<Rightarrow> 'q queue \<Rightarrow> int32 \<Rightarrow> string list \<Rightarrow> byte list option \<Rightarrow> 'r \<times> 'q \<Rightarrow> (error option \<times> 'r \<times> 'q) outcome" where
  "PushKeys c pipe qs op keys msg rq =
     (case ServersByKeys pipe keys (fst rq) of
        ((servers, Some e), r') \<Rightarrow> Ret (Some e, r', snd rq)
      | ((servers, None), r') \<Rightarrow>
          obind (group_keys keys servers []) (\<lambda>m.
            let (err, q') = push_groups qs (lc_Stream c) op msg m (snd rq) in Ret (err, r', q')))"

definition PushMids ::
    "'f LogicConf \<Rightarrow> 'r redis_pipe \<Rightarrow> 'q queue \<Rightarrow> int32 \<Rightarrow> int64 list \<Rightarrow> byte list option \<Rightarrow> 'r \<times> 'q \<Rightarrow> error option \<times> 'r \<times> 'q" where
  "PushMids c pipe qs op mids msg rq =
     (case KeysByMids pipe mids (fst rq) of
        ((keyServers, ol, Some e), r') \<Rightarrow> (Some e, r', snd rq)
      | ((keyServers, ol, None), r') \<Rightarrow>
          (let m = fold (\<lambda>(key, server) m. if key = [] \<or> server = [] then m else group_add server key m) keyServers [];
               (err, q') = push_groups qs (lc_Stream c) op msg m (snd rq)
           in (err, r', q')))"

definition PushRoom :: "'f LogicConf \<Rightarrow> 'q queue \<Rightarrow> int32 \<Rightarrow> string \<Rightarrow> string \<Rightarrow> byte list option \<Rightarrow> 'q \<Rightarrow> error option \<times> 'q" where
  "PushRoom c qs op typ room msg q = NatsPusher_BroadcastRoomMsg qs (lc_Stream c) op (EncodeRoomKey typ room) msg q"

definition PushAll :: "'f LogicConf \<Rightarrow> 'q queue \<Rightarrow> int32 \<Rightarrow> int32 \<Rightarrow> byte list option \<Rightarrow> 'q \<Rightarrow> error option \<times> 'q" where
  "PushAll c qs op speed msg q = NatsPusher_BroadcastMsg qs (lc_Stream c) op speed msg q"

section \<open>Nodes\<close>

definition ParseBool :: "string \<Rightarrow> strconv_error + bool" where
  "ParseBool s =
     (if s \<in> set [''1'', ''t'', ''T'', ''true'', ''TRUE'', ''True''] then Inr True
      else if s \<in> set [''0'', ''f'', ''F'', ''false'', ''FALSE'', ''False''] then Inr False
      else Inl ErrSyntax)"

text \<open>The connections and the IPs of an instance that is taken; \<open>None\<close> if it is passed over.\<close>

definition node_counts :: "naming_Instance \<Rightarrow> (int64 \<times> int64) option" where
  "node_counts ins =
     (if ni_Metadata ins = None then None
      else case ParseBool (meta ins MetaOffline) of
        Inl e \<Rightarrow> None
      | Inr offline \<Rightarrow>
          if offline then None
          else case ParseInt (meta ins MetaConnCount) 32 of
            Inl e \<Rightarrow> None
          | Inr conns \<Rightarrow>
              (case ParseInt (meta ins MetaIPCount) 32 of Inl e \<Rightarrow> None | Inr ips \<Rightarrow> Some (of_int conns, of_int ips)))"

definition count_node :: "naming_Instance \<Rightarrow> int64 \<times> int64 \<times> naming_Instance list \<Rightarrow> int64 \<times> int64 \<times> naming_Instance list" where
  "count_node ins acc =
     (case acc of (totalConns, totalIPs, allIns) \<Rightarrow>
        (case node_counts ins of
           None \<Rightarrow> acc
         | Some (conns, ips) \<Rightarrow> (totalConns + conns, totalIPs + ips, allIns @ [ins])))"

text \<open>\<open>fetched\<close> is the result of \<open>res.Fetch()\<close>: the instances by zone.\<close>

definition newNodes :: "(string \<times> naming_Instance list) list option \<Rightarrow> Logic \<Rightarrow> Logic" where
  "newNodes fetched l =
     (case fetched of
        None \<Rightarrow> l
      | Some zones \<Rightarrow>
          (let (totalConns, totalIPs, allIns) = fold (\<lambda>(zone, zins). fold count_node zins) zones (0, 0, [])
           in l\<lparr>lg_totalConns := totalConns, lg_totalIPs := totalIPs, lg_nodes := allIns,
                lg_loadBalancer := LoadBalancer_Update allIns (lg_loadBalancer l)\<rparr>))"

definition NodesInstances :: "Logic \<Rightarrow> naming_Instance list" where "NodesInstances l = lg_nodes l"

text \<open>\<open>location\<close> returns an empty province and no error, whatever the address.\<close>

definition location :: "string \<Rightarrow> string \<times> error option" where "location clientIP = ([], None)"

definition nodeAddrs :: "'f LogicConf \<Rightarrow> 'f float64 \<Rightarrow> slice_sort \<Rightarrow> string \<Rightarrow> Logic \<Rightarrow> (string list \<times> string list) \<times> Logic" where
  "nodeAddrs c fl srt clientIP l =
     (let (province, err) = location clientIP;
          region = (if err = None then case map_of (lg_regions l) province of None \<Rightarrow> [] | Some reg \<Rightarrow> reg else []);
          (res, lb) = NodeAddrs fl srt region (lc_HostDomain c) (lc_RegionWeight c) (lg_loadBalancer l)
      in (res, l\<lparr>lg_loadBalancer := lb\<rparr>))"

record 'f NodesReply =
  nr_Domain :: string
  nr_TcpPort :: int32
  nr_WsPort :: int32
  nr_WssPort :: int32
  nr_Heartbeat :: int32
  nr_Nodes :: "string list"
  nr_Backoff :: "int32 \<times> int32 \<times> 'f \<times> 'f"
  nr_HeartbeatMax :: int32

definition PlatformWeb :: string where "PlatformWeb = ''web''"

definition NodesWeighted :: "'f LogicConf \<Rightarrow> 'f float64 \<Rightarrow> slice_sort \<Rightarrow> string \<Rightarrow> string \<Rightarrow> Logic \<Rightarrow> 'f NodesReply \<times> Logic" where
  "NodesWeighted c fl srt platform clientIP l =
     (let ((domains, addrs), l') = nodeAddrs c fl srt clientIP l;
          nodes = (if platform = PlatformWeb then domains else addrs)
      in (\<lparr>nr_Domain = lc_DefaultDomain c, nr_TcpPort = ucast (lc_TCPPort c), nr_WsPort = ucast (lc_WSPort c), nr_WssPort = ucast (lc_WSSPort c),
           nr_Heartbeat = in_seconds (lc_Heartbeat c), nr_Nodes = (if nodes = [] then [lc_DefaultDomain c] else nodes),
           nr_Backoff = lc_Backoff c, nr_HeartbeatMax = ucast (lc_HeartbeatMax c)\<rparr>, l'))"

section \<open>Who is online\<close>

definition onlineDeadline :: int where "onlineDeadline = 300 * 1000000000"

definition online_count :: "(string \<times> int32) list \<Rightarrow> string \<Rightarrow> int32" where
  "online_count m room = (case map_of m room of None \<Rightarrow> 0 | Some n \<Rightarrow> n)"

definition add_counts :: "(string \<times> int32) list \<Rightarrow> (string \<times> int32) list \<Rightarrow> (string \<times> int32) list" where
  "add_counts rc acc = fold (\<lambda>(room, n) m. AList.update room (online_count m room + n) m) rc acc"

fun load_nodes ::
    "'r redis_pipe \<Rightarrow> (string \<Rightarrow> error + Online) \<Rightarrow> int \<Rightarrow> naming_Instance list \<Rightarrow> (string \<times> int32) list \<Rightarrow> 'r \<Rightarrow> (error + (string \<times> int32) list) \<times> 'r" where
  "load_nodes pipe dec now [] acc r = (Inr acc, r)"
| "load_nodes pipe dec now (server # rest) acc r =
     (case ServerOnline pipe dec (ni_Hostname server) r of
        ((online, Some e), r1) \<Rightarrow> (Inl e, r1)
      | ((online, None), r1) \<Rightarrow>
          if now - ol_Updated online * 1000000000 > onlineDeadline
          then load_nodes pipe dec now rest acc (snd (DelServerOnline pipe (ni_Hostname server) r1))
          else load_nodes pipe dec now rest (add_counts (ol_RoomCount online) acc) r1)"

definition loadOnline :: "'r redis_pipe \<Rightarrow> (string \<Rightarrow> error + Online) \<Rightarrow> int \<Rightarrow> Logic \<Rightarrow> 'r \<Rightarrow> error option \<times> Logic \<times> 'r" where
  "loadOnline pipe dec now l r =
     (case load_nodes pipe dec now (lg_nodes l) [] r of
        (Inl e, r') \<Rightarrow> (Some e, l, r')
      | (Inr roomCount, r') \<Rightarrow> (None, l\<lparr>lg_roomCount := roomCount\<rparr>, r'))"

record Top =
  tp_RoomID :: string
  tp_Count :: int32

definition prefixed_rooms :: "(string \<Rightarrow> error + string \<times> string) \<Rightarrow> string \<Rightarrow> Logic \<Rightarrow> Top list" where
  "prefixed_rooms url_parse typ l =
     List.map_filter (\<lambda>(key, cnt).
       if strings_HasPrefix key typ
       then case DecodeRoomKey url_parse key of Inl e \<Rightarrow> None | Inr (_, roomID) \<Rightarrow> Some \<lparr>tp_RoomID = roomID, tp_Count = cnt\<rparr>
       else None) (lg_roomCount l)"

definition OnlineTop ::
    "(string \<Rightarrow> error + string \<times> string) \<Rightarrow> ((Top \<Rightarrow> int) \<Rightarrow> Top list \<Rightarrow> Top list) \<Rightarrow> string \<Rightarrow> int \<Rightarrow> Logic \<Rightarrow> Top list outcome" where
  "OnlineTop url_parse srt typ n l =
     (let tops = srt (\<lambda>t. sint (tp_Count t)) (prefixed_rooms url_parse typ l)
      in if int (length tops) > n then if n < 0 then Panic SliceBounds else Ret (take (nat n) tops)
         else Ret tops)"

definition OnlineRoom :: "string \<Rightarrow> string list \<Rightarrow> Logic \<Rightarrow> (string \<times> int32) list" where
  "OnlineRoom typ rooms l = fold (\<lambda>room. AList.update room (online_count (lg_roomCount l) (EncodeRoomKey typ room))) rooms []"

definition OnlineTotal :: "Logic \<Rightarrow> int64 \<times> int64" where
  "OnlineTotal l = (lg_totalIPs l, lg_totalConns l)"

section \<open>Grouping by server\<close>

text \<open>The specification: every server of a key once, in the order of first appearance, with its keys in their order.\<close>

definition ref_groups :: "(string \<Rightarrow> string) \<Rightarrow> string list \<Rightarrow> (string \<times> string list) list" where
  "ref_groups route keys =
     map (\<lambda>s. (s, filter (\<lambda>k. k \<noteq> [] \<and> route k = s) keys))
       (rev (remdups (rev (map route (filter (\<lambda>k. k \<noteq> [] \<and> route k \<noteq> []) keys)))))"

lemma AList_update_map:
  "distinct ss \<Longrightarrow> s \<in> set ss \<Longrightarrow> AList.update s v (map (\<lambda>x. (x, f x)) ss) = map (\<lambda>x. (x, if x = s then v else f x)) ss"
  by (induction ss) auto

lemma group_keys_fold:
  "group_keys keys (map route keys) m = Ret (fold (\<lambda>k m. if route k \<noteq> [] \<and> k \<noteq> [] then group_add (route k) k m else m) keys m)"
  by (induction keys arbitrary: m) auto

lemma fold_ref_groups:
  "fold (\<lambda>k m. if route k \<noteq> [] \<and> k \<noteq> [] then group_add (route k) k m else m) keys [] = ref_groups route keys"
proof (induction keys rule: rev_induct)
  case (snoc k ks)
  define ss where "ss = rev (remdups (rev (map route (filter (\<lambda>k. k \<noteq> [] \<and> route k \<noteq> []) ks))))"
  have ref: "ref_groups route ks = map (\<lambda>s. (s, filter (\<lambda>k. k \<noteq> [] \<and> route k = s) ks)) ss" by (simp add: ref_groups_def ss_def)
  have d: "distinct ss" by (simp add: ss_def)
  have ss: "set ss = route ` {k \<in> set ks. k \<noteq> [] \<and> route k \<noteq> []}" by (auto simp: ss_def)
  show ?case
  proof (cases "route k \<noteq> [] \<and> k \<noteq> []")
    case False
    then have "ref_groups route (ks @ [k]) = map (\<lambda>s. (s, filter (\<lambda>k. k \<noteq> [] \<and> route k = s) (ks @ [k]))) ss" by (auto simp: ref_groups_def ss_def)
    also have "\<dots> = ref_groups route ks" using False ss by (auto simp: ref)
    finally show ?thesis using snoc False by auto
  next
    case True
    show ?thesis
    proof (cases "route k \<in> set ss")
      case True
      then have "ref_groups route (ks @ [k]) = map (\<lambda>s. (s, filter (\<lambda>k. k \<noteq> [] \<and> route k = s) (ks @ [k]))) ss"
        using \<open>route k \<noteq> [] \<and> k \<noteq> []\<close> by (auto simp: ref_groups_def ss_def)
      moreover have "map_of (ref_groups route ks) (route k) = Some (filter (\<lambda>k'. k' \<noteq> [] \<and> route k' = route k) ks)"
        using True by (simp add: ref map_of_map_restrict)
      ultimately show ?thesis using snoc True \<open>route k \<noteq> [] \<and> k \<noteq> []\<close> d
        by (auto simp: group_add_def ref AList_update_map)
    next
      case False
      then have "ref_groups route (ks @ [k]) = map (\<lambda>s. (s, filter (\<lambda>k. k \<noteq> [] \<and> route k = s) (ks @ [k]))) (ss @ [route k])"
        using \<open>route k \<noteq> [] \<and> k \<noteq> []\<close> by (auto simp: ref_groups_def ss_def)
      moreover have "map_of (ref_groups route ks) (route k) = None" "route k \<notin> fst ` set (ref_groups route ks)"
        using False by (auto simp: ref map_of_eq_None_iff)
      moreover have "filter (\<lambda>k'. k' \<noteq> [] \<and> route k' = route k) ks = []" using False ss \<open>route k \<noteq> [] \<and> k \<noteq> []\<close> by (simp add: filter_empty_conv image_iff) metis
      moreover have "\<forall>s\<in>set ss. s \<noteq> route k" using False by blast
      ultimately show ?thesis using snoc \<open>route k \<noteq> [] \<and> k \<noteq> []\<close>
        by (auto simp: group_add_def AList_update_new ref)
    qed
  qed
qed (simp add: ref_groups_def)

section \<open>Loading the counts\<close>

definition online_at :: "(string \<Rightarrow> error + Online) \<Rightarrow> rdb \<Rightarrow> string \<Rightarrow> Online" where
  "online_at dec d server =
     fold (\<lambda>i. merge_part (stored dec (snd d (keyServerOnline server)) i)) [0..<64] \<lparr>ol_Server = [], ol_RoomCount = [], ol_Updated = 0\<rparr>"

context redis_up
begin

lemma ServerOnline_up:
  assumes "fst (view r) (keyServerOnline server) = None"
  shows "\<exists>r'. view r' = view r \<and> ServerOnline pipe dec server r = ((online_at dec (view r) server, None), r')"
  using read_shards_up [OF assms, of dec "[0..<64]" "\<lparr>ol_Server = [], ol_RoomCount = [], ol_Updated = 0\<rparr>"]
  by (auto simp: ServerOnline_def online_at_def)

lemma DelServerOnline_up:
  "\<exists>r'. DelServerOnline pipe server r = (None, r') \<and> view r' = cmd_effect (DEL (keyServerOnline server)) (view r)"
proof -
  obtain v r' where p: "pipe [DEL (keyServerOnline server)] r = (Inr [Inr v], r')" using del_up by blast
  then show ?thesis using pipe_replies [OF p] by (simp add: DelServerOnline_def)
qed

end

lemma merge_part_distinct: "distinct (map fst (ol_RoomCount online)) \<Longrightarrow> distinct (map fst (ol_RoomCount (merge_part p online)))"
proof -
  have "distinct (map fst m) \<Longrightarrow> distinct (map fst (fold (\<lambda>(k, v). AList.update k v) xs m))" for xs and m :: "(string \<times> int32) list"
    by (induction xs arbitrary: m) (auto simp: distinct_update)
  then show "distinct (map fst (ol_RoomCount online)) \<Longrightarrow> ?thesis" by (auto simp: merge_part_def split: option.splits)
qed

lemma online_at_distinct: "distinct (map fst (ol_RoomCount (online_at dec d server)))"
proof -
  have "distinct (map fst (ol_RoomCount online)) \<Longrightarrow> distinct (map fst (ol_RoomCount (fold (\<lambda>i. merge_part (p i)) is online)))" for "is" online and p :: "nat \<Rightarrow> Online option"
    by (induction "is" arbitrary: online) (auto simp: merge_part_distinct)
  then show ?thesis by (simp add: online_at_def del: upt_Suc upt_rec_numeral)
qed

lemma add_counts_count: "distinct (map fst rc) \<Longrightarrow> online_count (add_counts rc acc) room = online_count acc room + online_count rc room"
proof (induction rc arbitrary: acc)
  case (Cons x rc)
  obtain k n where x: "x = (k, n)" by (cases x)
  have "map_of rc k = None" using Cons.prems x by (auto simp: map_of_eq_None_iff)
  moreover have "add_counts (x # rc) acc = add_counts rc (AList.update k (online_count acc k + n) acc)" by (simp add: add_counts_def x)
  ultimately show ?case using Cons x by (auto simp: online_count_def update_conv')
qed (simp add: add_counts_def online_count_def)

lemma online_at_other:
  "snd d' (keyServerOnline server) = snd d (keyServerOnline server) \<Longrightarrow> online_at dec d' server = online_at dec d server"
  by (simp add: online_at_def)

definition fresh_server :: "(string \<Rightarrow> error + Online) \<Rightarrow> rdb \<Rightarrow> int \<Rightarrow> naming_Instance \<Rightarrow> bool" where
  "fresh_server dec d now s \<longleftrightarrow> now - ol_Updated (online_at dec d (ni_Hostname s)) * 1000000000 \<le> onlineDeadline"

lemma load_nodes_sums:
  assumes up: "redis_up pipe view" and "distinct (map ni_Hostname ns)" and "\<forall>s\<in>set ns. fst (view r) (keyServerOnline (ni_Hostname s)) = None"
  shows "\<exists>acc' r'. load_nodes pipe dec now ns acc r = (Inr acc', r') \<and>
    (\<forall>room. online_count acc' room = online_count acc room +
      (\<Sum>s\<leftarrow>filter (fresh_server dec (view r) now) ns. online_count (ol_RoomCount (online_at dec (view r) (ni_Hostname s))) room)) \<and>
    (\<forall>s\<in>set ns. \<not> fresh_server dec (view r) now s \<longrightarrow> snd (view r') (keyServerOnline (ni_Hostname s)) = Map.empty) \<and>
    (\<forall>k. k \<notin> (keyServerOnline \<circ> ni_Hostname) ` set ns \<longrightarrow> snd (view r') k = snd (view r) k)"
  using assms(2,3)
proof (induction ns arbitrary: acc r)
  case (Cons s ns)
  let ?k = "keyServerOnline (ni_Hostname s)"
  obtain r1 where r1: "view r1 = view r" "ServerOnline pipe dec (ni_Hostname s) r = ((online_at dec (view r) (ni_Hostname s), None), r1)"
    using redis_up.ServerOnline_up [OF up, of r "ni_Hostname s" dec] Cons.prems(2) by auto
  have other: "ni_Hostname x \<noteq> ni_Hostname s" if "x \<in> set ns" for x using Cons.prems(1) that by (auto simp: image_iff)
  show ?case
  proof (cases "fresh_server dec (view r) now s")
    case True
    then have "load_nodes pipe dec now (s # ns) acc r = load_nodes pipe dec now ns (add_counts (ol_RoomCount (online_at dec (view r) (ni_Hostname s))) acc) r1"
      using r1 by (simp add: fresh_server_def)
    then show ?thesis
      using Cons.IH [of r1 "add_counts (ol_RoomCount (online_at dec (view r) (ni_Hostname s))) acc"] Cons.prems r1(1) True
      by (auto simp: add_counts_count [OF online_at_distinct] add.assoc)
  next
    case False
    obtain r2 where r2: "DelServerOnline pipe (ni_Hostname s) r1 = (None, r2)" "view r2 = cmd_effect (DEL ?k) (view r)"
      using redis_up.DelServerOnline_up [OF up, of "ni_Hostname s" r1] r1(1) by auto
    have load: "load_nodes pipe dec now (s # ns) acc r = load_nodes pipe dec now ns acc r2"
      using False r1 r2(1) by (simp add: fresh_server_def)
    have v2: "fst (view r2) k = (if k = ?k then None else fst (view r) k)" "snd (view r2) k = (if k = ?k then Map.empty else snd (view r) k)" for k
      using r2(2) by (cases "view r"; simp)+
    have same: "online_at dec (view r2) (ni_Hostname x) = online_at dec (view r) (ni_Hostname x)" if "x \<in> set ns" for x
      using other [OF that] by (intro online_at_other) (simp add: v2)
    then have fresh: "x \<in> set ns \<Longrightarrow> fresh_server dec (view r2) now x = fresh_server dec (view r) now x" for x
      by (simp add: fresh_server_def)
    have "filter (fresh_server dec (view r2) now) ns = filter (fresh_server dec (view r) now) ns" by (rule filter_cong [OF refl fresh])
    moreover have sums: "(\<Sum>s\<leftarrow>filter (fresh_server dec (view r2) now) ns. online_count (ol_RoomCount (online_at dec (view r2) (ni_Hostname s))) room) =
      (\<Sum>s\<leftarrow>filter (fresh_server dec (view r) now) ns. online_count (ol_RoomCount (online_at dec (view r) (ni_Hostname s))) room)" for room
      unfolding calculation by (rule arg_cong [where f = sum_list], rule map_cong [OF refl]) (simp add: same)
    moreover have "?k \<notin> (keyServerOnline \<circ> ni_Hostname) ` set ns" unfolding image_iff comp_def using other by (metis keys_apart(3))
    moreover have "distinct (map ni_Hostname ns)" "\<forall>s\<in>set ns. fst (view r2) (keyServerOnline (ni_Hostname s)) = None"
      using Cons.prems by (auto simp: v2)
    from Cons.IH [OF this, of acc]
    obtain acc' r' where ih: "load_nodes pipe dec now ns acc r2 = (Inr acc', r')"
      "\<forall>room. online_count acc' room = online_count acc room +
        (\<Sum>s\<leftarrow>filter (fresh_server dec (view r2) now) ns. online_count (ol_RoomCount (online_at dec (view r2) (ni_Hostname s))) room)"
      "\<forall>s\<in>set ns. \<not> fresh_server dec (view r2) now s \<longrightarrow> snd (view r') (keyServerOnline (ni_Hostname s)) = Map.empty"
      "\<forall>k. k \<notin> (keyServerOnline \<circ> ni_Hostname) ` set ns \<longrightarrow> snd (view r') k = snd (view r2) k"
      by (elim exE conjE) (rule that)
    ultimately show ?thesis
    proof (intro exI conjI)
      show "load_nodes pipe dec now (s # ns) acc r = (Inr acc', r')" using load ih(1) by simp
      show "\<forall>x\<in>set (s # ns). \<not> fresh_server dec (view r) now x \<longrightarrow> snd (view r') (keyServerOnline (ni_Hostname x)) = Map.empty"
        using ih(3,4) fresh \<open>?k \<notin> (keyServerOnline \<circ> ni_Hostname) ` set ns\<close> v2(2) [of ?k] by simp
      show "\<forall>k. k \<notin> (keyServerOnline \<circ> ni_Hostname) ` set (s # ns) \<longrightarrow> snd (view r') k = snd (view r) k"
        using ih(4) v2(2) by simp
    qed (use False ih(2) in \<open>simp add: sums del: sum_list.Cons\<close>)
  qed
qed simp

section \<open>Properties\<close>


definition list_queue :: "(string \<times> byte list) list queue" where
  "list_queue = \<lparr>q_marshal = \<lambda>m. Inr (go_bytes (pm_Server m @ concat (pm_Keys m))), q_publish = \<lambda>stream b q. (None, q @ [(stream, b)])\<rparr>"

definition demo_logic_conf :: "rat LogicConf" where
  "demo_logic_conf = \<lparr>lc_DefaultDomain = ''d'', lc_HostDomain = ''.x'', lc_TCPPort = 1, lc_WSPort = 2, lc_WSSPort = 3, lc_HeartbeatMax = 2,
     lc_Heartbeat = 240000000000, lc_RegionWeight = 2, lc_Regions = [], lc_RedisExpire = 1800000000000, lc_Stream = ''push'', lc_Backoff = (1, 1, 1, 1)\<rparr>"


text \<open>
  C39 (a late disconnect). A \<open>Disconnect\<close> removes the server of a key whatever that server is: when a client has
  connected again elsewhere under the same key, the late \<open>Disconnect\<close> of the old connection leaves the new one
  without a server, and a push to the key publishes nothing. The next heartbeat of the new connection enters
  its server again.
\<close>

theorem late_disconnect:
  assumes db: "redis_db pipe view" and e: "0 < sint (redisExpire c)"
    and conn: "AddMapping pipe (redisExpire c) mid key new r = (None, r1)"
    and dis: "Logic_Disconnect pipe mid key old r1 = ((has, None), r2)"
    and serv: "ServersByKeys pipe [key] r2 = ((servers, None), r3)"
    and beat: "Logic_Heartbeat c pipe mid key new r3 = (None, r4)"
  shows "r_servers (routes_of (view r1)) key = Some new \<and> PushKeys c pipe qs op [key] msg (r2, q) = Ret (None, r3, q) \<and>
    r_servers (routes_of (view r4)) key = Some new"
proof -
  have 1: "r_servers (routes_of (view r1)) key = Some new"
    using redis_db.AddMapping_routes [OF db conn e] by (simp add: add_route_def)
  have 2: "r_servers (routes_of (view r2)) key = None" "\<not> key_exists (keyKeyServer key) (view r2)"
    using redis_db.DelMapping_routes [OF db dis [unfolded Logic_Disconnect_def]] by (simp_all add: del_route_def)
  have v3: "view r3 = view r2" using redis_db.ServersByKeys_view [OF db serv] by simp
  have "PushKeys c pipe qs op [key] msg (r2, q) = Ret (None, r3, q)"
    using redis_db.ServersByKeys_view [OF db serv] serv 2 by (simp add: PushKeys_def or_empty_def)
  moreover have "r_servers (routes_of (view r4)) key = Some new"
  proof -
    obtain h x r5 where x: "ExpireMapping pipe (redisExpire c) mid key r3 = ((h, x), r5)" by (metis surj_pair)
    then have x0: "x = None" using beat by (auto simp: Logic_Heartbeat_def split: option.splits)
    have v5: "view r5 = view r3" "h \<longleftrightarrow> key_exists (keyKeyServer key) (view r3)"
      using redis_db.ExpireMapping_view [OF db x [unfolded x0] e] by simp_all
    then have "AddMapping pipe (redisExpire c) mid key new r5 = (None, r4)" using beat x x0 2 v3 by (simp add: Logic_Heartbeat_def)
    then show ?thesis using redis_db.AddMapping_routes [OF db _ e] by (simp add: add_route_def)
  qed
  ultimately show ?thesis using 1 by blast
qed

lemma demo_expire: "0 < sint (redisExpire demo_logic_conf)"
  by (simp add: redisExpire_def in_seconds_def demo_logic_conf_def)

theorem late_disconnect_witness:
  "\<exists>r1 r2 r3 r4. AddMapping mem_pipe (redisExpire demo_logic_conf) 7 ''k'' ''new'' ([(''key_k'', ''old'')], []) = (None, r1) \<and>
    Logic_Disconnect mem_pipe 7 ''k'' ''old'' r1 = ((True, None), r2) \<and> PushKeys demo_logic_conf mem_pipe list_queue 4 [''k''] None (r2, []) = Ret (None, r3, []) \<and>
    Logic_Heartbeat demo_logic_conf mem_pipe 7 ''k'' ''new'' r3 = (None, r4) \<and> r_servers (routes_of (mem_view r4)) ''k'' = Some ''new''"
proof -
  define r1 where "r1 = snd (AddMapping mem_pipe (redisExpire demo_logic_conf) 7 ''k'' ''new'' ([(''key_k'', ''old'')], []))"
  define r2 where "r2 = snd (Logic_Disconnect mem_pipe 7 ''k'' ''old'' r1)"
  define r3 where "r3 = snd (ServersByKeys mem_pipe [''k''] r2)"
  define r4 where "r4 = snd (Logic_Heartbeat demo_logic_conf mem_pipe 7 ''k'' ''new'' r3)"
  have 1: "AddMapping mem_pipe (redisExpire demo_logic_conf) 7 ''k'' ''new'' ([(''key_k'', ''old'')], []) = (None, r1)"
    by (simp add: r1_def prod_eq_iff mem_succeeds)
  have h: "key_exists (keyKeyServer ''k'') (mem_view r1)"
    using mem.AddMapping_routes [OF 1 demo_expire] by (auto simp: key_exists_def routes_of_def add_route_def fun_eq_iff dest!: spec [of _ "''k''"])
  have 2: "Logic_Disconnect mem_pipe 7 ''k'' ''old'' r1 = ((True, None), r2)"
    using mem.DelMapping_routes [of 7 "''k''" "''old''" r1 "fst (fst (DelMapping mem_pipe 7 ''k'' ''old'' r1))" r2] h
    by (simp add: r2_def Logic_Disconnect_def prod_eq_iff mem_succeeds)
  have 3: "ServersByKeys mem_pipe [''k''] r2 = ((fst (fst (ServersByKeys mem_pipe [''k''] r2)), None), r3)"
    by (simp add: r3_def prod_eq_iff mem_succeeds)
  have 4: "Logic_Heartbeat demo_logic_conf mem_pipe 7 ''k'' ''new'' r3 = (None, r4)"
    using mem_succeeds(1,3) by (auto simp: r4_def Logic_Heartbeat_def prod_eq_iff split: prod.splits option.splits)
  show ?thesis using late_disconnect [OF mem.redis_db_axioms demo_expire 1 2 3 4, of list_queue 4 None "[]"] 1 2 4 by blast
qed




definition unreadable :: "mem_db redis_pipe" where
  "unreadable cs d = (case cs of [HGET k f] \<Rightarrow> (Inr [Inl (External 1)], d) | _ \<Rightarrow> mem_pipe cs d)"


text \<open>
  The top rooms. For a negative limit \<open>OnlineTop\<close> panics; otherwise it returns, in descending order of their
  counts, that many of the rooms whose key begins with the type, or all if there are fewer, and no room that
  is left out has a greater count than one that is returned.
\<close>

theorem online_top_best:
  assumes "slice_sorts srt"
  shows "if n < 0 then OnlineTop url_parse srt typ n l = Panic SliceBounds
    else \<exists>tops rest. OnlineTop url_parse srt typ n l = Ret tops \<and> mset (tops @ rest) = mset (prefixed_rooms url_parse typ l) \<and>
      length tops = min (nat n) (length (prefixed_rooms url_parse typ l)) \<and>
      sorted_wrt (\<lambda>a b. sint (tp_Count b) \<le> sint (tp_Count a)) (tops @ rest)"
proof -
  let ?s = "srt (\<lambda>t. sint (tp_Count t)) (prefixed_rooms url_parse typ l)"
  have s: "mset ?s = mset (prefixed_rooms url_parse typ l)" "sorted_wrt (\<lambda>a b. sint (tp_Count b) \<le> sint (tp_Count a)) ?s"
    using assms unfolding slice_sorts_def by (blast, fast)
  have len: "length ?s = length (prefixed_rooms url_parse typ l)" by (rule mset_eq_length [OF s(1)])
  show ?thesis
  proof (cases "n < 0")
    case True
    then have "int (length ?s) > n" by linarith
    then show ?thesis using True by (simp add: OnlineTop_def Let_def)
  next
    case False
    then have "OnlineTop url_parse srt typ n l = Ret (take (nat n) ?s)" by (auto simp: OnlineTop_def Let_def)
    moreover have "mset (take (nat n) ?s @ drop (nat n) ?s) = mset (prefixed_rooms url_parse typ l)" using s(1) by simp
    moreover have "sorted_wrt (\<lambda>a b. sint (tp_Count b) \<le> sint (tp_Count a)) (take (nat n) ?s @ drop (nat n) ?s)" using s(2) by simp
    moreover have "length (take (nat n) ?s) = min (nat n) (length (prefixed_rooms url_parse typ l))" using len by simp
    ultimately show ?thesis using False by (simp only: if_False) blast
  qed
qed

text \<open>The example also shows that a type which begins with the other one is included.\<close>

theorem online_top_best_witness:
  "\<exists>tops. OnlineTop (\<lambda>k. Inr (take 4 k, drop 7 k)) desc_sort ''live'' 1
     ((Logic_init demo_logic_conf)\<lparr>lg_roomCount := [(''live://1'', 5), (''livetest://2'', 9)]\<rparr>) = Ret tops \<and> length tops = 1 \<and> tp_Count (tops ! 0) = 9"
proof -
  let ?l = "(Logic_init demo_logic_conf)\<lparr>lg_roomCount := [(''live://1'', 5), (''livetest://2'', 9)]\<rparr>"
  let ?p = "\<lambda>k. Inr (take 4 k, drop 7 k) :: error + string \<times> string"
  define x where "x = \<lparr>tp_RoomID = ''1'', tp_Count = 5\<rparr>"
  define y where "y = \<lparr>tp_RoomID = ''t://2'', tp_Count = 9\<rparr>"
  have p: "prefixed_rooms ?p ''live'' ?l = [x, y]"
    by (simp add: prefixed_rooms_def strings_HasPrefix_def DecodeRoomKey_def map_filter_simps x_def y_def)
  have "\<not> (1 :: int) < 0" by simp
  then have "\<exists>tops rest. OnlineTop ?p desc_sort ''live'' 1 ?l = Ret tops \<and> mset (tops @ rest) = mset (prefixed_rooms ?p ''live'' ?l) \<and>
      length tops = min (nat 1) (length (prefixed_rooms ?p ''live'' ?l)) \<and> sorted_wrt (\<lambda>a b. sint (tp_Count b) \<le> sint (tp_Count a)) (tops @ rest)"
    using online_top_best [OF desc_sort_sorts, of 1 ?p "''live''" ?l] by (simp only: if_False)
  then obtain tops rest where t: "OnlineTop ?p desc_sort ''live'' 1 ?l = Ret tops" "mset (tops @ rest) = mset (prefixed_rooms ?p ''live'' ?l)"
    "length tops = min (nat 1) (length (prefixed_rooms ?p ''live'' ?l))" "sorted_wrt (\<lambda>a b. sint (tp_Count b) \<le> sint (tp_Count a)) (tops @ rest)"
    by (elim exE conjE) (rule that)
  have t3: "length tops = 1" using t(3) by (simp add: p)
  obtain a where a: "tops = [a]" using t3 by (cases tops) auto
  have "set (tops @ rest) = set (prefixed_rooms ?p ''live'' ?l)" by (rule mset_eq_setD [OF t(2)])
  then have xy: "set (a # rest) = {x, y}" by (simp add: a p)
  have s: "a \<in> {x, y}" "y \<in> set (a # rest)" by (simp only: xy [symmetric] list.set insertI1) (simp only: xy insert_iff simp_thms)
  have le: "\<forall>b\<in>set rest. sint (tp_Count b) \<le> sint (tp_Count a)" using t(4) by (simp add: a)
  have "tp_Count a = 9"
  proof (cases "a = y")
    case False
    then have "a = x" "y \<in> set rest" using s by auto
    then show ?thesis using bspec [OF le, of y] by (simp add: x_def y_def)
  qed (simp add: y_def)
  then show ?thesis using t(1) a by simp
qed

end
