(* ===== verification/Logic_Api.thy ===== *)
theory Logic_Api
  imports Logic_Core
begin

text \<open>
  How the logic process is called: \<open>internal/logic/grpc/server.go\<close>, by the comets, and \<open>internal/logic/http\<close>, by the
  services that push; and \<open>internal/logic/dao/kafka.go\<close>, the pusher for Kafka, which has the interface of the
  one for NATS. What gin does is a parameter: a handler gets the result of binding the query to its struct
  (\<open>BindQuery\<close>) and of reading the body (\<open>ReadAll\<close>). Starting the servers, routing and logging are left out.
\<close>

section \<open>gRPC\<close>

definition grpc_Connect ::
    "'f LogicConf \<Rightarrow> 'r redis_pipe \<Rightarrow> (byte list \<Rightarrow> error + ConnParams) \<Rightarrow> string \<Rightarrow> string \<Rightarrow> byte list \<Rightarrow> 'r \<Rightarrow> (Connected \<times> error option) \<times> 'r" where
  "grpc_Connect c pipe json uuid server token r =
     (case Logic_Connect c pipe json uuid server token r of
        ((cn, Some e), r') \<Rightarrow> ((no_conn, Some e), r')
      | ((cn, None), r') \<Rightarrow> ((cn, None), r'))"

definition grpc_Disconnect :: "'r redis_pipe \<Rightarrow> int64 \<Rightarrow> string \<Rightarrow> string \<Rightarrow> 'r \<Rightarrow> (bool \<times> error option) \<times> 'r" where
  "grpc_Disconnect pipe mid key server r =
     (case Logic_Disconnect pipe mid key server r of
        ((has, Some e), r') \<Rightarrow> ((False, Some e), r')
      | ((has, None), r') \<Rightarrow> ((has, None), r'))"

definition grpc_Heartbeat :: "'f LogicConf \<Rightarrow> 'r redis_pipe \<Rightarrow> int64 \<Rightarrow> string \<Rightarrow> string \<Rightarrow> 'r \<Rightarrow> error option \<times> 'r" where
  "grpc_Heartbeat c pipe mid key server r = Logic_Heartbeat c pipe mid key server r"

definition grpc_RenewOnline ::
    "'f LogicConf \<Rightarrow> 'r redis_pipe \<Rightarrow> (Online \<Rightarrow> string) \<Rightarrow> (byte list \<Rightarrow> 32 word \<Rightarrow> 32 word) \<Rightarrow> int \<Rightarrow> Logic \<Rightarrow> string \<Rightarrow> (string \<times> int32) list \<Rightarrow> 'r \<Rightarrow>
     ((string \<times> int32) list \<times> error option) \<times> 'r" where
  "grpc_RenewOnline c pipe enc cityhash now l server roomCount r =
     (case Logic_RenewOnline c pipe enc cityhash now l server roomCount r of
        ((all, Some e), r') \<Rightarrow> (([], Some e), r')
      | ((all, None), r') \<Rightarrow> ((all, None), r'))"

definition grpc_Receive :: "int64 \<Rightarrow> Proto \<Rightarrow> error option" where
  "grpc_Receive mid p = Logic_Receive mid p"

definition grpc_Nodes :: "'f LogicConf \<Rightarrow> 'f float64 \<Rightarrow> slice_sort \<Rightarrow> string \<Rightarrow> string \<Rightarrow> Logic \<Rightarrow> ('f NodesReply \<times> error option) \<times> Logic" where
  "grpc_Nodes c fl srt platform clientIP l =
     (let (reply, l') = NodesWeighted c fl srt platform clientIP l in ((reply, None), l'))"

section \<open>HTTP\<close>

text \<open>The message of a response is the text of an error; the status of a response is 200, whatever its code.\<close>

record 'd resp =
  rs_Code :: int
  rs_Message :: "error option"
  rs_Data :: "'d option"

definition OK :: int where "OK = 0"
definition RequestErr :: int where "RequestErr = -400"
definition ServerErr :: int where "ServerErr = -500"

definition http_errors :: "int \<Rightarrow> error \<Rightarrow> 'd resp" where
  "http_errors code e = \<lparr>rs_Code = code, rs_Message = Some e, rs_Data = None\<rparr>"

definition http_result :: "'d option \<Rightarrow> int \<Rightarrow> 'd resp" where
  "http_result data code = \<lparr>rs_Code = code, rs_Message = None, rs_Data = data\<rparr>"

text \<open>
  \<open>recoverHandler\<close>: a panic of the handler becomes a response with status 500. The handlers that can panic have
  only read before they do, so the state is the one before the call.
\<close>

datatype 'd http_out = Status200 "'d resp" | Status500

definition recoverHandler :: "('d resp \<times> 's) outcome \<Rightarrow> 's \<Rightarrow> 'd http_out \<times> 's" where
  "recoverHandler h s = (case h of Ret (rs, s') \<Rightarrow> (Status200 rs, s') | Panic x \<Rightarrow> (Status500, s))"

definition http_pushKeys ::
    "'f LogicConf \<Rightarrow> 'r redis_pipe \<Rightarrow> 'q queue \<Rightarrow> error + int32 \<times> string list \<Rightarrow> error + byte list \<Rightarrow> 'r \<times> 'q \<Rightarrow> (unit resp \<times> 'r \<times> 'q) outcome" where
  "http_pushKeys c pipe qs arg body rq =
     (case arg of
        Inl e \<Rightarrow> Ret (http_errors RequestErr e, rq)
      | Inr (op, keys) \<Rightarrow>
          (case body of
             Inl e \<Rightarrow> Ret (http_errors RequestErr e, rq)
           | Inr msg \<Rightarrow>
               obind (PushKeys c pipe qs op keys (Some msg) rq) (\<lambda>(err, rq').
                 Ret (http_result None (if err \<noteq> None then RequestErr else OK), rq'))))"

definition http_pushMids ::
    "'f LogicConf \<Rightarrow> 'r redis_pipe \<Rightarrow> 'q queue \<Rightarrow> error + int32 \<times> int64 list \<Rightarrow> error + byte list \<Rightarrow> 'r \<times> 'q \<Rightarrow> (unit resp \<times> 'r \<times> 'q) outcome" where
  "http_pushMids c pipe qs arg body rq =
     (case arg of
        Inl e \<Rightarrow> Ret (http_errors RequestErr e, rq)
      | Inr (op, mids) \<Rightarrow>
          (case body of
             Inl e \<Rightarrow> Ret (http_errors RequestErr e, rq)
           | Inr msg \<Rightarrow>
               (case PushMids c pipe qs op mids (Some msg) rq of
                  (Some e, rq') \<Rightarrow> Ret (http_errors ServerErr e, rq')
                | (None, rq') \<Rightarrow> Ret (http_result None OK, rq'))))"

definition http_pushRoom ::
    "'f LogicConf \<Rightarrow> 'q queue \<Rightarrow> error + int32 \<times> string \<times> string \<Rightarrow> error + byte list \<Rightarrow> 'q \<Rightarrow> (unit resp \<times> 'q) outcome" where
  "http_pushRoom c qs arg body q =
     (case arg of
        Inl e \<Rightarrow> Ret (http_errors RequestErr e, q)
      | Inr (op, typ, room) \<Rightarrow>
          (case body of
             Inl e \<Rightarrow> Ret (http_errors RequestErr e, q)
           | Inr msg \<Rightarrow>
               (case PushRoom c qs op typ room (Some msg) q of
                  (Some e, q') \<Rightarrow> Ret (http_errors ServerErr e, q')
                | (None, q') \<Rightarrow> Ret (http_result None OK, q'))))"

definition http_pushAll ::
    "'f LogicConf \<Rightarrow> 'q queue \<Rightarrow> error + int32 \<times> int32 \<Rightarrow> error + byte list \<Rightarrow> 'q \<Rightarrow> (unit resp \<times> 'q) outcome" where
  "http_pushAll c qs arg body q =
     (case arg of
        Inl e \<Rightarrow> Ret (http_errors RequestErr e, q)
      | Inr (op, speed) \<Rightarrow>
          (case body of
             Inl e \<Rightarrow> Ret (http_errors RequestErr e, q)
           | Inr msg \<Rightarrow>
               (case PushAll c qs op speed (Some msg) q of
                  (Some e, q') \<Rightarrow> Ret (http_errors ServerErr e, q')
                | (None, q') \<Rightarrow> Ret (http_result None OK, q'))))"

definition http_onlineTop ::
    "(string \<Rightarrow> error + string \<times> string) \<Rightarrow> ((Top \<Rightarrow> int) \<Rightarrow> Top list \<Rightarrow> Top list) \<Rightarrow> error + string \<times> int \<Rightarrow> Logic \<Rightarrow> (Top list resp \<times> Logic) outcome" where
  "http_onlineTop url_parse srt arg l =
     (case arg of
        Inl e \<Rightarrow> Ret (http_errors RequestErr e, l)
      | Inr (typ, limit) \<Rightarrow> obind (OnlineTop url_parse srt typ limit l) (\<lambda>res. Ret (http_result (Some res) OK, l)))"

definition http_onlineRoom :: "error + string \<times> string list \<Rightarrow> Logic \<Rightarrow> (string \<times> int32) list resp" where
  "http_onlineRoom arg l =
     (case arg of
        Inl e \<Rightarrow> http_errors RequestErr e
      | Inr (typ, rooms) \<Rightarrow> http_result (Some (OnlineRoom typ rooms l)) OK)"

definition http_onlineTotal :: "Logic \<Rightarrow> (string \<times> int64) list resp" where
  "http_onlineTotal l =
     (let (ipCount, connCount) = OnlineTotal l
      in http_result (Some [(''ip_count'', ipCount), (''conn_count'', connCount)]) OK)"

definition http_nodesWeighted ::
    "'f LogicConf \<Rightarrow> 'f float64 \<Rightarrow> slice_sort \<Rightarrow> error + string \<Rightarrow> string \<Rightarrow> Logic \<Rightarrow> 'f NodesReply resp \<times> Logic" where
  "http_nodesWeighted c fl srt arg clientIP l =
     (case arg of
        Inl e \<Rightarrow> (http_errors RequestErr e, l)
      | Inr platform \<Rightarrow> (let (res, l') = NodesWeighted c fl srt platform clientIP l in (http_result (Some res) OK, l')))"

definition http_nodesInstances :: "Logic \<Rightarrow> naming_Instance list resp" where
  "http_nodesInstances l = http_result (Some (NodesInstances l)) OK"

section \<open>Kafka\<close>

text \<open>A message for Kafka has a key beside its topic; that of a push to keys is the first one.\<close>

record 'k kafka =
  k_marshal :: "PushMsg \<Rightarrow> error + byte list"
  k_send :: "string \<Rightarrow> string \<Rightarrow> byte list \<Rightarrow> 'k \<Rightarrow> error option \<times> 'k"

definition Dao_PushMsg :: "'k kafka \<Rightarrow> string \<Rightarrow> int32 \<Rightarrow> string \<Rightarrow> string list \<Rightarrow> byte list option \<Rightarrow> 'k \<Rightarrow> (error option \<times> 'k) outcome" where
  "Dao_PushMsg ks topic op server keys msg k =
     (case k_marshal ks \<lparr>pm_Type = PUSH, pm_Operation = op, pm_Speed = 0, pm_Server = server, pm_Room = [], pm_Keys = keys, pm_Msg = msg\<rparr> of
        Inl e \<Rightarrow> Ret (Some e, k)
      | Inr b \<Rightarrow> (case keys of [] \<Rightarrow> Panic IndexOutOfRange | key # _ \<Rightarrow> Ret (k_send ks topic key b k)))"

definition Dao_BroadcastRoomMsg :: "'k kafka \<Rightarrow> string \<Rightarrow> int32 \<Rightarrow> string \<Rightarrow> byte list option \<Rightarrow> 'k \<Rightarrow> error option \<times> 'k" where
  "Dao_BroadcastRoomMsg ks topic op room msg k =
     (case k_marshal ks \<lparr>pm_Type = ROOM, pm_Operation = op, pm_Speed = 0, pm_Server = [], pm_Room = room, pm_Keys = [], pm_Msg = msg\<rparr> of
        Inl e \<Rightarrow> (Some e, k)
      | Inr b \<Rightarrow> k_send ks topic room b k)"

definition Dao_BroadcastMsg :: "'k kafka \<Rightarrow> string \<Rightarrow> int32 \<Rightarrow> int32 \<Rightarrow> byte list option \<Rightarrow> 'k \<Rightarrow> error option \<times> 'k" where
  "Dao_BroadcastMsg ks topic op speed msg k =
     (case k_marshal ks \<lparr>pm_Type = BROADCAST, pm_Operation = op, pm_Speed = speed, pm_Server = [], pm_Room = [], pm_Keys = [], pm_Msg = msg\<rparr> of
        Inl e \<Rightarrow> (Some e, k)
      | Inr b \<Rightarrow> k_send ks topic (FormatInt (sint op)) b k)"

section \<open>The pushers agree\<close>

text \<open>
  The interface \<open>mq.Pushing\<close>: a pusher of messages to the keys of a server. The groups that \<open>PushKeys\<close> forms are never
  empty, so with either pusher every message names a key, and the pusher for Kafka does not panic on them.
\<close>

lemma ref_groups_nonempty: "(s, ks) \<in> set (ref_groups route keys) \<Longrightarrow> s \<noteq> [] \<and> ks \<noteq> [] \<and> (\<forall>k\<in>set ks. k \<noteq> [] \<and> route k = s)"
  by (auto simp: ref_groups_def filter_empty_conv)

lemma kafka_no_panic:
  assumes "(s, ks) \<in> set (ref_groups route keys)"
  shows "\<exists>r. Dao_PushMsg kf topic op s ks msg k = Ret r"
  using ref_groups_nonempty [OF assms] by (cases ks) (auto simp: Dao_PushMsg_def split: sum.splits)

section \<open>What the handlers answer\<close>

text \<open>
  The answers of the four push handlers. A request that cannot be bound or read is answered with \<open>RequestErr\<close> and
  nothing is published; otherwise the code says exactly whether the push reported an error, as \<open>RequestErr\<close> for
  keys and as \<open>ServerErr\<close> for the others.
\<close>

lemma http_push_rejects:
  assumes "(\<exists>e. arg = Inl e) \<or> (\<exists>e. body = Inl e)"
  shows "\<exists>e. http_pushKeys c pipe qs arg body rq = Ret (http_errors RequestErr e, rq)"
  using assms by (auto simp: http_pushKeys_def split: sum.splits)

lemma http_pushKeys_code:
  assumes "redis_db pipe view" and "ServersByKeys pipe keys r = ((servers, None), r')"
  shows "\<exists>err q'. push_groups qs (lc_Stream c) op (Some msg) (ref_groups (\<lambda>k. or_empty (r_servers (routes_of (view r)) k)) keys) q = (err, q') \<and>
    http_pushKeys c pipe qs (Inr (op, keys)) (Inr msg) (r, q) = Ret (http_result None (if err = None then OK else RequestErr), r', q')"
proof -
  let ?g = "ref_groups (\<lambda>k. or_empty (r_servers (routes_of (view r)) k)) keys"
  have "servers = map (\<lambda>k. or_empty (r_servers (routes_of (view r)) k)) keys" using redis_db.ServersByKeys_view [OF assms] by simp
  moreover obtain err q' where p: "push_groups qs (lc_Stream c) op (Some msg) ?g q = (err, q')" by (cases "push_groups qs (lc_Stream c) op (Some msg) ?g q")
  ultimately have "PushKeys c pipe qs op keys (Some msg) (r, q) = Ret (err, r', q')"
    using assms(2) by (simp add: PushKeys_def group_keys_fold fold_ref_groups)
  then show ?thesis using p by (simp add: http_pushKeys_def)
qed

text \<open>A negative limit, which \<open>binding:"required"\<close> lets through, is answered with status 500.\<close>

lemma http_negative_limit:
  assumes "n < 0"
  shows "recoverHandler (http_onlineTop url_parse srt (Inr (typ, n)) l) l = (Status500, l)"
proof -
  have "\<not> int (length xs) \<le> n" for xs :: "Top list" using assms by linarith
  then show ?thesis using assms by (simp add: http_onlineTop_def OnlineTop_def Let_def recoverHandler_def)
qed

end
