(* ===== verification/Comet_Main.thy ===== *)
theory Comet_Main
  imports Logic_Api Serve_Websocket
begin

text \<open>
  How a comet starts and makes itself known: listening and accepting (\<open>InitTCP\<close>, \<open>acceptTCP\<close> and their WebSocket
  variants), the whitelist, \<open>pkg/ip\<close>, \<open>pkg/time/duration.go\<close>, and the registration of \<open>cmd/comet/main.go\<close> with the
  discovery service, from which the logic process learns of the comet. The results of system calls and of
  the TLS library are arguments.
\<close>

section \<open>Accepting\<close>

text \<open>A connection with the errors of \<open>SetKeepAlive\<close>, \<open>SetReadBuffer\<close> and \<open>SetWriteBuffer\<close> on it.\<close>

record 'c accepted =
  ac_Conn :: 'c
  ac_KeepAlive :: "error option"
  ac_ReadBuffer :: "error option"
  ac_WriteBuffer :: "error option"

definition socket_error :: "'c accepted \<Rightarrow> error option" where
  "socket_error a =
     (if ac_KeepAlive a \<noteq> None then ac_KeepAlive a
      else if ac_ReadBuffer a \<noteq> None then ac_ReadBuffer a
      else ac_WriteBuffer a)"

text \<open>
  The loop on the results of \<open>AcceptTCP\<close>: the connections that are served, with their numbers, and the error with
  which the goroutine ends, if it does. \<open>acceptWebsocket\<close> is the same code, apart from who serves.
\<close>

fun acceptTCP :: "(error + 'c accepted) list \<Rightarrow> nat \<Rightarrow> ('c \<times> nat) list \<times> error option" where
  "acceptTCP [] r = ([], None)"
| "acceptTCP (Inl e # xs) r = ([], Some e)"
| "acceptTCP (Inr a # xs) r =
     (case socket_error a of
        Some e \<Rightarrow> ([], Some e)
      | None \<Rightarrow> (let (cs, e) = acceptTCP xs (next_conn r) in ((ac_Conn a, r) # cs, e)))"

definition acceptWebsocket :: "(error + 'c accepted) list \<Rightarrow> nat \<Rightarrow> ('c \<times> nat) list \<times> error option" where
  "acceptWebsocket xs r = acceptTCP xs r"

fun acceptWebsocketWithTLS :: "(error + 'c) list \<Rightarrow> nat \<Rightarrow> ('c \<times> nat) list \<times> error option" where
  "acceptWebsocketWithTLS [] r = ([], None)"
| "acceptWebsocketWithTLS (Inl e # xs) r = ([], Some e)"
| "acceptWebsocketWithTLS (Inr c # xs) r = (let (cs, e) = acceptWebsocketWithTLS xs (next_conn r) in ((c, r) # cs, e))"

text \<open>The listeners for which accepting goroutines were started, and the error that ended the loop over the addresses.\<close>

fun InitTCP :: "(string \<Rightarrow> error + 'a) \<Rightarrow> ('a \<Rightarrow> error + 'l) \<Rightarrow> nat \<Rightarrow> string list \<Rightarrow> 'l list \<times> error option" where
  "InitTCP resolve listen accept [] = ([], None)"
| "InitTCP resolve listen accept (bind # addrs) =
     (case resolve bind of
        Inl e \<Rightarrow> ([], Some e)
      | Inr addr \<Rightarrow>
          (case listen addr of
             Inl e \<Rightarrow> ([], Some e)
           | Inr l \<Rightarrow> (let (ls, e) = InitTCP resolve listen accept addrs in (replicate accept l @ ls, e))))"

definition InitWebsocket :: "(string \<Rightarrow> error + 'a) \<Rightarrow> ('a \<Rightarrow> error + 'l) \<Rightarrow> nat \<Rightarrow> string list \<Rightarrow> 'l list \<times> error option" where
  "InitWebsocket resolve listen accept addrs = InitTCP resolve listen accept addrs"

text \<open>The certificates: there may be fewer private files than certificates.\<close>

fun load_certs :: "(string \<Rightarrow> string \<Rightarrow> error + 'k) \<Rightarrow> string list \<Rightarrow> string list \<Rightarrow> (error + 'k list) outcome" where
  "load_certs load [] ps = Ret (Inr [])"
| "load_certs load (f # fs) [] = Panic IndexOutOfRange"
| "load_certs load (f # fs) (p # ps) =
     (case load f p of
        Inl e \<Rightarrow> Ret (Inl e)
      | Inr k \<Rightarrow> obind (load_certs load fs ps) (\<lambda>r. Ret (case r of Inl e \<Rightarrow> Inl e | Inr ks \<Rightarrow> Inr (k # ks))))"

fun listen_tls :: "(string \<Rightarrow> 'k list \<Rightarrow> error + 'l) \<Rightarrow> 'k list \<Rightarrow> nat \<Rightarrow> string list \<Rightarrow> 'l list \<times> error option" where
  "listen_tls listen certs accept [] = ([], None)"
| "listen_tls listen certs accept (bind # addrs) =
     (case listen bind certs of
        Inl e \<Rightarrow> ([], Some e)
      | Inr l \<Rightarrow> (let (ls, e) = listen_tls listen certs accept addrs in (replicate accept l @ ls, e)))"

definition InitWebsocketWithTLS ::
    "(string \<Rightarrow> string \<Rightarrow> error + 'k) \<Rightarrow> (string \<Rightarrow> 'k list \<Rightarrow> error + 'l) \<Rightarrow> string list \<Rightarrow> string \<Rightarrow> string \<Rightarrow> nat \<Rightarrow> ('l list \<times> error option) outcome" where
  "InitWebsocketWithTLS load listen addrs certFile privateFile accept =
     obind (load_certs load (strings_Split certFile '','') (strings_Split privateFile '','')) (\<lambda>r.
       case r of Inl e \<Rightarrow> Ret ([], Some e) | Inr certs \<Rightarrow> Ret (listen_tls listen certs accept addrs))"

section \<open>Whitelist, addresses and durations\<close>

definition InitWhitelist :: "error option \<Rightarrow> int64 list \<Rightarrow> error option \<times> int64 list option" where
  "InitWhitelist opened mids = (case opened of Some e \<Rightarrow> (Some e, None) | None \<Rightarrow> (None, Some (remdups mids)))"

text \<open>An interface of the host; an address is an IP network, with whether it is a loopback address and of version 4, or something else.\<close>

datatype if_addr = IPNet bool bool string | OtherAddr

record iface =
  if_Up :: bool
  if_Name :: string
  if_Addrs :: "error + if_addr list"

fun first_ip :: "if_addr list \<Rightarrow> string option" where
  "first_ip [] = None"
| "first_ip (IPNet loopback v4 s # as) = (if \<not> loopback \<and> v4 then Some s else first_ip as)"
| "first_ip (OtherAddr # as) = first_ip as"

fun search_ifaces :: "iface list \<Rightarrow> string" where
  "search_ifaces [] = []"
| "search_ifaces (i # is) =
     (if if_Up i \<and> \<not> strings_HasPrefix (if_Name i) ''lo''
      then (case if_Addrs i of
              Inl e \<Rightarrow> search_ifaces is
            | Inr as \<Rightarrow> (case first_ip as of Some s \<Rightarrow> s | None \<Rightarrow> search_ifaces is))
      else search_ifaces is)"

definition InternalIP :: "error + iface list \<Rightarrow> string" where
  "InternalIP inters = (case inters of Inl e \<Rightarrow> [] | Inr is \<Rightarrow> search_ifaces is)"

definition Duration_UnmarshalText :: "(string \<Rightarrow> error + int64) \<Rightarrow> byte list \<Rightarrow> int64 \<Rightarrow> error option \<times> int64" where
  "Duration_UnmarshalText ParseDuration text d =
     (case ParseDuration (go_string text) of Inl e \<Rightarrow> (Some e, d) | Inr tmp \<Rightarrow> (None, tmp))"

section \<open>Registration\<close>

record CometEnv =
  en_Region :: string
  en_Host :: string
  en_Weight :: int64
  en_Offline :: bool
  en_Addrs :: "string list"

definition FormatBool :: "bool \<Rightarrow> string" where
  "FormatBool b = (if b then ''true'' else ''false'')"

definition strings_Join :: "string list \<Rightarrow> string" where
  "strings_Join fs = join_with (CHR '','') fs"

definition register_instance :: "CometEnv \<Rightarrow> int64 \<Rightarrow> naming_Instance" where
  "register_instance env ts =
     \<lparr>ni_Region = en_Region env, ni_Hostname = en_Host env,
      ni_Metadata = Some [(MetaWeight, FormatInt (sint (en_Weight env))), (MetaOffline, FormatBool (en_Offline env)), (MetaAddrs, strings_Join (en_Addrs env))],
      ni_LastTs = ts\<rparr>"

text \<open>A turn of the renewal: the channels of all buckets and their different addresses.\<close>

definition server_conns :: "Bucket list \<Rightarrow> nat" where
  "server_conns bs = sum_list (map ChannelCount bs)"

definition server_ips :: "Bucket list \<Rightarrow> nat" where
  "server_ips bs = length (remdups (concat (map IPCount bs)))"

definition renew_metadata :: "Bucket list \<Rightarrow> int64 \<Rightarrow> naming_Instance \<Rightarrow> naming_Instance" where
  "renew_metadata bs ts ins =
     ins\<lparr>ni_Metadata := map_option (\<lambda>m. AList.update MetaIPCount (FormatInt (int (server_ips bs)))
            (AList.update MetaConnCount (FormatInt (int (server_conns bs))) m)) (ni_Metadata ins), ni_LastTs := ts\<rparr>"

section \<open>The numbers of the connections\<close>

lemma next_conn_mod: "next_conn (n mod (2 ^ 31 - 1)) = Suc n mod (2 ^ 31 - 1)"
proof -
  have "Suc n mod (2 ^ 31 - 1) = (if Suc (n mod (2 ^ 31 - 1)) = 2 ^ 31 - 1 then 0 else Suc (n mod (2 ^ 31 - 1)))" by (rule mod_Suc)
  then show ?thesis by (simp only: next_conn_def Suc_eq_plus1)
qed

text \<open>
  The connections in front of the first failure are served, numbered in turn from zero; behind it none is, also
  when what failed was an option of a single connection.
\<close>

definition accept_ok :: "error + 'c accepted \<Rightarrow> bool" where
  "accept_ok x \<longleftrightarrow> (case x of Inl e \<Rightarrow> False | Inr a \<Rightarrow> socket_error a = None)"

lemma accept_numbers:
  "fst (acceptTCP xs (n mod (2 ^ 31 - 1))) =
   map (\<lambda>(i, x). (ac_Conn (projr x), (n + i) mod (2 ^ 31 - 1))) (enumerate 0 (takeWhile accept_ok xs))"
proof (induction xs arbitrary: n)
  case (Cons x xs)
  have shift: "map (\<lambda>(i, x). (ac_Conn (projr x), (Suc n + i) mod (2 ^ 31 - 1))) (enumerate 0 ys) =
    map (\<lambda>(i, x). (ac_Conn (projr x), (n + i) mod (2 ^ 31 - 1))) (enumerate (Suc 0) ys)" for ys :: "(error + 'a accepted) list"
    by (rule nth_equalityI) (simp_all add: nth_enumerate_eq)
  show ?case
  proof (cases "accept_ok x")
    case True
    then obtain a where a: "x = Inr a" "socket_error a = None" by (auto simp: accept_ok_def split: sum.splits)
    have "fst (acceptTCP (x # xs) (n mod (2 ^ 31 - 1))) = (ac_Conn a, n mod (2 ^ 31 - 1)) # fst (acceptTCP xs (Suc n mod (2 ^ 31 - 1)))"
      by (simp only: a acceptTCP.simps next_conn_mod) (simp add: case_prod_unfold Let_def)
    then show ?thesis using True a Cons.IH [of "Suc n"] shift [of "takeWhile accept_ok xs"] by simp
  next
    case False
    then show ?thesis by (cases x) (auto simp: accept_ok_def split: option.splits)
  qed
qed simp

lemma accept_stops: "snd (acceptTCP xs r) = None \<longleftrightarrow> (\<forall>x\<in>set xs. accept_ok x)"
  by (induction xs r rule: acceptTCP.induct) (auto simp: accept_ok_def case_prod_unfold Let_def split: option.splits)

section \<open>What the logic process makes of the registration\<close>

lemma renewed_meta:
  "meta (renew_metadata bs ts (register_instance env t)) MetaWeight = FormatInt (sint (en_Weight env))"
  "meta (renew_metadata bs ts (register_instance env t)) MetaOffline = FormatBool (en_Offline env)"
  "meta (renew_metadata bs ts (register_instance env t)) MetaAddrs = strings_Join (en_Addrs env)"
  "meta (renew_metadata bs ts (register_instance env t)) MetaConnCount = FormatInt (int (server_conns bs))"
  "meta (renew_metadata bs ts (register_instance env t)) MetaIPCount = FormatInt (int (server_ips bs))"
  by (simp_all add: meta_def renew_metadata_def register_instance_def meta_defs update_conv')

lemma ParseBool_FormatBool: "ParseBool (FormatBool b) = Inr b"
  by (simp add: ParseBool_def FormatBool_def)

text \<open>
  C12 (a comet is understood). The logic process takes an instance that a comet has renewed and not one that it has
  only registered. Of a comet that is not offline, with counts and a weight within 32 bits, it reads exactly
  the connections and the different addresses over all buckets, and its load balancer enters the comet's
  region, host, addresses and weight as they were configured, unless it has an entry of the same time.
\<close>

theorem registration_understood:
  assumes "\<not> en_Offline env" and "int (server_conns bs) < 2 ^ 31" and "int (server_ips bs) < 2 ^ 31"
    and "- (2 ^ 31) \<le> sint (en_Weight env)" and "sint (en_Weight env) < 2 ^ 31"
    and "en_Addrs env \<noteq> []" and "\<forall>a\<in>set (en_Addrs env). CHR '','' \<notin> set a"
    and "\<forall>n. map_of olds (en_Host env) = Some n \<longrightarrow> wn_updated n \<noteq> ts"
  shows "node_counts (register_instance env t) = None \<and>
    node_counts (renew_metadata bs ts (register_instance env t)) = Some (of_nat (server_conns bs), of_nat (server_ips bs)) \<and>
    update_one olds (renew_metadata bs ts (register_instance env t)) acc =
      put_node (en_Host env) \<lparr>wn_region = en_Region env, wn_hostname = en_Host env, wn_addrs = en_Addrs env, wn_fixedWeight = en_Weight env,
        wn_currentWeight = 0, wn_currentConns = of_nat (server_conns bs), wn_updated = ts\<rparr> acc"
proof -
  have p: "ParseInt (FormatInt (int (server_conns bs))) 32 = Inr (int (server_conns bs))" "ParseInt (FormatInt (int (server_ips bs))) 32 = Inr (int (server_ips bs))"
    "ParseInt (FormatInt (sint (en_Weight env))) 32 = Inr (sint (en_Weight env))"
    using assms(2-5) by (auto intro!: parse_format)
  have a: "strings_Split (strings_Join (en_Addrs env)) '','' = en_Addrs env"
    unfolding strings_Join_def by (rule Split_join [OF assms(6,7)])
  have i: "ni_Metadata (renew_metadata bs ts (register_instance env t)) \<noteq> None" "ni_Hostname (renew_metadata bs ts (register_instance env t)) = en_Host env"
    "ni_Region (renew_metadata bs ts (register_instance env t)) = en_Region env" "ni_LastTs (renew_metadata bs ts (register_instance env t)) = ts"
    by (simp_all add: renew_metadata_def register_instance_def)
  have "node_counts (register_instance env t) = None"
    by (simp add: node_counts_def register_instance_def meta_def meta_defs ParseInt_def split: sum.splits)
  moreover have "node_counts (renew_metadata bs ts (register_instance env t)) = Some (of_nat (server_conns bs), of_nat (server_ips bs))"
    using assms(1) by (simp add: node_counts_def i renewed_meta ParseBool_FormatBool p)
  moreover have "update_one olds (renew_metadata bs ts (register_instance env t)) acc =
      put_node (en_Host env) \<lparr>wn_region = en_Region env, wn_hostname = en_Host env, wn_addrs = en_Addrs env, wn_fixedWeight = en_Weight env,
        wn_currentWeight = 0, wn_currentConns = of_nat (server_conns bs), wn_updated = ts\<rparr> acc"
    using assms(8) by (auto simp: update_one_def Let_def i renewed_meta p a split: option.splits)
  ultimately show ?thesis by blast
qed

theorem registration_understood_witness:
  "node_counts (renew_metadata [demo_bucket\<lparr>bk_chs := [(''k'', 0)], bk_ipCnts := [(''10.0.0.1'', 1)]\<rparr>] 9
     (register_instance \<lparr>en_Region = ''sh'', en_Host = ''h'', en_Weight = 10, en_Offline = False, en_Addrs = [''127.0.0.1'']\<rparr> 1)) = Some (1, 1)"
proof -
  let ?bs = "[demo_bucket\<lparr>bk_chs := [(''k'', 0)], bk_ipCnts := [(''10.0.0.1'', 1)]\<rparr>]"
  have n: "server_conns ?bs = 1" "server_ips ?bs = 1" by (simp_all add: server_conns_def server_ips_def ChannelCount_def IPCount_def)
  show ?thesis
    using registration_understood [of "\<lparr>en_Region = ''sh'', en_Host = ''h'', en_Weight = 10, en_Offline = False, en_Addrs = [''127.0.0.1'']\<rparr>" ?bs "[]" 9 1 NewLoadBalancer]
    by (simp add: n)
qed

end
