(* ===== verification/Spec2Isabelle.thy ===== *)
theory Spec2Isabelle
  imports Resources Comet_Main
begin

text \<open>
  A verification development of goim, an instant-messaging server in Go. Three processes make up the system.
  A \<^bold>\<open>comet\<close> keeps the connections of clients, over TCP and WebSocket. The \<^bold>\<open>logic\<close> process knows which key (a
  connection) is on which comet, and publishes messages for keys, members, rooms or everybody into a queue. The
  \<^bold>\<open>job\<close> process takes them from the queue and hands them to the comets. Comets call the logic process when a
  client connects, disconnects or sends, and report how many clients are in which room.

  \<^bold>\<open>Conventions.\<close> Integers of the source are words of their width; where only the order of times matters they are
  \<open>int\<close>. A call that may panic has type \<open>outcome\<close> (\<open>Ret\<close> or \<open>Panic\<close>), one that may also wait for ever has type \<open>run\<close>
  (\<open>None\<close>: it never returns); errors are values of the datatype \<open>error\<close>. Objects that are shared through pointers
  live in a store and are named by their address. A Go map is an association list, and its order stands for the
  arbitrary order of an iteration. A channel is a list with a capacity. Goroutines are step relations or turns, and
  histories are their reflexive transitive closures. What is not under \<open>src\<close>, and the results of system calls, are
  arguments of the definitions; what is relied on of them is stated as a locale (\<open>io.Reader\<close>, \<open>io.Writer\<close>, Redis) or as
  a named hypothesis (a JSON codec, \<open>sort.Slice\<close>).

  \<^bold>\<open>The wire.\<close>
  \<^item> \<open>Prelude\<close>: integers, errors, panics, slices with their spare capacity.
  \<^item> \<open>Endian\<close> (\<open>pkg/encoding/binary\<close>), \<open>Bytes_Writer\<close> (\<open>pkg/bytes/writer.go\<close>).
  \<^item> \<open>Bufio_Reader\<close> and \<open>Bufio_Writer\<close> (\<open>pkg/bufio\<close>): against the contract of the underlying reader, a locale, \<open>Pop\<close> and the
    others are shown to split the stream of bytes, however it is cut into reads; \<open>Write\<close> appends to the stream.
  \<^item> \<open>Websocket_Conn\<close> (\<open>pkg/websocket/conn.go\<close>), \<open>Accept_Key\<close> and \<open>Websocket_Upgrade\<close> (\<open>request.go\<close>, \<open>server.go\<close>): frames,
    fragments, masks, control frames, and the upgrade of an HTTP request with its accept key (SHA-1 and base64).
  \<^item> \<open>Protocol\<close> (\<open>api/protocol\<close>): the codec of messages over both transports. What one side writes the other reads;
    no input makes \<open>ReadTCP\<close> panic or accept a body that is too large; \<open>ReadWebsocket\<close> reads past its message.

  \<^bold>\<open>The parts of a comet.\<close>
  \<^item> \<open>Free_List\<close>, \<open>Bytes_Pool\<close> (\<open>pkg/bytes/buffer.go\<close>): the locale of a list of free cells in a store; buffers given out
    never overlap.
  \<^item> \<open>Timer\<close> (\<open>pkg/time/timer.go\<close>): the heap of timers, its invariant, and that expiry calls what is due, in order.
  \<^item> \<open>Ring\<close> (\<open>ring.go\<close>), \<open>Channel\<close> (\<open>channel.go\<close>), \<open>Room\<close> (\<open>room.go\<close>), \<open>Bucket\<close> (\<open>bucket.go\<close>), \<open>Round\<close> (\<open>round.go\<close>): the ring is a queue
    across the wrap-around of its counters, a room is a list of members, and a bucket keeps keys, rooms and
    channels consistent in every history. The messages of the ring are values: that a body may share memory with
    the buffer of the reader is noted as a finding and not modelled.
  \<^item> \<open>Comet_Server\<close> (\<open>server.go\<close>, \<open>operation.go\<close>, \<open>grpc/server.go\<close>): the buckets, the calls of clients and of the job.
  \<^item> \<open>Session\<close> (the loops of \<open>server_tcp.go\<close> and \<open>server_websocket.go\<close>): the reading and the writing goroutine of a
    connection over an abstract transport, with all their interleavings; \<open>Serve_TCP\<close> and \<open>Serve_Websocket\<close> give the two
    transports and the handshakes, \<open>Resources\<close> shows that buffers and timers are given back.
  \<^item> \<open>Comet_Main\<close> (\<open>cmd/comet/main.go\<close>, the listeners, \<open>pkg/ip\<close>, \<open>pkg/time/duration.go\<close>, \<open>whitelist.go\<close>): accepting, and the
    registration of a comet, which the logic process reads back exactly.

  \<^bold>\<open>The job.\<close> \<open>Job_Room\<close> (\<open>internal/job/room.go\<close>): the merging of the messages of a room into batches; \<open>Job\<close> (\<open>comet.go\<close>,
  \<open>push.go\<close>, \<open>job.go\<close>): the queue, the clients of the comets and the pushes.

  \<^bold>\<open>The logic process.\<close> \<open>Go_Strings\<close> (\<open>pkg/strings\<close> and what is used of Go's \<open>strings\<close> and \<open>strconv\<close>); \<open>Logic_Dao\<close> (\<open>dao/redis.go\<close>): the
  mappings refine a routing table, over the locale \<open>redis_db\<close> of the documented effect of the Redis commands, which
  a database in memory satisfies; the expiry of a key by the passing of time is not part of it. \<open>Logic_Balancer\<close>
  (\<open>balancer.go\<close>): the choice of comets, over a record of floating-point operations. \<open>Logic_Core\<close> (\<open>conn.go\<close>, \<open>push.go\<close>,
  \<open>online.go\<close>, \<open>nodes.go\<close>, \<open>logic.go\<close>): connections, pushes and counts; \<open>Logic_Api\<close> (\<open>grpc\<close>, \<open>http\<close>, \<open>dao/kafka.go\<close>): how it is called.

  This theory joins them: a push passes through all three processes to the queue of a connection.

  \<^bold>\<open>Termination and bounds.\<close> There is no fuel in the definitions. Loops over an input are structural recursion; the loops of \<open>bufio\<close>
  that depend on the underlying reader or writer are partial functions into \<open>option\<close>, and that they return under the
  contract is part of the theorems, as is the bound of 102 fragments of a WebSocket message, which is the code's own.
  The comparison of two lengths in single precision in \<open>LoadBalancer.Update\<close> is exact below \<open>2^24\<close> nodes.

  \<^bold>\<open>Not modelled.\<close> Logging (\<open>pkg/logger\<close>); flags, files and default values of the configuration; the wiring of the
  processes, signals, dialling and starting of servers; generated code; the clients of NATS, Kafka, Redis and of the
  discovery service; benchmarks and examples. Locks are not modelled as such: an operation that holds a lock
  is one step.
\<close>

section \<open>The way of a push\<close>

definition push_message :: "int32 \<Rightarrow> string \<Rightarrow> string \<Rightarrow> byte list option \<Rightarrow> PushMsg" where
  "push_message op server key msg =
     \<lparr>pm_Type = PUSH, pm_Operation = op, pm_Speed = 0, pm_Server = server, pm_Room = [], pm_Keys = [key], pm_Msg = msg\<rparr>"

definition delivered_proto :: "byte list option \<Rightarrow> Proto" where
  "delivered_proto msg = \<lparr>Ver = 1, Op = OpRaw, Seq = 0, Body = Some (proto_frame \<lparr>Ver = 1, Op = OpRaw, Seq = 0, Body = msg\<rparr>)\<rparr>"

text \<open>The channel of the next push to a comet, and that it is empty; a connection that takes a message.\<close>

definition next_push :: "Comet \<Rightarrow> nat" where
  "next_push c = unat ((cm_pushChanNum c + 1) mod cm_routineSize c)"

definition next_push_free :: "Comet \<Rightarrow> bool" where
  "next_push_free c \<longleftrightarrow> cm_routineSize c \<noteq> 0 \<and> 0 < cm_routineChan c \<and> next_push c < length (cm_pushChan c) \<and> cm_pushChan c ! next_push c = []"

definition takes_push :: "(byte list \<Rightarrow> 32 word \<Rightarrow> 32 word) \<Rightarrow> string \<Rightarrow> int32 \<Rightarrow> 'l Server \<Rightarrow> addr \<Rightarrow> bool" where
  "takes_push hash key op sv ch \<longleftrightarrow> key_chan hash key sv = Some ch \<and> ch < length (st_ch (sv_store sv)) \<and>
     Channel_NeedPush op (sv_chan ch sv) \<and> \<not> chan_full (sv_chan ch sv)"

lemma push_key_published:
  assumes "redis_db pipe view" and "ServersByKeys pipe [key] r = ((servers, None), r1)"
    and "r_servers (routes_of (view r)) key = Some server" and "server \<noteq> []" and "key \<noteq> []"
    and "q_marshal qs (push_message op server key msg) = Inr b" and "q_publish qs (lc_Stream c) b q = (None, q1)"
  shows "PushKeys c pipe qs op [key] msg (r, q) = Ret (None, r1, q1)"
  using redis_db.ServersByKeys_view [OF assms(1,2)] assms(2-7)
  by (simp add: PushKeys_def or_empty_def group_add_def NatsPusher_PushMsg_def nats_send_def push_message_def)

lemma push_key_consumed:
  assumes "unmarshal b = Some (push_message op server key msg)" and "map_of (jb_cometServers j) server = Some a" and "a < length (jb_comets j)"
    and "next_push_free (jb_comets j ! a)"
  shows "\<exists>j1 cm. ExecConsume_turn unmarshal (Fetched [(b, False)]) now j = Some (Ret (Ack, j1)) \<and>
    process_turn (next_push (jb_comets j ! a)) TakePush (jb_comets j1 ! a) =
      Some (CallPush \<lparr>pq_Keys = [key], pq_ProtoOp = op, pq_Proto = delivered_proto msg\<rparr>, cm)"
  using assms
  by (simp add: ExecConsume_turn_def Job_push_def pushMsgToKeys_def raw_body_eq on_comet_def Comet_Push_def send_at_def process_turn_def
      push_message_def delivered_proto_def next_push_def next_push_free_def Let_def)

lemma push_key_delivered:
  assumes "takes_push hash key op sv ch"
  shows "\<exists>sv'. grpc_PushMsg hash [key] (Some p) op sv = Ret (None, sv') \<and> ch_signal (sv_chan ch sv') = ch_signal (sv_chan ch sv) @ [SigMsg p]"
proof -
  obtain i where i: "Server_Bucket hash key sv = Ret i" "Bucket_Channel key (sv_buckets sv ! i) = Some ch"
    using assms by (auto simp: takes_push_def key_chan_def split: outcome.splits)
  then show ?thesis using assms
    by (simp add: takes_push_def grpc_PushMsg_def Channel_Push_def chan_send_def chan_full_def sv_upd_def sv_chan_def at_set)
qed

text \<open>
  C1 (from the caller to the connection). A push to the key of a connection, with the routing table naming its
  server, is published without an error by the logic process; when the job process fetches that message it
  acknowledges it and has put one request into a channel of the client of that comet; the goroutine of that
  channel calls the comet, and the comet puts the message into the queue of the connection, behind what was
  there. The queues on the way have room, and the message is encoded so that it can be decoded. The frame that
  the connection gets carries the operation \<open>OpRaw\<close> instead of the one of the push.
\<close>

theorem push_end_to_end:
  assumes "redis_db pipe view" and "ServersByKeys pipe [key] r = ((servers, None), r1)"
    and "r_servers (routes_of (view r)) key = Some server" and "server \<noteq> []" and "key \<noteq> []"
    and "q_marshal qs (push_message op server key msg) = Inr b" and "q_publish qs (lc_Stream c) b q = (None, q1)"
    and u: "unmarshal b = Some (push_message op server key msg)"
    and j: "map_of (jb_cometServers j) server = Some a" "a < length (jb_comets j)" "next_push_free (jb_comets j ! a)"
    and sv: "takes_push hash key op sv ch"
  shows "PushKeys c pipe qs op [key] msg (r, q) = Ret (None, r1, q1) \<and>
    (\<exists>j1 req cm sv'. ExecConsume_turn unmarshal (Fetched [(b, False)]) now j = Some (Ret (Ack, j1)) \<and>
      process_turn (next_push (jb_comets j ! a)) TakePush (jb_comets j1 ! a) = Some (CallPush req, cm) \<and>
      grpc_PushMsg hash (pq_Keys req) (Some (pq_Proto req)) (pq_ProtoOp req) sv = Ret (None, sv') \<and>
      ch_signal (sv_chan ch sv') = ch_signal (sv_chan ch sv) @ [SigMsg (delivered_proto msg)])"
proof -
  obtain j1 cm where j1: "ExecConsume_turn unmarshal (Fetched [(b, False)]) now j = Some (Ret (Ack, j1))"
    "process_turn (next_push (jb_comets j ! a)) TakePush (jb_comets j1 ! a) =
      Some (CallPush \<lparr>pq_Keys = [key], pq_ProtoOp = op, pq_Proto = delivered_proto msg\<rparr>, cm)"
    using push_key_consumed [where unmarshal = unmarshal and b = b and now = now, OF u j] by (elim exE conjE) (rule that)
  obtain sv' where "grpc_PushMsg hash [key] (Some (delivered_proto msg)) op sv = Ret (None, sv')"
    "ch_signal (sv_chan ch sv') = ch_signal (sv_chan ch sv) @ [SigMsg (delivered_proto msg)]"
    using push_key_delivered [OF sv, of "delivered_proto msg"] by (elim exE conjE) (rule that)
  then show ?thesis using push_key_published [OF assms(1-7)] j1
    by (intro conjI exI [of _ j1] exI [of _ "\<lparr>pq_Keys = [key], pq_ProtoOp = op, pq_Proto = delivered_proto msg\<rparr>"] exI [of _ cm] exI [of _ sv']) simp_all
qed

definition demo_path_server :: "unit Server" where
  "demo_path_server = demo_server (demo_bucket\<lparr>bk_chs := [(''k'', 0)]\<rparr>) \<lparr>st_ch = [(NewChannel 1 2)\<lparr>ch_Key := ''k'', ch_watchOps := [4]\<rparr>], st_rm = []\<rparr>"

definition demo_path_queue :: "byte list list queue" where
  "demo_path_queue = \<lparr>q_marshal = \<lambda>m. Inr [1], q_publish = \<lambda>stream b q. (None, q @ [b])\<rparr>"

theorem push_end_to_end_witness:
  "\<exists>j1 req cm sv'. ExecConsume_turn (\<lambda>b. Some (push_message 4 ''h'' ''k'' (Some [7]))) (Fetched [([1], False)]) 0 demo_job = Some (Ret (Ack, j1)) \<and>
    process_turn (next_push (jb_comets demo_job ! 0)) TakePush (jb_comets j1 ! 0) = Some (CallPush req, cm) \<and>
    grpc_PushMsg (\<lambda>_ n. n) (pq_Keys req) (Some (pq_Proto req)) (pq_ProtoOp req) demo_path_server = Ret (None, sv') \<and>
    ch_signal (sv_chan 0 sv') = [SigMsg (delivered_proto (Some [7]))]"
proof -
  let ?r = "([(''key_k'', ''h'')], []) :: mem_db" and ?u = "\<lambda>b. Some (push_message 4 ''h'' ''k'' (Some [7]))"
  have s: "ServersByKeys mem_pipe [''k''] ?r = (([''h''], None), ?r)" by (simp add: ServersByKeys_def mem_pipe_def keyKeyServer_def or_empty_def)
  have t: "r_servers (routes_of (mem_view ?r)) ''k'' = Some ''h''" by (simp add: routes_of_def mem_view_def keyKeyServer_def)
  have q: "q_marshal demo_path_queue (push_message 4 ''h'' ''k'' (Some [7])) = Inr [1]" "q_publish demo_path_queue (lc_Stream demo_logic_conf) [1] [] = (None, [[1]])"
    by (simp_all add: demo_path_queue_def)
  have j: "map_of (jb_cometServers demo_job) ''h'' = Some 0" "0 < length (jb_comets demo_job)" "next_push_free (jb_comets demo_job ! 0)" by code_simp+
  have k: "takes_push (\<lambda>_ n. n) ''k'' 4 demo_path_server 0" "ch_signal (sv_chan 0 demo_path_server) = []"
    by (simp_all add: takes_push_def demo_path_server_def demo_server_def demo_bucket_def NewBucket_def key_chan_def Server_Bucket_def Bucket_Channel_def
        sv_chan_def ch_at_def NewChannel_def Channel_NeedPush_def chan_full_def)
  have h: "''h'' \<noteq> []" "''k'' \<noteq> []" and u: "?u [1] = Some (push_message 4 ''h'' ''k'' (Some [7]))" by simp_all
  from push_end_to_end [where pipe = mem_pipe and view = mem_view and key = "''k''" and r = ?r and servers = "[''h'']" and ?r1.0 = ?r and server = "''h''" and
      qs = demo_path_queue and op = 4 and msg = "Some [7]" and b = "[1]" and c = demo_logic_conf and q = "[]" and ?q1.0 = "[[1]]" and unmarshal = ?u and
      j = demo_job and a = 0 and hash = "\<lambda>_ n. n" and sv = demo_path_server and ch = 0 and now = 0, OF mem.redis_db_axioms s t h q u j k(1)]
  show ?thesis unfolding k(2) append_Nil by blast
qed

end
